(* ===== verification/Prelude.thy ===== *)
theory Prelude
  imports Main "HOL-Library.Word"
begin

text \<open>
  Shared vocabulary of the development: the machine integers of \<^verbatim>\<open>include/types.h\<close>, the
  error values of a kernel operation, sequencing of operations that may fail, and the byte
  memory with its little-endian 32-bit loads and stores.

  An operation that can end in \<^verbatim>\<open>panic\<close> (an endless loop after a message) or touch an
  address the page tables do not map returns a value of the sum type \<open>'a res\<close>.
\<close>

unbundle bit_operations_syntax

section \<open>Machine integers\<close>

type_synonym u8 = "8 word"
type_synonym u16 = "16 word"
type_synonym u32 = "32 word"
type_synonym i32 = "32 word" \<comment> \<open>\<^verbatim>\<open>int\<close>: read with \<open>sint\<close>, compared with \<open><s\<close>, wrapping\<close>

named_theorems kmem \<open>laws of loads from stored memory\<close>
named_theorems kdefs \<open>definitions of the straight-line kernel operations\<close>

section \<open>Operations that may fail\<close>

datatype kerror =
    Panic string       \<comment> \<open>a failed \<^verbatim>\<open>assert\<close>: \<^verbatim>\<open>panic\<close> prints and never returns\<close>
  | PageFault u32      \<comment> \<open>an access to an address without a present translation\<close>
  | DivideError        \<comment> \<open>a division by zero, exception 0\<close>
  | Undefined string   \<comment> \<open>a read of a local variable that was never set\<close>

type_synonym 'a res = "kerror + 'a"

definition bindE :: "'a res \<Rightarrow> ('a \<Rightarrow> 'b res) \<Rightarrow> 'b res" where
  "bindE r f = (case r of Inl e \<Rightarrow> Inl e | Inr x \<Rightarrow> f x)"

lemma bindE_simps [simp]:
  "bindE (Inl e) f = Inl e" "bindE (Inr x) f = f x"
  by (simp_all add: bindE_def)

lemma bindE_cong [fundef_cong]:
  "r = r' \<Longrightarrow> (\<And>x. r' = Inr x \<Longrightarrow> f x = f' x) \<Longrightarrow> bindE r f = bindE r' f'"
  by (cases r') auto

lemma bindE_Inr_iff [simp]:
  "(bindE r f = Inr y) = (\<exists>x. r = Inr x \<and> f x = Inr y)"
  by (cases r) auto

lemma bindE_Inl_iff:
  "(bindE r f = Inl e) = (r = Inl e \<or> (\<exists>x. r = Inr x \<and> f x = Inl e))"
  by (cases r) auto

text \<open>The same for operations with a loop that may not end, where \<open>None\<close> stands for not returning.\<close>

definition bindO :: "'a res option \<Rightarrow> ('a \<Rightarrow> 'b res option) \<Rightarrow> 'b res option" where
  "bindO r f = (case r of None \<Rightarrow> None | Some (Inl e) \<Rightarrow> Some (Inl e) | Some (Inr x) \<Rightarrow> f x)"

lemma bindO_simps [simp]:
  "bindO None f = None" "bindO (Some (Inl e)) f = Some (Inl e)" "bindO (Some (Inr x)) f = f x"
  by (simp_all add: bindO_def)

lemma bindE_assoc: "bindE (bindE r f) g = bindE r (\<lambda>x. bindE (f x) g)"
  by (cases r) simp_all

section \<open>Word arithmetic\<close>


lemma unat_less_u32 [simp]: "unat (x :: u32) < 4294967296"
  using unsigned_less [where w = x and 'a = nat] by simp

lemma unat_le_u32 [simp]: "unat (x :: u32) \<le> 4294967295"
  using unat_less_u32 [of x] by linarith

lemma unat_plus_small:
  "unat (x :: u32) + unat y < 4294967296 \<Longrightarrow> unat (x + y) = unat x + unat y"
  by (simp add: unat_word_ariths)


lemma unat_minus_small: "(y :: u32) \<le> x \<Longrightarrow> unat (x - y) = unat x - unat y"
  by (simp add: unat_sub)


lemma unat_of_nat_u32: "n < 4294967296 \<Longrightarrow> unat (of_nat n :: u32) = n"
  by (simp add: unat_of_nat)


lemma unat_plus_of_nat_small:
  "unat (x :: u32) + n < 4294967296 \<Longrightarrow> unat (x + of_nat n) = unat x + n"
  using unat_plus_small [of x "of_nat n"] by (simp add: unat_of_nat_u32)

lemma u32_eq_unat: "((x :: u32) = y) = (unat x = unat y)"
  by (simp add: word_unat_eq_iff)

text \<open>The value of a signed word.\<close>

lemma sint_word_cases:
  fixes w :: "'a::len word"
  shows "sint w = (if uint w < 2 ^ (LENGTH('a) - 1) then uint w else uint w - 2 ^ LENGTH('a))"
proof -
  let ?n = "LENGTH('a) - 1"
  have n: "Suc ?n = LENGTH('a)" by simp
  have p: "(2 :: int) ^ LENGTH('a) = 2 * 2 ^ ?n" by (metis n power_Suc)
  have "sint w = (uint w + 2 ^ ?n) mod 2 ^ LENGTH('a) - 2 ^ ?n"
    by (simp add: sint_uint signed_take_bit_eq_take_bit_shift take_bit_eq_mod n)
  moreover have "0 \<le> uint w" "uint w < 2 * 2 ^ ?n"
    using uint_bounded [of w] p by simp_all
  moreover have "(uint w + 2 ^ ?n) mod 2 ^ LENGTH('a) =
      (if uint w < 2 ^ ?n then uint w + 2 ^ ?n else uint w - 2 ^ ?n)"
  proof (cases "uint w < 2 ^ ?n")
    case True
    then show ?thesis using p calculation(2) by (simp add: mod_pos_pos_trivial)
  next
    case False
    have "(uint w - 2 ^ ?n + 2 ^ LENGTH('a)) mod 2 ^ LENGTH('a) = uint w - 2 ^ ?n"
      using False p calculation(2,3) by (subst mod_add_self2) (intro mod_pos_pos_trivial; simp)
    moreover have "uint w - 2 ^ ?n + 2 ^ LENGTH('a) = uint w + 2 ^ ?n" using p by simp
    ultimately show ?thesis using False by (simp only: if_False)
  qed
  ultimately show ?thesis using p by simp
qed

lemma sint_u8: "sint (w :: u8) = (if w < 128 then uint w else uint w - 256)"
  by (simp add: sint_word_cases word_less_def)

lemma sint_u32: "sint (w :: u32) = (if w < 0x80000000 then uint w else uint w - 4294967296)"
  by (simp add: sint_word_cases word_less_def)

lemma unat_mask3: "unat ((w :: u8) AND NOT 7) = 8 * (unat w div 8)"
proof -
  have "w AND NOT 7 = push_bit 3 (drop_bit 3 w)"
  proof -
    have m: "(7 :: u8) = mask 3" by (simp add: mask_eq_exp_minus_1)
    show ?thesis unfolding m
      by (rule bit_word_eqI) (auto simp: bit_and_iff bit_not_iff bit_mask_iff bit_push_bit_iff bit_drop_bit_eq)
  qed
  moreover have "8 * (unat w div 8) < 256"
    using unsigned_less [where w = w and 'a = nat] mult_div_mod_eq [of 8 "unat w"] by simp
  ultimately show ?thesis
    by (simp add: push_bit_eq_mult drop_bit_eq_div unat_word_ariths unat_div)
qed
section \<open>Page arithmetic\<close>

text \<open>A 32-bit address is a page number and a 12-bit offset.\<close>

definition vpn :: "u32 \<Rightarrow> nat" where
  "vpn a = unat a div 4096"

lemma and_3ff: "(x :: u32) AND 0x3ff = take_bit 10 x"
  by (simp add: take_bit_eq_mask mask_eq_exp_minus_1)

lemma and_fff: "(x :: u32) AND 0xfff = take_bit 12 x"
  by (simp add: take_bit_eq_mask mask_eq_exp_minus_1)

lemma and_page_mask: "(x :: u32) AND 0xfffff000 = push_bit 12 (drop_bit 12 x)"
proof -
  have "(0xfffff000 :: u32) = NOT (mask 12)" by (simp add: mask_eq_exp_minus_1)
  then have "x AND 0xfffff000 = x AND NOT (mask 12)" by (simp only:)
  also have "\<dots> = push_bit 12 (drop_bit 12 x)"
  by (rule bit_word_eqI) (auto simp: bit_and_iff bit_not_iff bit_mask_iff bit_push_bit_iff bit_drop_bit_eq)
  finally show ?thesis .
qed

lemma unat_3ff: "unat ((x :: u32) AND 0x3ff) = unat x mod 1024"
  by (simp add: and_3ff take_bit_eq_mod unat_mod)

lemma unat_fff: "unat ((x :: u32) AND 0xfff) = unat x mod 4096"
  by (simp add: and_fff take_bit_eq_mod unat_mod)

lemma unat_drop_12: "unat (drop_bit 12 (x :: u32)) = unat x div 4096"
  by (simp add: drop_bit_eq_div unat_div)

lemma unat_drop_22: "unat (drop_bit 22 (x :: u32)) = unat x div 4194304"
  by (simp add: drop_bit_eq_div unat_div)

lemma unat_page_mask: "unat ((x :: u32) AND 0xfffff000) = 4096 * (unat x div 4096)"
proof -
  have "unat x div 4096 < 1048576" by (simp add: div_less_iff_less_mult)
  then have "4096 * (unat x div 4096) < 4294967296" by simp
  then show ?thesis
  by (simp add: and_page_mask push_bit_eq_mult drop_bit_eq_div unat_word_ariths unat_div)
qed

lemma page_split: "(x :: u32) AND 0xfffff000 = y AND 0xfffff000 \<longleftrightarrow> unat x div 4096 = unat y div 4096"
  by (simp add: u32_eq_unat unat_page_mask)


lemma bit_page_mask: "bit ((x :: u32) AND 0xfffff000) n \<longleftrightarrow> 12 \<le> n \<and> bit x n"
  unfolding and_page_mask by (auto simp: bit_push_bit_iff bit_drop_bit_eq dest: bit_imp_le_length)

lemma bit_fff: "bit ((x :: u32) AND 0xfff) n \<longleftrightarrow> n < 12 \<and> bit x n"
  unfolding and_fff by (auto simp: bit_take_bit_iff)

lemma vpn_less: "unat (x :: u32) div 4096 < 1048576"
  by (simp add: div_less_iff_less_mult)

lemma page_or_off: "unat (((x :: u32) AND 0xfffff000) OR (y AND 0xfff)) = 4096 * (unat x div 4096) + unat y mod 4096"
proof -
  have "(x AND 0xfffff000) AND (y AND 0xfff) = 0"
    by (rule bit_word_eqI) (simp add: bit_and_iff [of "x AND 0xfffff000" "y AND 0xfff"] bit_page_mask bit_fff)
  then have "(x AND 0xfffff000) OR (y AND 0xfff) = (x AND 0xfffff000) + (y AND 0xfff)"
    by (rule disjunctive_add_eq_or [symmetric])
  moreover have "4096 * (unat x div 4096) + unat y mod 4096 < 4294967296"
    using vpn_less [of x] mod_less_divisor [of 4096 "unat y"] by linarith
  ultimately show ?thesis by (simp add: unat_plus_small unat_page_mask unat_fff)
qed

section \<open>Byte memory\<close>

text \<open>
  The bytes a pointer of the kernel sees. A 32-bit object at address \<open>a\<close> occupies the four
  bytes from \<open>a\<close>, least significant first, at any alignment.
\<close>

type_synonym bytes = "u32 \<Rightarrow> u8"

definition load32 :: "bytes \<Rightarrow> u32 \<Rightarrow> u32" where
  "load32 m a =
     ucast (m a) OR push_bit 8 (ucast (m (a + 1)))
     OR push_bit 16 (ucast (m (a + 2))) OR push_bit 24 (ucast (m (a + 3)))"

definition store32 :: "bytes \<Rightarrow> u32 \<Rightarrow> u32 \<Rightarrow> bytes" where
  "store32 m a w = m(a := ucast w, a + 1 := ucast (drop_bit 8 w),
     a + 2 := ucast (drop_bit 16 w), a + 3 := ucast (drop_bit 24 w))"

text \<open>Two byte ranges that do not overlap and do not wrap around the address space.\<close>

definition apart :: "u32 \<Rightarrow> nat \<Rightarrow> u32 \<Rightarrow> nat \<Rightarrow> bool" where
  "apart a n b k \<longleftrightarrow>
     (unat a + n \<le> unat b \<and> unat b + k \<le> 4294967296) \<or>
     (unat b + k \<le> unat a \<and> unat a + n \<le> 4294967296)"

lemma apart_sym: "apart a n b k = apart b k a n"
  by (auto simp: apart_def)

lemma apart_mono: "apart a n b k \<Longrightarrow> n' \<le> n \<Longrightarrow> k' \<le> k \<Longrightarrow> apart a n' b k'"
  by (auto simp: apart_def)

text \<open>Sub-ranges of ranges that are apart are apart.\<close>

lemma apart_offset:
  assumes "apart a n b k" and "i + n' \<le> n" and "j + k' \<le> k" and "0 < n'" and "0 < k'"
  shows "apart (a + of_nat i) n' (b + of_nat j) k'"
proof -
  have "unat a + n \<le> 4294967296" "unat b + k \<le> 4294967296"
    using assms(1) by (auto simp: apart_def)
  then have "unat (a + of_nat i) = unat a + i" "unat (b + of_nat j) = unat b + j"
    using assms(2-5) by (simp_all add: unat_plus_of_nat_small)
  then show ?thesis using assms by (auto simp: apart_def)
qed

lemma apart_neq:
  assumes "apart a n b k" and "i < n" and "j < k"
  shows "a + of_nat i \<noteq> b + of_nat j"
  using apart_offset [OF assms(1), of i 1 j 1] assms(2,3) by (auto simp: apart_def)

lemma load32_store32_same [simp, kmem]: "load32 (store32 m a w) a = w"
proof (rule bit_word_eqI)
  fix n
  assume n: "n < LENGTH(32)"
  show "bit (load32 (store32 m a w) a) n = bit w n"
    by (cases "24 \<le> n"; cases "16 \<le> n") (use n in \<open>auto simp: load32_def store32_def bit_or_iff
        bit_push_bit_iff bit_ucast_iff bit_drop_bit_eq\<close>)
qed

lemma store32_byte_apart:
  assumes "apart a 4 x 1"
  shows "store32 m a w x = m x"
  using apart_neq [OF assms, of 0 0] apart_neq [OF assms, of 1 0]
    apart_neq [OF assms, of 2 0] apart_neq [OF assms, of 3 0]
  by (auto simp: store32_def)

text \<open>A load depends on its four bytes only.\<close>

lemma load32_cong:
  "(\<And>i. i < 4 \<Longrightarrow> m (a + of_nat i) = m' (a + of_nat i)) \<Longrightarrow> load32 m a = load32 m' a"
proof -
  assume *: "\<And>i. i < 4 \<Longrightarrow> m (a + of_nat i) = m' (a + of_nat i)"
  from * [of 0] * [of 1] * [of 2] * [of 3] show ?thesis
    by (simp add: load32_def)
qed

lemma load32_store32_apart [kmem]:
  assumes "apart a 4 b 4"
  shows "load32 (store32 m a w) b = load32 m b"
proof (rule load32_cong)
  fix i :: nat
  assume "i < 4"
  then have "apart a 4 (b + of_nat i) 1"
    using apart_offset [OF assms, of 0 4 i 1] by simp
  then show "store32 m a w (b + of_nat i) = m (b + of_nat i)"
    by (rule store32_byte_apart)
qed

text \<open>
  The interface of a store of objects: what an update guarantees about later reads, at the
  object written and at every object apart from it. Its clients are the 32-bit words here and
  the chunk headers and task structures of the components.
\<close>

locale object_store =
  fixes get :: "'m \<Rightarrow> 'a \<Rightarrow> 'v"
    and put :: "'m \<Rightarrow> 'a \<Rightarrow> 'v \<Rightarrow> 'm"
    and sep :: "'a \<Rightarrow> 'a \<Rightarrow> bool"
  assumes get_put_same: "get (put m a v) a = v"
    and get_put_sep: "sep a b \<Longrightarrow> get (put m a v) b = get m b"
begin

fun puts :: "'m \<Rightarrow> ('a \<times> 'v) list \<Rightarrow> 'm" where
  "puts m [] = m"
| "puts m ((a, v) # ws) = puts (put m a v) ws"

lemma get_puts_sep: "(\<And>a v. (a, v) \<in> set ws \<Longrightarrow> sep a b) \<Longrightarrow> get (puts m ws) b = get m b"
proof (induction ws arbitrary: m)
  case Nil
  then show ?case by simp
next
  case (Cons w ws)
  obtain c v where w: "w = (c, v)" by (cases w)
  then have "sep c b" using Cons.prems [of c v] by simp
  moreover have "get (puts (put m c v) ws) b = get (put m c v) b"
    using Cons.prems by (intro Cons.IH) auto
  ultimately show ?case by (simp add: w get_put_sep)
qed

lemma get_puts_written:
  assumes "(\<And>a v. (a, v) \<in> set us \<Longrightarrow> sep a b)"
  shows "get (puts m (ws @ (b, x) # us)) b = x"
  using assms by (induction m ws rule: puts.induct) (simp_all add: get_put_same get_puts_sep)

end

interpretation words: object_store load32 store32 "\<lambda>a b. apart a 4 b 4"
  by unfold_locales (simp_all add: load32_store32_apart)

end
