(* ===== verification/Pmm.thy ===== *)
theory Pmm
  imports Prelude "HOL-Library.Multiset"
begin

text \<open>
  The physical page allocator of \<^verbatim>\<open>mm/pmm.c\<close> and \<^verbatim>\<open>include/pmm.h\<close>: a stack of page
  addresses, filled from the memory map the boot loader hands over.

  The state is the array \<open>pmm_stack\<close> with its index \<open>pmm_stack_top\<close> (entry 0 is never
  used) and the counter \<open>phy_page_count\<close>. Its abstraction is \<open>free_pages\<close>, the list of
  stored pages from the top. The records of the later components extend this one, so the
  operations are stated for every extension.
\<close>

section \<open>State and constants\<close>

definition PMM_MAX_SIZE :: u32 where [simp]: "PMM_MAX_SIZE = 0x20000000"
definition PMM_PAGE_SIZE :: u32 where [simp]: "PMM_PAGE_SIZE = 0x1000"
definition PAGE_MAX_SIZE :: u32 where "PAGE_MAX_SIZE = PMM_MAX_SIZE div PMM_PAGE_SIZE"
definition STACK_SIZE :: u32 where [simp]: "STACK_SIZE = 8192"

record pmm_state =
  pmm_stack :: "u32 \<Rightarrow> u32"
  pmm_stack_top :: u32
  phy_page_count :: u32

text \<open>An entry of the boot loader's memory map (\<^verbatim>\<open>struct mmap_entry\<close>), 24 bytes.\<close>

record mmap_entry =
  mm_size :: u32
  base_addr_low :: u32
  base_addr_high :: u32
  length_low :: u32
  length_high :: u32
  mm_type :: u32

definition mmap_entry_at :: "bytes \<Rightarrow> u32 \<Rightarrow> mmap_entry" where
  "mmap_entry_at m p =
     \<lparr>mm_size = load32 m p, base_addr_low = load32 m (p + 4),
      base_addr_high = load32 m (p + 8), length_low = load32 m (p + 12),
      length_high = load32 m (p + 16), mm_type = load32 m (p + 20)\<rparr>"

lemma PAGE_MAX_SIZE_eq [simp]: "PAGE_MAX_SIZE = 131072"
  by (simp add: PAGE_MAX_SIZE_def)

section \<open>Operations\<close>

definition pmm_alloc_page :: "'a pmm_state_scheme \<Rightarrow> (u32 \<times> 'a pmm_state_scheme) res" where
  "pmm_alloc_page st =
     (if pmm_stack_top st = 0 then Inl (Panic ''out of memory'')
      else Inr (pmm_stack st (pmm_stack_top st),
                st\<lparr>pmm_stack_top := pmm_stack_top st - 1\<rparr>))"

definition pmm_free_page :: "u32 \<Rightarrow> 'a pmm_state_scheme \<Rightarrow> 'a pmm_state_scheme res" where
  "pmm_free_page page st =
     (if pmm_stack_top st = PAGE_MAX_SIZE then Inl (Panic ''out of pmm_stack stack'')
      else let top = pmm_stack_top st + 1
           in Inr (st\<lparr>pmm_stack_top := top, pmm_stack := (pmm_stack st)(top := page)\<rparr>))"

text \<open>
  The \<^verbatim>\<open>while\<close> loop of \<^verbatim>\<open>init_pmm\<close> over one usable region, and the \<^verbatim>\<open>for\<close> loop over the
  entries. \<open>kern_size\<close> is \<^verbatim>\<open>kern_end - kern_start\<close>, two symbols of the linker script.
\<close>

function pmm_add_range ::
  "u32 \<Rightarrow> u32 \<Rightarrow> 'a pmm_state_scheme \<Rightarrow> 'a pmm_state_scheme res" where
  "pmm_add_range page_addr len st =
     (if page_addr < len \<and> page_addr \<le> PMM_MAX_SIZE
      then bindE (pmm_free_page page_addr st)
             (\<lambda>st. pmm_add_range (page_addr + PMM_PAGE_SIZE) len
                     (st\<lparr>phy_page_count := phy_page_count st + 1\<rparr>))
      else Inr st)"
  by pat_completeness auto
termination
  by (relation "measure (\<lambda>(a, l, st). 4294967296 - unat a)")
    (auto simp: word_le_nat_alt unat_plus_small)

declare pmm_add_range.simps [simp del]

definition init_pmm_entry ::
  "u32 \<Rightarrow> mmap_entry \<Rightarrow> 'a pmm_state_scheme \<Rightarrow> 'a pmm_state_scheme res" where
  "init_pmm_entry kern_size e st =
     (if mm_type e = 1 \<and> base_addr_low e = 0x100000
      then pmm_add_range (base_addr_low e + kern_size) (base_addr_low e + length_low e) st
      else Inr st)"

text \<open>
  The entries between two pointers, as \<^verbatim>\<open>for (; map_entry < end; ++map_entry)\<close> visits them.
  A buffer that ends within 24 bytes of the top of the address space would make the
  pointer wrap and the loop run on, so the loop is partial: \<open>None\<close> means it never ends.
\<close>

partial_function (option) mmap_entries :: "bytes \<Rightarrow> u32 \<Rightarrow> u32 \<Rightarrow> mmap_entry list option" where
  "mmap_entries m p e =
     (if p < e
      then Option.bind (mmap_entries m (p + 24) e) (\<lambda>es. Some (mmap_entry_at m p # es))
      else Some [])"

text \<open>A map of \<open>k\<close> whole entries that lies below the top of the address space is read to its end.\<close>

lemma mmap_entries_whole:
  assumes "unat e = unat p + 24 * k"
  shows "mmap_entries m p e = Some (map (\<lambda>i. mmap_entry_at m (p + of_nat (24 * i))) [0..<k])"
  using assms
proof (induction k arbitrary: p)
  case 0
  then have "\<not> p < e" by (simp add: word_less_nat_alt)
  then show ?case by (subst mmap_entries.simps) simp
next
  case (Suc k)
  then have "p < e" by (simp add: word_less_nat_alt)
  moreover have "unat (p + 24) = unat p + 24"
    using Suc.prems unat_less_u32 [of e] by (subst unat_plus_small) simp_all
  ultimately show ?case
    using Suc.IH [of "p + 24"] Suc.prems
    by (subst mmap_entries.simps) (simp add: map_upt_Suc algebra_simps del: upt_Suc)
qed

fun init_pmm :: "u32 \<Rightarrow> mmap_entry list \<Rightarrow> 'a pmm_state_scheme \<Rightarrow> 'a pmm_state_scheme res" where
  "init_pmm kern_size [] st = Inr st"
| "init_pmm kern_size (e # es) st =
     bindE (init_pmm_entry kern_size e st) (init_pmm kern_size es)"

section \<open>The abstraction: a stack of free pages\<close>

definition free_pages :: "'a pmm_state_scheme \<Rightarrow> u32 list" where
  "free_pages st = rev (map (\<lambda>i. pmm_stack st (of_nat i)) [1..<Suc (unat (pmm_stack_top st))])"

definition pmm_ok :: "'a pmm_state_scheme \<Rightarrow> bool" where
  "pmm_ok st \<longleftrightarrow> pmm_stack_top st \<le> PAGE_MAX_SIZE"

lemma length_free_pages: "length (free_pages st) = unat (pmm_stack_top st)"
  by (simp add: free_pages_def)

lemma free_pages_empty: "free_pages st = [] \<longleftrightarrow> pmm_stack_top st = 0"
  by (auto simp: free_pages_def Suc_le_eq unat_gt_0)

lemma free_pages_cong:
  "pmm_stack s = pmm_stack t \<Longrightarrow> pmm_stack_top s = pmm_stack_top t \<Longrightarrow> free_pages s = free_pages t"
  by (simp add: free_pages_def)

lemma free_pages_update [simp]:
  "free_pages (st\<lparr>phy_page_count := c\<rparr>) = free_pages st"
  "pmm_ok (st\<lparr>phy_page_count := c\<rparr>) = pmm_ok st"
  by (simp_all add: free_pages_def pmm_ok_def)

lemma pmm_alloc_Nil:
  "free_pages st = [] \<Longrightarrow> pmm_alloc_page st = Inl (Panic ''out of memory'')"
  by (simp add: pmm_alloc_page_def free_pages_empty)

lemma unat_pred: "(w :: u32) \<noteq> 0 \<Longrightarrow> unat (w - 1) = unat w - 1"
  by (simp add: unat_minus_one)

lemma pmm_alloc_Cons:
  assumes "pmm_ok st" and "free_pages st = p # ps"
  shows "pmm_alloc_page st = Inr (p, st\<lparr>pmm_stack_top := pmm_stack_top st - 1\<rparr>)"
    and "free_pages (st\<lparr>pmm_stack_top := pmm_stack_top st - 1\<rparr>) = ps"
    and "pmm_ok (st\<lparr>pmm_stack_top := pmm_stack_top st - 1\<rparr>)"
proof -
  have ne: "pmm_stack_top st \<noteq> 0" using assms(2) free_pages_empty by force
  then have pos: "0 < unat (pmm_stack_top st)" by (simp add: unat_gt_0)
  then have "[1..<Suc (unat (pmm_stack_top st))]
      = [1..<Suc (unat (pmm_stack_top st) - 1)] @ [unat (pmm_stack_top st)]"
    by (cases "unat (pmm_stack_top st)") auto
  then have split: "free_pages st = pmm_stack st (pmm_stack_top st)
      # free_pages (st\<lparr>pmm_stack_top := pmm_stack_top st - 1\<rparr>)"
    using ne by (simp add: free_pages_def unat_pred)
  show "pmm_alloc_page st = Inr (p, st\<lparr>pmm_stack_top := pmm_stack_top st - 1\<rparr>)"
    using ne split assms(2) by (simp add: pmm_alloc_page_def)
  show "free_pages (st\<lparr>pmm_stack_top := pmm_stack_top st - 1\<rparr>) = ps"
    using split assms(2) by simp
  show "pmm_ok (st\<lparr>pmm_stack_top := pmm_stack_top st - 1\<rparr>)"
    using assms(1) ne by (simp add: pmm_ok_def word_le_nat_alt unat_pred)
qed

lemma pmm_free_full:
  "pmm_ok st \<Longrightarrow> length (free_pages st) = 131072 \<Longrightarrow>
   pmm_free_page page st = Inl (Panic ''out of pmm_stack stack'')"
  by (simp add: length_free_pages pmm_free_page_def u32_eq_unat)

lemma pmm_free_room:
  fixes page :: u32 and st :: "'a pmm_state_scheme"
  assumes "pmm_ok st" and "length (free_pages st) < 131072"
  defines "st' \<equiv> st\<lparr>pmm_stack_top := pmm_stack_top st + 1,
    pmm_stack := (pmm_stack st)(pmm_stack_top st + 1 := page)\<rparr>"
  shows "pmm_free_page page st = Inr st'" and "free_pages st' = page # free_pages st"
    and "pmm_ok st'"
proof -
  let ?t = "unat (pmm_stack_top st)"
  have t: "?t < 131072" using assms(2) by (simp add: length_free_pages)
  then have t1: "unat (pmm_stack_top st + 1) = Suc ?t"
    using unat_plus_of_nat_small [of "pmm_stack_top st" 1] by simp
  from t show "pmm_free_page page st = Inr st'"
    by (auto simp: pmm_free_page_def st'_def Let_def)
  let ?f = "(pmm_stack st)(pmm_stack_top st + 1 := page)"
  have old: "of_nat i \<noteq> pmm_stack_top st + 1" if "i \<in> set [1..<Suc ?t]" for i
    using that t t1 by (auto simp: u32_eq_unat unat_of_nat_u32)
  have new: "of_nat (Suc ?t) = pmm_stack_top st + 1"
    using t t1 by (simp add: u32_eq_unat unat_of_nat_u32 del: of_nat_Suc)
  have "free_pages st' = rev (map (\<lambda>i. ?f (of_nat i)) ([1..<Suc ?t] @ [Suc ?t]))"
    by (simp add: free_pages_def st'_def t1)
  also have "\<dots> = page # rev (map (\<lambda>i. ?f (of_nat i)) [1..<Suc ?t])"
    by (simp add: new del: of_nat_Suc upt_Suc)
  also have "map (\<lambda>i. ?f (of_nat i)) [1..<Suc ?t] = map (\<lambda>i. pmm_stack st (of_nat i)) [1..<Suc ?t]"
    using old by (intro map_cong) (simp_all del: upt_Suc)
  finally show "free_pages st' = page # free_pages st"
    by (simp add: free_pages_def)
  show "pmm_ok st'"
    using t t1 by (simp add: pmm_ok_def st'_def word_le_nat_alt)
qed

section \<open>The interface of a page allocator\<close>

text \<open>
  What the memory managers above rely on: allocation hands out the first page of the pool and
  fails exactly on an empty pool; a released page goes back in front.
\<close>

locale page_allocator =
  fixes alloc :: "'s \<Rightarrow> (u32 \<times> 's) res"
    and release :: "u32 \<Rightarrow> 's \<Rightarrow> 's res"
    and pages :: "'s \<Rightarrow> u32 list"
    and ok :: "'s \<Rightarrow> bool"
    and capacity :: nat
  assumes alloc_empty: "pages s = [] \<Longrightarrow> alloc s = Inl (Panic ''out of memory'')"
    and alloc_cons: "ok s \<Longrightarrow> pages s = p # ps \<Longrightarrow>
      \<exists>s'. alloc s = Inr (p, s') \<and> pages s' = ps \<and> ok s'"
    and release_room: "ok s \<Longrightarrow> length (pages s) < capacity \<Longrightarrow>
      \<exists>s'. release p s = Inr s' \<and> pages s' = p # pages s \<and> ok s'"
    and release_full: "ok s \<Longrightarrow> length (pages s) = capacity \<Longrightarrow> \<exists>e. release p s = Inl e"
    and within: "ok s \<Longrightarrow> length (pages s) \<le> capacity"
begin

lemma alloc_Inr:
  assumes "ok s" and "alloc s = Inr (p, s')"
  shows "pages s = p # pages s' \<and> ok s'"
proof (cases "pages s")
  case Nil
  then show ?thesis using alloc_empty assms(2) by simp
next
  case (Cons q qs)
  then show ?thesis using alloc_cons [OF assms(1) Cons] assms(2) by auto
qed

lemma alloc_Inl:
  assumes "ok s" and "alloc s = Inl e"
  shows "pages s = [] \<and> e = Panic ''out of memory''"
proof (cases "pages s")
  case Nil
  then show ?thesis using alloc_empty assms(2) by simp
next
  case (Cons q qs)
  then show ?thesis using alloc_cons [OF assms(1) Cons] assms(2) by auto
qed

lemma release_Inr:
  assumes "ok s" and "release p s = Inr s'"
  shows "pages s' = p # pages s \<and> ok s'"
proof -
  have "length (pages s) \<noteq> capacity"
    using release_full [OF assms(1), of p] assms(2) by force
  then have "length (pages s) < capacity"
    using within [OF assms(1)] by simp
  with release_room [OF assms(1), of p] assms(2) show ?thesis by auto
qed

lemma release_alloc:
  assumes "ok s" and "release p s = Inr s'"
  shows "\<exists>s''. alloc s' = Inr (p, s'') \<and> pages s'' = pages s \<and> ok s''"
  using release_Inr [OF assms] alloc_cons by blast

end

interpretation pmm: page_allocator pmm_alloc_page pmm_free_page free_pages pmm_ok 131072
proof
  show "pmm_alloc_page s = Inl (Panic ''out of memory'')" if "free_pages s = []"
    for s :: "'a pmm_state_scheme"
    using that by (rule pmm_alloc_Nil)
  show "\<exists>s'. pmm_alloc_page s = Inr (p, s') \<and> free_pages s' = ps \<and> pmm_ok s'"
    if "pmm_ok s" "free_pages s = p # ps" for s :: "'a pmm_state_scheme" and p ps
    using pmm_alloc_Cons [OF that] by blast
  show "\<exists>s'. pmm_free_page p s = Inr s' \<and> free_pages s' = p # free_pages s \<and> pmm_ok s'"
    if "pmm_ok s" "length (free_pages s) < 131072" for s :: "'a pmm_state_scheme" and p
    using pmm_free_room [OF that] by blast
  show "\<exists>e. pmm_free_page p s = Inl e"
    if "pmm_ok s" "length (free_pages s) = 131072" for s :: "'a pmm_state_scheme" and p
    using pmm_free_full [OF that] by blast
  show "length (free_pages s) \<le> 131072" if "pmm_ok s" for s :: "'a pmm_state_scheme"
    using that by (simp add: length_free_pages pmm_ok_def word_le_nat_alt)
qed

section \<open>Owners that release only what they hold\<close>

text \<open>
  A run of allocations and releases, with the pages handed out and not yet returned. The pool
  and the pages held stay together the original pool, whatever the order of the steps.
\<close>

inductive pmm_step :: "pmm_state \<times> u32 list \<Rightarrow> pmm_state \<times> u32 list \<Rightarrow> bool" where
  take: "pmm_alloc_page s = Inr (p, s') \<Longrightarrow> pmm_step (s, held) (s', p # held)"
| give: "p \<in> set held \<Longrightarrow> pmm_free_page p s = Inr s' \<Longrightarrow>
    pmm_step (s, held) (s', remove1 p held)"

inductive_cases pmm_stepE: "pmm_step (s, h) (s', h')"

lemma pmm_step_conserves:
  assumes "pmm_step (s, h) (s', h')" and "pmm_ok s"
  shows "pmm_ok s' \<and> mset (free_pages s') + mset h' = mset (free_pages s) + mset h"
  using assms(1)
proof (rule pmm_stepE)
  fix p
  assume "h' = p # h" "pmm_alloc_page s = Inr (p, s')"
  with pmm.alloc_Inr [OF assms(2)] show ?thesis by fastforce
next
  fix p
  assume *: "h' = remove1 p h" "p \<in> set h" "pmm_free_page p s = Inr s'"
  then have "mset h = add_mset p (mset h')" by simp
  with pmm.release_Inr [OF assms(2) *(3)] show ?thesis by simp
qed

lemma pmm_steps_conserve:
  assumes "pmm_step\<^sup>*\<^sup>* (s, h) (s', h')" and "pmm_ok s"
  shows "pmm_ok s' \<and> mset (free_pages s') + mset h' = mset (free_pages s) + mset h"
  using assms
proof (induction rule: rtranclp_induct2)
  case refl
  then show ?case by simp
next
  case (step t h t' h')
  with pmm_step_conserves [OF step.hyps(2)] show ?case by simp
qed

section \<open>What \<open>init_pmm\<close> puts on the stack\<close>

text \<open>
  How many pages the loop pushes for a region, with the loop's own bound \<open>page_addr \<le> PMM_MAX_SIZE\<close>,
  and which.
\<close>

definition range_count :: "nat \<Rightarrow> nat \<Rightarrow> nat" where
  "range_count a l = (min l 536870913 - a + 4095) div 4096"

definition range_pages :: "u32 \<Rightarrow> nat \<Rightarrow> u32 list" where
  "range_pages a n = map (\<lambda>k. a + of_nat (4096 * k)) [0..<n]"

lemma ceil_pages_step: "0 < d \<Longrightarrow> (d + 4095) div 4096 = Suc ((d - 4096 + 4095) div (4096 :: nat))"
proof (cases "d \<le> 4096")
  case True
  moreover assume "0 < d"
  ultimately have "(d + 4095) div 4096 = 1"
    by (intro div_nat_eqI) auto
  with True show ?thesis by simp
next
  case False
  then obtain e where "d = 4096 + e" using le_Suc_ex nat_le_linear by blast
  then show ?thesis by simp
qed

lemma range_count_step:
  assumes "a < l" and "a \<le> 536870912"
  shows "range_count a l = Suc (range_count (a + 4096) l)"
proof -
  have "0 < min l 536870913 - a" using assms by simp
  from ceil_pages_step [OF this] show ?thesis by (simp add: range_count_def)
qed

lemma range_count_stop: "\<not> (a < l \<and> a \<le> 536870912) \<Longrightarrow> range_count a l = 0"
  by (auto simp: range_count_def)

lemma range_pages_Suc: "range_pages a (Suc n) = a # range_pages (a + 4096) n"
  by (simp add: range_pages_def map_upt_Suc algebra_simps del: upt_Suc)

lemma pmm_add_range_stop:
  "\<not> (a < l \<and> a \<le> PMM_MAX_SIZE) \<Longrightarrow> pmm_add_range a l st = Inr st"
  by (subst pmm_add_range.simps) auto

text \<open>
  With room on the stack the loop never panics; it pushes the pages of the region in
  increasing order (so the highest ends on top) and counts them.
\<close>

lemma pmm_add_range_result:
  assumes "pmm_ok st"
    and "length (free_pages st) + range_count (unat a) (unat l) \<le> 131072"
  shows "\<exists>st'. pmm_add_range a l st = Inr st' \<and> pmm_ok st' \<and>
    free_pages st' = rev (range_pages a (range_count (unat a) (unat l))) @ free_pages st \<and>
    phy_page_count st' = phy_page_count st + of_nat (range_count (unat a) (unat l))"
  using assms
proof (induction "range_count (unat a) (unat l)" arbitrary: a st)
  case 0
  have "\<not> (a < l \<and> a \<le> PMM_MAX_SIZE)"
    using 0(1) range_count_step [of "unat a" "unat l"]
    by (auto simp: word_less_nat_alt word_le_nat_alt)
  with 0 show ?case by (simp add: pmm_add_range_stop range_pages_def)
next
  case (Suc n)
  have go: "a < l" "a \<le> 0x20000000"
    using Suc.hyps(2) range_count_stop [of "unat a" "unat l"]
    by (auto simp: word_less_nat_alt word_le_nat_alt)
  then have a: "unat (a + 4096) = unat a + 4096"
    using unat_plus_small [of a 4096] by (simp add: word_le_nat_alt)
  have n: "n = range_count (unat (a + 4096)) (unat l)"
    using Suc.hyps(2) range_count_step [of "unat a" "unat l"] go
    by (simp add: a word_less_nat_alt word_le_nat_alt)
  have "length (free_pages st) < 131072" using Suc.prems(2) Suc.hyps(2) by simp
  with Suc.prems(1) obtain st1 where st1: "pmm_free_page a st = Inr st1"
    "free_pages st1 = a # free_pages st" "pmm_ok st1"
    using pmm.release_room by blast
  have cnt: "phy_page_count st1 = phy_page_count st"
    using st1(1) by (auto simp: pmm_free_page_def Let_def split: if_splits)
  let ?st2 = "st1\<lparr>phy_page_count := phy_page_count st1 + 1\<rparr>"
  obtain st' where st': "pmm_add_range (a + 4096) l ?st2 = Inr st'" "pmm_ok st'"
    "free_pages st' = rev (range_pages (a + 4096) n) @ free_pages ?st2"
    "phy_page_count st' = phy_page_count ?st2 + of_nat n"
    using Suc.hyps(1) [OF n, of ?st2] Suc.prems(2) Suc.hyps(2) st1 n by auto
  have "pmm_add_range a l st = Inr st'"
    using go st1(1) st'(1) by (subst pmm_add_range.simps) simp
  with st' st1 cnt Suc.hyps(2) [symmetric] show ?case
    by (simp add: range_pages_Suc)
qed

text \<open>The entries init_pmm uses.\<close>

definition usable :: "mmap_entry \<Rightarrow> bool" where
  "usable e \<longleftrightarrow> mm_type e = 1 \<and> base_addr_low e = 0x100000"

lemma init_pmm_skip:
  "\<forall>e \<in> set es. \<not> usable e \<Longrightarrow> init_pmm ks es st = Inr st"
  by (induction es) (auto simp: init_pmm_entry_def usable_def)

lemma init_pmm_append:
  "init_pmm ks (es @ fs) st = bindE (init_pmm ks es st) (init_pmm ks fs)"
proof (induction es arbitrary: st)
  case Nil
  then show ?case by simp
next
  case (Cons e es)
  then show ?case by (cases "init_pmm_entry ks e st") simp_all
qed

lemma range_count_bound: "0x100000 \<le> a \<Longrightarrow> range_count a l \<le> 130817"
proof -
  assume "0x100000 \<le> a"
  then have "min l 536870913 - a + 4095 \<le> 535826432" by arith
  from div_le_mono [OF this, of 4096] show ?thesis by (simp add: range_count_def)
qed

text \<open>The pushed pages of a region that does not wrap around the address space.\<close>

lemma set_range_pages:
  assumes "unat a + 4096 * n \<le> 4294967296 + 4095"
  shows "set (range_pages a n) = {p. \<exists>k < n. unat p = unat a + 4096 * k}"
proof -
  have "unat (a + of_nat (4096 * k)) = unat a + 4096 * k" if "k < n" for k
    using that assms by (intro unat_plus_of_nat_small) linarith
  then show ?thesis
    unfolding range_pages_def by (auto simp: u32_eq_unat image_iff)
qed

lemma distinct_range_pages:
  assumes "unat a + 4096 * n \<le> 4294967296 + 4095"
  shows "distinct (range_pages a n)"
proof -
  have "unat (a + of_nat (4096 * k)) = unat a + 4096 * k" if "k < n" for k
    using that assms by (intro unat_plus_of_nat_small) linarith
  then show ?thesis
    unfolding range_pages_def by (auto simp: distinct_map inj_on_def u32_eq_unat)
qed

lemma range_count_iff:
  "k < range_count a l \<longleftrightarrow> a + 4096 * k < l \<and> a + 4096 * k \<le> 536870912"
proof -
  have "k < range_count a l \<longleftrightarrow> Suc k * 4096 \<le> min l 536870913 - a + 4095"
    unfolding range_count_def by (simp add: Suc_le_eq [symmetric] less_eq_div_iff_mult_less_eq del: mult_Suc)
  then show ?thesis by auto
qed

text \<open>One usable region: the state after \<open>init_pmm\<close> from an empty stack.\<close>

lemma init_pmm_one_region:
  assumes empty: "pmm_stack_top st = 0" and one: "filter usable es = [e]"
    and ks: "unat ks < 0xFFF00000" and len: "unat (length_low e) < 0xFFF00000"
  defines "a \<equiv> 0x100000 + ks"
  defines "n \<equiv> range_count (0x100000 + unat ks) (0x100000 + unat (length_low e))"
  shows "\<exists>st'. init_pmm ks es st = Inr st' \<and> pmm_ok st' \<and> free_pages st' = rev (range_pages a n) \<and>
    phy_page_count st' = phy_page_count st + of_nat n"
    and "unat a = 0x100000 + unat ks"
proof -
  obtain us vs where es: "es = us @ e # vs" "\<forall>x \<in> set us. \<not> usable x" "usable e"
    "filter usable vs = []"
    using one by (auto simp: filter_eq_Cons_iff)
  then have vs: "\<forall>x \<in> set vs. \<not> usable x" by (simp add: filter_empty_conv)
  show a: "unat a = 0x100000 + unat ks"
    unfolding a_def using ks by (subst unat_plus_small) simp_all
  have l: "unat (0x100000 + length_low e) = 0x100000 + unat (length_low e)"
    using len by (subst unat_plus_small) simp_all
  have "free_pages st = []" "pmm_ok st" using empty by (simp_all add: free_pages_empty pmm_ok_def)
  moreover have "n \<le> 130817" unfolding n_def by (rule range_count_bound) simp
  ultimately obtain st' where "pmm_add_range a (0x100000 + length_low e) st = Inr st'"
    "pmm_ok st'" "free_pages st' = rev (range_pages a n)"
    "phy_page_count st' = phy_page_count st + of_nat n"
    using pmm_add_range_result [of st a "0x100000 + length_low e"] by (auto simp: a l n_def)
  then show "\<exists>st'. init_pmm ks es st = Inr st' \<and> pmm_ok st' \<and>
      free_pages st' = rev (range_pages a n) \<and>
      phy_page_count st' = phy_page_count st + of_nat n"
    using es(3) init_pmm_skip [OF es(2), of ks st] init_pmm_skip [OF vs, of ks st']
    by (simp add: es(1) init_pmm_append init_pmm_entry_def usable_def a_def)
qed

section \<open>Properties\<close>

text \<open>C8: Running any sequence of page allocations and releases of held pages from a pool
  without duplicates, no page is ever handed out while it is still held or still free, and no
  page is lost: the free pages and the held pages are always, without repetition, the pages of
  the original pool.\<close>

theorem pmm_no_double_allocation:
  assumes "pmm_step\<^sup>*\<^sup>* (s, []) (s', held)" and "pmm_ok s" and "distinct (free_pages s)"
  shows "distinct (free_pages s' @ held) \<and> set (free_pages s') \<union> set held = set (free_pages s)"
proof -
  have "mset (free_pages s' @ held) = mset (free_pages s)"
    using pmm_steps_conserve [OF assms(1,2)] by simp
  then show ?thesis
    using assms(3) by (metis mset_eq_imp_distinct_iff mset_eq_setD set_append)
qed

definition pool3 :: pmm_state where
  "pool3 = \<lparr>pmm_stack = (\<lambda>i. if i = 1 then 0x1000 else if i = 2 then 0x2000 else 0x3000),
            pmm_stack_top = 3, phy_page_count = 3\<rparr>"

lemma free_pages_pool3: "free_pages pool3 = [0x3000, 0x2000, 0x1000]"
  by (simp add: free_pages_def pool3_def upt_rec)

theorem pmm_no_double_allocation_witness:
  "distinct (free_pages (pool3\<lparr>pmm_stack_top := 2\<rparr>) @ [0x3000]) \<and>
   set (free_pages (pool3\<lparr>pmm_stack_top := 2\<rparr>)) \<union> set [0x3000] = set (free_pages pool3)"
proof -
  have "pmm_alloc_page pool3 = Inr (0x3000, pool3\<lparr>pmm_stack_top := 2\<rparr>)"
    by (simp add: pmm_alloc_page_def pool3_def)
  then have "pmm_step\<^sup>*\<^sup>* (pool3, []) (pool3\<lparr>pmm_stack_top := 2\<rparr>, [0x3000])"
    by (intro r_into_rtranclp pmm_step.take)
  moreover have "pmm_ok pool3" by (simp add: pmm_ok_def pool3_def)
  moreover have "distinct (free_pages pool3)" by (simp add: free_pages_pool3)
  ultimately show ?thesis by (rule pmm_no_double_allocation)
qed

text \<open>C12: \<open>pmm_alloc_page\<close> and \<open>pmm_free_page\<close> refine a stack: allocation panics exactly when
  the pool is empty and otherwise returns the page released last; a release panics exactly when
  131072 pages are stored, otherwise the page goes on top and the next allocation returns it.\<close>

theorem pmm_refines_stack:
  assumes "pmm_ok st"
  shows "(case free_pages st of
      [] \<Rightarrow> pmm_alloc_page st = Inl (Panic ''out of memory'')
    | p # ps \<Rightarrow> \<exists>st'. pmm_alloc_page st = Inr (p, st') \<and> free_pages st' = ps \<and> pmm_ok st') \<and>
    (if length (free_pages st) = 131072
      then pmm_free_page page st = Inl (Panic ''out of pmm_stack stack'')
      else \<exists>st' st''. pmm_free_page page st = Inr st' \<and> free_pages st' = page # free_pages st \<and>
             pmm_ok st' \<and> pmm_alloc_page st' = Inr (page, st'') \<and>
             free_pages st'' = free_pages st)" (is "?alloc \<and> ?free")
proof
  show ?alloc
    using pmm.alloc_empty pmm.alloc_cons [OF assms] by (auto split: list.split)
  show ?free
  proof (cases "length (free_pages st) = 131072")
    case True
    with pmm_free_full [OF assms] show ?thesis by simp
  next
    case False
    then have "length (free_pages st) < 131072" using pmm.within [OF assms] by simp
    then obtain st' where st': "pmm_free_page page st = Inr st'"
      "free_pages st' = page # free_pages st" "pmm_ok st'"
      using pmm.release_room [OF assms] by blast
    with pmm.release_alloc [OF assms st'(1)] False show ?thesis by auto
  qed
qed

theorem pmm_refines_stack_witness:
  "(case free_pages pool3 of
      [] \<Rightarrow> pmm_alloc_page pool3 = Inl (Panic ''out of memory'')
    | p # ps \<Rightarrow> \<exists>st'. pmm_alloc_page pool3 = Inr (p, st') \<and> free_pages st' = ps \<and> pmm_ok st') \<and>
    (if length (free_pages pool3) = 131072
      then pmm_free_page 0x7000 pool3 = Inl (Panic ''out of pmm_stack stack'')
      else \<exists>st' st''. pmm_free_page 0x7000 pool3 = Inr st' \<and>
             free_pages st' = 0x7000 # free_pages pool3 \<and>
             pmm_ok st' \<and> pmm_alloc_page st' = Inr (0x7000, st'') \<and>
             free_pages st'' = free_pages pool3)"
  by (rule pmm_refines_stack) (simp add: pmm_ok_def pool3_def)

text \<open>C26: On a memory map with one usable region at 1 MB, \<open>init_pmm\<close> returns without a panic,
  and the free pages are exactly, each once, the addresses at multiples of 4096 above the end
  of the kernel image that are below the end of the region and at most \<open>PMM_MAX_SIZE\<close>;
  \<open>phy_page_count\<close> has grown by their number.\<close>

theorem init_pmm_pool:
  assumes "pmm_stack_top st = 0" and "filter usable es = [e]"
    and "unat ks < 0xFFF00000" and "unat (length_low e) < 0xFFF00000"
  shows "\<exists>st'. init_pmm ks es st = Inr st' \<and> distinct (free_pages st') \<and>
    set (free_pages st') = {p. \<exists>k. unat p = 0x100000 + unat ks + 4096 * k \<and>
      unat p < 0x100000 + unat (length_low e) \<and> p \<le> PMM_MAX_SIZE} \<and>
    phy_page_count st' = phy_page_count st + of_nat (length (free_pages st'))"
proof -
  define a where "a = 0x100000 + ks"
  define n where "n = range_count (0x100000 + unat ks) (0x100000 + unat (length_low e))"
  obtain st' where st': "init_pmm ks es st = Inr st'" "free_pages st' = rev (range_pages a n)"
    "phy_page_count st' = phy_page_count st + of_nat n" and a: "unat a = 0x100000 + unat ks"
    using init_pmm_one_region [OF assms] unfolding a_def n_def by blast
  have "unat a < 4294967296" by simp
  moreover have "n = 0 \<or> unat a + 4096 * (n - 1) \<le> 536870912"
    using range_count_iff [of "n - 1" "0x100000 + unat ks" "0x100000 + unat (length_low e)"]
    by (fold n_def) (auto simp: a)
  ultimately have b: "unat a + 4096 * n \<le> 4294967296 + 4095" by arith
  have "length (range_pages a n) = n" by (simp add: range_pages_def)
  moreover have "set (range_pages a n) = {p. \<exists>k. unat p = 0x100000 + unat ks + 4096 * k \<and>
      unat p < 0x100000 + unat (length_low e) \<and> p \<le> PMM_MAX_SIZE}"
    unfolding set_range_pages [OF b] by (auto simp: n_def range_count_iff a word_le_nat_alt)
  ultimately show ?thesis
    using st' distinct_range_pages [OF b] by auto
qed

definition map_128M :: "mmap_entry list" where
  "map_128M =
     [\<lparr>mm_size = 20, base_addr_low = 0, base_addr_high = 0, length_low = 0x9FC00,
       length_high = 0, mm_type = 1\<rparr>,
      \<lparr>mm_size = 20, base_addr_low = 0x100000, base_addr_high = 0, length_low = 0x7EE0000,
       length_high = 0, mm_type = 1\<rparr>]"

definition pmm_zero :: pmm_state where
  "pmm_zero = \<lparr>pmm_stack = (\<lambda>_. 0), pmm_stack_top = 0, phy_page_count = 0\<rparr>"

theorem init_pmm_pool_witness:
  "\<exists>st'. init_pmm 0x20000 map_128M pmm_zero = Inr st' \<and> distinct (free_pages st') \<and>
    set (free_pages st') = {p. \<exists>k. unat p = 0x100000 + unat (0x20000 :: u32) + 4096 * k \<and>
      unat p < 0x100000 + unat (length_low (map_128M ! 1)) \<and> p \<le> PMM_MAX_SIZE} \<and>
    phy_page_count st' = phy_page_count pmm_zero + of_nat (length (free_pages st'))"
  by (rule init_pmm_pool) (simp_all add: pmm_zero_def map_128M_def usable_def)

text \<open>C37: The bound \<open>page_addr \<le> PMM_MAX_SIZE\<close> of \<open>init_pmm\<close> admits one page too many: with a
  usable region that reaches past 512 MB, the page at 512 MB itself, the first one outside the
  memory the allocator says it supports, is on the stack, and it is the page the first
  allocation hands out.\<close>

theorem init_pmm_page_past_limit:
  assumes "pmm_stack_top st = 0" and "filter usable es = [e]"
    and "unat ks \<le> 0x1FF00000" and "4096 dvd unat ks"
    and "0x1FF00000 < unat (length_low e)" and "unat (length_low e) < 0xFFF00000"
  shows "\<exists>st' st''. init_pmm ks es st = Inr st' \<and> pmm_alloc_page st' = Inr (PMM_MAX_SIZE, st'')"
proof -
  define a where "a = 0x100000 + ks"
  define n where "n = range_count (0x100000 + unat ks) (0x100000 + unat (length_low e))"
  have ks: "unat ks < 0xFFF00000" using assms(3) by simp
  obtain st' where st': "init_pmm ks es st = Inr st'" "free_pages st' = rev (range_pages a n)"
    "pmm_ok st'" and a: "unat a = 0x100000 + unat ks"
    using init_pmm_one_region [OF assms(1,2) ks assms(6)] unfolding a_def n_def by blast
  obtain q where q: "unat ks = 4096 * q" using assms(4) by (auto elim: dvdE)
  define k where "k = 130816 - q"
  have k: "0x100000 + unat ks + 4096 * k = 0x20000000" using q assms(3) by (simp add: k_def)
  have "k < n" "\<not> Suc k < n"
    unfolding n_def range_count_iff using k assms(5) by auto
  then have n: "n = Suc k" by simp
  have "unat (a + of_nat (4096 * k)) = 0x20000000"
    using k by (subst unat_plus_of_nat_small) (simp_all add: a)
  then have "a + of_nat (4096 * k) = PMM_MAX_SIZE" by (simp add: u32_eq_unat)
  then have "free_pages st' = PMM_MAX_SIZE # rev (range_pages a k)"
    using st'(2) by (simp add: n range_pages_def)
  with pmm.alloc_cons [OF st'(3)] st'(1) show ?thesis by blast
qed

theorem init_pmm_page_past_limit_witness:
  "\<exists>st' st''. init_pmm 0x20000
     [\<lparr>mm_size = 20, base_addr_low = 0x100000, base_addr_high = 0, length_low = 0x3FF00000,
       length_high = 0, mm_type = 1\<rparr>] pmm_zero = Inr st' \<and>
     pmm_alloc_page st' = Inr (PMM_MAX_SIZE, st'')"
  by (rule init_pmm_page_past_limit [where e = "\<lparr>mm_size = 20, base_addr_low = 0x100000,
        base_addr_high = 0, length_low = 0x3FF00000, length_high = 0, mm_type = 1\<rparr>"])
    (simp_all add: pmm_zero_def usable_def)

end
