(* ===== verification/Vmm.thy ===== *)
theory Vmm
  imports Pmm
begin

text \<open>
  Virtual memory: \<^verbatim>\<open>mm/vmm.c\<close> and \<^verbatim>\<open>include/vmm.h\<close>. The state adds to the page allocator
  the page directories (by the address of the directory), the page tables (by the physical
  address of the table, as the directory entries hold it), the register \<^verbatim>\<open>cr3\<close>, the bytes the
  kernel sees at its virtual addresses, and the bytes of the frames it does not see.

  A page table is read and written by the code at its physical address plus \<open>PAGE_OFFSET\<close>;
  tables are kept apart from the other bytes here. \<open>walk\<close> is the processor's page walk.
\<close>

section \<open>State and constants\<close>

definition PAGE_OFFSET :: u32 where [simp]: "PAGE_OFFSET = 0xC0000000"
definition PAGE_PRESENT :: u32 where [simp]: "PAGE_PRESENT = 0x1"
definition PAGE_WRITE :: u32 where [simp]: "PAGE_WRITE = 0x2"
definition PAGE_USER :: u32 where [simp]: "PAGE_USER = 0x4"
definition PAGE_SIZE :: u32 where [simp]: "PAGE_SIZE = 4096"
definition PAGE_MASK :: u32 where [simp]: "PAGE_MASK = 0xfffff000"
definition PTE_COUNT :: nat where [simp]: "PTE_COUNT = 128"
definition PTE_SIZE :: nat where [simp]: "PTE_SIZE = 1024"

definition PGD_INDEX :: "u32 \<Rightarrow> u32" where "PGD_INDEX x = drop_bit 22 x AND 0x3ff"
definition PTE_INDEX :: "u32 \<Rightarrow> u32" where "PTE_INDEX x = drop_bit 12 x AND 0x3ff"
definition OFFSET_INDEX :: "u32 \<Rightarrow> u32" where "OFFSET_INDEX x = x AND 0xfff"

record vmm_state = pmm_state +
  pgd_kern :: u32                    \<comment> \<open>address of the array \<^verbatim>\<open>pgd_kern\<close>, set by the linker\<close>
  pte_kern :: u32                    \<comment> \<open>address of the array \<^verbatim>\<open>pte_kern\<close>\<close>
  pgd :: "u32 \<Rightarrow> u32 \<Rightarrow> u32"         \<comment> \<open>directory, index\<close>
  ptab :: "u32 \<Rightarrow> u32 \<Rightarrow> u32"        \<comment> \<open>physical address of the table, index\<close>
  cr3 :: u32
  mem :: bytes                       \<comment> \<open>the bytes at the virtual addresses\<close>
  frame :: "u32 \<Rightarrow> u8"               \<comment> \<open>the bytes of frames out of sight\<close>

definition set_pgd :: "u32 \<Rightarrow> u32 \<Rightarrow> u32 \<Rightarrow> 'a vmm_state_scheme \<Rightarrow> 'a vmm_state_scheme" where
  "set_pgd d i v st = st\<lparr>pgd := (pgd st)(d := (pgd st d)(i := v))\<rparr>"

definition set_pte :: "u32 \<Rightarrow> u32 \<Rightarrow> u32 \<Rightarrow> 'a vmm_state_scheme \<Rightarrow> 'a vmm_state_scheme" where
  "set_pte t i v st = st\<lparr>ptab := (ptab st)(t := (ptab st t)(i := v))\<rparr>"

text \<open>\<^verbatim>\<open>bzero(pte, PAGE_SIZE)\<close> on a page table.\<close>

definition clear_table :: "u32 \<Rightarrow> 'a vmm_state_scheme \<Rightarrow> 'a vmm_state_scheme" where
  "clear_table t st = st\<lparr>ptab := (ptab st)(t := (\<lambda>_. 0))\<rparr>"

section \<open>The processor's view\<close>

text \<open>The page walk: the frame behind a virtual address, if both entries are present.\<close>

definition walk :: "'a vmm_state_scheme \<Rightarrow> u32 \<Rightarrow> u32 \<Rightarrow> u32 option" where
  "walk st d va =
     (let pde = pgd st d (PGD_INDEX va);
          pte = ptab st (pde AND PAGE_MASK) (PTE_INDEX va)
      in if pde AND PAGE_PRESENT = 0 \<or> pte AND PAGE_PRESENT = 0 then None
         else Some (pte AND PAGE_MASK))"

definition translate :: "'a vmm_state_scheme \<Rightarrow> u32 \<Rightarrow> u32 option" where
  "translate st va =
     map_option (\<lambda>f. f OR OFFSET_INDEX va) (walk st (cr3 st + PAGE_OFFSET) va)"

text \<open>
  The effect of a changed translation of one page on the bytes the kernel sees there: the
  bytes of the old frame stay in that frame, the bytes of the new frame appear.
\<close>

definition save_frame :: "u32 \<Rightarrow> u32 option \<Rightarrow> 'a vmm_state_scheme \<Rightarrow> 'a vmm_state_scheme" where
  "save_frame va fo st = (case fo of None \<Rightarrow> st
     | Some f \<Rightarrow> st\<lparr>frame := (\<lambda>p. if p AND PAGE_MASK = f
                     then mem st ((va AND PAGE_MASK) OR OFFSET_INDEX p) else frame st p)\<rparr>)"

definition load_frame :: "u32 \<Rightarrow> u32 option \<Rightarrow> 'a vmm_state_scheme \<Rightarrow> 'a vmm_state_scheme" where
  "load_frame va fo st = (case fo of None \<Rightarrow> st
     | Some f \<Rightarrow> st\<lparr>mem := (\<lambda>a. if a AND PAGE_MASK = va AND PAGE_MASK
                     then frame st (f OR OFFSET_INDEX a) else mem st a)\<rparr>)"

definition invlpg :: "u32 \<Rightarrow> 'a vmm_state_scheme \<Rightarrow> 'a vmm_state_scheme \<Rightarrow> 'a vmm_state_scheme" where
  "invlpg va old new =
     (let f = walk old (cr3 old + PAGE_OFFSET) va; g = walk new (cr3 new + PAGE_OFFSET) va
      in if f = g then new else load_frame va g (save_frame va f new))"

section \<open>Operations\<close>

definition switch_pgd :: "u32 \<Rightarrow> 'a vmm_state_scheme \<Rightarrow> 'a vmm_state_scheme" where
  "switch_pgd pd st = st\<lparr>cr3 := pd\<rparr>"

definition vmm_map ::
  "u32 \<Rightarrow> u32 \<Rightarrow> u32 \<Rightarrow> u32 \<Rightarrow> 'a vmm_state_scheme \<Rightarrow> 'a vmm_state_scheme res" where
  "vmm_map pgd_now va pa flags st =
     (let pgd_idx = PGD_INDEX va;
          pte_idx = PTE_INDEX va;
          pte = pgd st pgd_now pgd_idx AND PAGE_MASK
      in bindE
           (if pte = 0
            then bindE (pmm_alloc_page st) (\<lambda>(pte, st1).
                   Inr (pte, clear_table pte
                     (set_pgd pgd_now pgd_idx (pte OR PAGE_PRESENT OR PAGE_WRITE) st1)))
            else Inr (pte, st))
           (\<lambda>(pte, st2). Inr (invlpg va st (set_pte pte pte_idx ((pa AND PAGE_MASK) OR flags) st2))))"

definition vmm_unmap :: "u32 \<Rightarrow> u32 \<Rightarrow> 'a vmm_state_scheme \<Rightarrow> 'a vmm_state_scheme" where
  "vmm_unmap pgd_now va st =
     (let pgd_idx = PGD_INDEX va;
          pte_idx = PTE_INDEX va;
          pte = pgd st pgd_now pgd_idx AND PAGE_MASK
      in if pte = 0 then st else invlpg va st (set_pte pte pte_idx 0 st))"

text \<open>
  The value returned and the value stored through the pointer \<open>pa\<close>. Without a page table the
  code leaves by a plain \<^verbatim>\<open>return;\<close>: the value returned is indeterminate, here \<open>None\<close>.
\<close>

definition get_mapping ::
  "u32 \<Rightarrow> u32 \<Rightarrow> bool \<Rightarrow> 'a vmm_state_scheme \<Rightarrow> u32 option \<times> u32 option" where
  "get_mapping pgd_now va pa_given st =
     (let pgd_idx = PGD_INDEX va;
          pte_idx = PTE_INDEX va;
          pte = pgd st pgd_now pgd_idx AND PAGE_MASK
      in if pte = 0 then (None, None)
         else if ptab st pte pte_idx \<noteq> 0 \<and> pa_given
         then (Some 1, Some (ptab st pte pte_idx AND PAGE_MASK))
         else (Some 0, None))"

text \<open>The two loops of \<^verbatim>\<open>init_vmm\<close> and the switch to the new directory.\<close>

definition init_pgd_loop :: "nat list \<Rightarrow> 'a vmm_state_scheme \<Rightarrow> 'a vmm_state_scheme" where
  "init_pgd_loop js st = fold (\<lambda>j st. set_pgd (pgd_kern st) (PGD_INDEX PAGE_OFFSET + of_nat j)
     ((pte_kern st + of_nat (4096 * j) - PAGE_OFFSET) OR PAGE_PRESENT OR PAGE_WRITE) st) js st"

definition init_pte_loop :: "nat list \<Rightarrow> 'a vmm_state_scheme \<Rightarrow> 'a vmm_state_scheme" where
  "init_pte_loop is st = fold (\<lambda>i st.
     set_pte (pte_kern st + of_nat (4096 * (i div PTE_SIZE)) - PAGE_OFFSET) (of_nat (i mod PTE_SIZE))
       (push_bit 12 (of_nat i) OR PAGE_PRESENT OR PAGE_WRITE) st) is st"

definition init_vmm_tables :: "'a vmm_state_scheme \<Rightarrow> 'a vmm_state_scheme" where
  "init_vmm_tables st =
     (let st = init_pgd_loop [0..<PTE_COUNT] st;
          st = init_pte_loop [1..<PTE_COUNT * PTE_SIZE] st
      in switch_pgd (pgd_kern st - PAGE_OFFSET) st)"

section \<open>Indices and pages\<close>

lemma unat_PGD_INDEX: "unat (PGD_INDEX x) = vpn x div 1024"
proof -
  have "unat x div 4194304 < 1024" by (simp add: div_less_iff_less_mult)
  then show ?thesis
    by (simp add: PGD_INDEX_def vpn_def unat_3ff unat_drop_22 div_mult2_eq [symmetric])
qed

lemma unat_PTE_INDEX: "unat (PTE_INDEX x) = vpn x mod 1024"
  by (simp add: PTE_INDEX_def vpn_def unat_3ff unat_drop_12)

lemma PGD_INDEX_less [simp]: "PGD_INDEX x < 1024"
  using vpn_less [of x] by (simp add: word_less_nat_alt unat_PGD_INDEX vpn_def div_less_iff_less_mult)

lemma PTE_INDEX_less [simp]: "PTE_INDEX x < 1024"
  by (simp add: word_less_nat_alt unat_PTE_INDEX)

lemma same_page_iff:
  "PGD_INDEX x = PGD_INDEX y \<and> PTE_INDEX x = PTE_INDEX y \<longleftrightarrow> vpn x = vpn y"
proof -
  have "vpn x = vpn y" if "vpn x div 1024 = vpn y div 1024" "vpn x mod 1024 = vpn y mod 1024"
    using that by (metis div_mult_mod_eq)
  then show ?thesis by (auto simp: u32_eq_unat unat_PGD_INDEX unat_PTE_INDEX)
qed

lemma page_mask_eq_iff: "x AND PAGE_MASK = y AND PAGE_MASK \<longleftrightarrow> vpn x = vpn y"
  by (simp add: page_split vpn_def)

lemma page_mask_idem [simp]: "(x AND 0xfffff000) AND 0xfffff000 = (x :: u32) AND 0xfffff000"
  by (simp add: and.assoc)

section \<open>What the state updates leave alone\<close>

lemmas vmm_update_defs = set_pgd_def set_pte_def clear_table_def save_frame_def load_frame_def
  invlpg_def switch_pgd_def

lemma free_pages_cong_vmm [simp]:
  "free_pages (set_pgd d i v st) = free_pages st" "free_pages (set_pte t i v st) = free_pages st"
  "free_pages (clear_table t st) = free_pages st" "free_pages (invlpg va st st') = free_pages st'"
  by (auto intro!: free_pages_cong simp: vmm_update_defs Let_def split: option.splits)

lemma pmm_ok_vmm [simp]:
  "pmm_ok (set_pgd d i v st) = pmm_ok st" "pmm_ok (set_pte t i v st) = pmm_ok st"
  "pmm_ok (clear_table t st) = pmm_ok st" "pmm_ok (invlpg va st st') = pmm_ok st'"
  by (auto simp: pmm_ok_def vmm_update_defs Let_def split: option.splits)

lemma pgd_updates [simp]:
  "pgd (set_pgd d i v st) = (pgd st)(d := (pgd st d)(i := v))" "pgd (set_pte t i v st) = pgd st"
  "pgd (clear_table t st) = pgd st" "pgd (invlpg va st st') = pgd st'"
  by (auto simp: vmm_update_defs Let_def split: option.splits)

lemma ptab_updates [simp]:
  "ptab (set_pgd d i v st) = ptab st" "ptab (set_pte t i v st) = (ptab st)(t := (ptab st t)(i := v))"
  "ptab (clear_table t st) = (ptab st)(t := (\<lambda>_. 0))" "ptab (invlpg va st st') = ptab st'"
  by (auto simp: vmm_update_defs Let_def split: option.splits)

lemma cr3_updates [simp]:
  "cr3 (set_pgd d i v st) = cr3 st" "cr3 (set_pte t i v st) = cr3 st"
  "cr3 (clear_table t st) = cr3 st" "cr3 (invlpg va st st') = cr3 st'"
  by (auto simp: vmm_update_defs Let_def split: option.splits)

lemma pgd_kern_updates [simp]:
  "pgd_kern (set_pgd d i v st) = pgd_kern st" "pgd_kern (set_pte t i v st) = pgd_kern st"
  "pgd_kern (clear_table t st) = pgd_kern st" "pgd_kern (invlpg va st st') = pgd_kern st'"
  by (auto simp: vmm_update_defs Let_def split: option.splits)

lemma mem_updates [simp]:
  "mem (set_pgd d i v st) = mem st" "mem (set_pte t i v st) = mem st"
  "mem (clear_table t st) = mem st"
  by (simp_all add: vmm_update_defs)

lemma mem_invlpg: "vpn a \<noteq> vpn va \<Longrightarrow> mem (invlpg va st st') a = mem st' a"
  by (auto simp: vmm_update_defs Let_def page_split vpn_def split: option.splits)

lemma walk_cong: "pgd s = pgd t \<Longrightarrow> ptab s = ptab t \<Longrightarrow> walk s d x = walk t d x"
  by (simp add: walk_def)

lemma walk_invlpg [simp]: "walk (invlpg va st st') d x = walk st' d x"
  by (rule walk_cong) simp_all

section \<open>Well-formed directories\<close>

text \<open>The page table a directory entry points to; 0 for none.\<close>

abbreviation table :: "'a vmm_state_scheme \<Rightarrow> u32 \<Rightarrow> u32 \<Rightarrow> u32" where
  "table st d i \<equiv> pgd st d i AND 0xfffff000"

text \<open>
  A directory is well formed when an entry is present exactly when it has a table, no two
  entries share a table, page table entries are present or zero, and the free pages are page
  aligned, not page 0, without duplicates and not in use as tables.
\<close>

definition vm_ok :: "u32 \<Rightarrow> 'a vmm_state_scheme \<Rightarrow> bool" where
  "vm_ok d st \<longleftrightarrow> pmm_ok st \<and>
     (\<forall>i < 1024. table st d i = 0 \<longleftrightarrow> pgd st d i AND 1 = 0) \<and>
     (\<forall>i < 1024. \<forall>j < 1024. table st d i = table st d j \<longrightarrow> table st d i \<noteq> 0 \<longrightarrow> i = j) \<and>
     (\<forall>i < 1024. \<forall>j < 1024. table st d i \<noteq> 0 \<longrightarrow>
        ptab st (table st d i) j = 0 \<or> ptab st (table st d i) j AND 1 \<noteq> 0) \<and>
     (\<forall>p \<in> set (free_pages st). p \<noteq> 0 \<and> p AND 0xfffff000 = p \<and>
        (\<forall>i < 1024. table st d i \<noteq> p)) \<and>
     distinct (free_pages st)"

lemma vm_okD:
  assumes "vm_ok d st"
  shows "pmm_ok st" and "i < 1024 \<Longrightarrow> table st d i = 0 \<longleftrightarrow> pgd st d i AND 1 = 0"
    and "i < 1024 \<Longrightarrow> j < 1024 \<Longrightarrow> table st d i = table st d j \<Longrightarrow> table st d i \<noteq> 0 \<Longrightarrow> i = j"
    and "i < 1024 \<Longrightarrow> j < 1024 \<Longrightarrow> table st d i \<noteq> 0 \<Longrightarrow>
      ptab st (table st d i) j = 0 \<or> ptab st (table st d i) j AND 1 \<noteq> 0"
    and "p \<in> set (free_pages st) \<Longrightarrow> p \<noteq> 0 \<and> p AND 0xfffff000 = p"
    and "p \<in> set (free_pages st) \<Longrightarrow> i < 1024 \<Longrightarrow> table st d i \<noteq> p"
    and "distinct (free_pages st)"
  using assms by (auto simp: vm_ok_def)

lemma vm_okI:
  assumes "pmm_ok st" and "\<And>i. i < 1024 \<Longrightarrow> table st d i = 0 \<longleftrightarrow> pgd st d i AND 1 = 0"
    and "\<And>i j. i < 1024 \<Longrightarrow> j < 1024 \<Longrightarrow> table st d i = table st d j \<Longrightarrow> table st d i \<noteq> 0 \<Longrightarrow> i = j"
    and "\<And>i j. i < 1024 \<Longrightarrow> j < 1024 \<Longrightarrow> table st d i \<noteq> 0 \<Longrightarrow>
      ptab st (table st d i) j = 0 \<or> ptab st (table st d i) j AND 1 \<noteq> 0"
    and "\<And>p. p \<in> set (free_pages st) \<Longrightarrow> p \<noteq> 0 \<and> p AND 0xfffff000 = p"
    and "\<And>p i. p \<in> set (free_pages st) \<Longrightarrow> i < 1024 \<Longrightarrow> table st d i \<noteq> p"
    and "distinct (free_pages st)"
  shows "vm_ok d st"
  unfolding vm_ok_def using assms by simp

lemma walk_eq:
  assumes "vm_ok d st"
  shows "walk st d x =
    (if table st d (PGD_INDEX x) = 0 \<or> ptab st (table st d (PGD_INDEX x)) (PTE_INDEX x) = 0 then None
     else Some (ptab st (table st d (PGD_INDEX x)) (PTE_INDEX x) AND 0xfffff000))"
  using vm_okD(2) [OF assms, of "PGD_INDEX x"] vm_okD(4) [OF assms, of "PGD_INDEX x" "PTE_INDEX x"]
  by (auto simp: walk_def Let_def)

lemma vm_ok_cong:
  "pgd s d = pgd t d \<Longrightarrow> ptab s = ptab t \<Longrightarrow> free_pages s = free_pages t \<Longrightarrow> pmm_ok s = pmm_ok t \<Longrightarrow>
   vm_ok d s = vm_ok d t"
  by (simp add: vm_ok_def)

lemma vm_ok_invlpg [simp]: "vm_ok d (invlpg va st st') = vm_ok d st'"
  by (rule vm_ok_cong) simp_all

lemma entry_bits:
  fixes p :: u32
  assumes "p AND 0xfffff000 = p"
  shows "(p OR 1 OR 2) AND 0xfffff000 = p" and "(p OR 1 OR 2) AND 1 \<noteq> 0"
    and "(p OR 3) AND 0xfffff000 = p" and "(p OR 3) AND 1 \<noteq> 0"
proof -
  have "p AND 1 = p AND (0xfffff000 AND 1)"
    by (subst assms [symmetric]) (simp only: and.assoc)
  then have "p AND 1 = 0" by simp
  then show "(p OR 1 OR 2) AND 1 \<noteq> 0" and "(p OR 3) AND 1 \<noteq> 0"
    by (simp_all add: bit.conj_disj_distrib2)
  show "(p OR 1 OR 2) AND 0xfffff000 = p" and "(p OR 3) AND 0xfffff000 = p"
    using assms by (simp_all add: bit.conj_disj_distrib2)
qed

lemma table_set_pte [simp]: "table (set_pte t j v st) d i = table st d i"
  by simp

lemma vm_ok_set_pte:
  assumes ok: "vm_ok d st" and i: "i < 1024" "table st d i = t" "t \<noteq> 0"
    and v: "v = 0 \<or> v AND 1 \<noteq> 0"
  shows "vm_ok d (set_pte t j v st)"
proof (rule vm_okI)
  fix k l :: u32
  assume "k < 1024" "l < 1024" "table (set_pte t j v st) d k \<noteq> 0"
  with vm_okD(4) [OF ok, of k l] v
  show "ptab (set_pte t j v st) (table (set_pte t j v st) d k) l = 0 \<or>
      ptab (set_pte t j v st) (table (set_pte t j v st) d k) l AND 1 \<noteq> 0"
    by auto
qed (use vm_okD [OF ok] in \<open>simp_all\<close>)

lemma vm_ok_new_table:
  assumes ok: "vm_ok d st" and i: "i < 1024" "table st d i = 0"
    and p: "free_pages st = p # ps" and alloc: "pmm_alloc_page st = Inr (p, st1)"
  defines "st2 \<equiv> clear_table p (set_pgd d i (p OR 1 OR 2) st1)"
  shows "vm_ok d st2" and "table st2 d i = p" and "free_pages st2 = ps"
    and "pgd st1 = pgd st \<and> ptab st1 = ptab st"
proof -
  have st1: "free_pages st1 = ps" "pmm_ok st1"
    using pmm.alloc_Inr [OF vm_okD(1) [OF ok] alloc] p by simp_all
  show same: "pgd st1 = pgd st \<and> ptab st1 = ptab st"
    using alloc by (auto simp: pmm_alloc_page_def split: if_splits)
  have pp: "p \<noteq> 0" "p AND 0xfffff000 = p" "\<And>j. j < 1024 \<Longrightarrow> table st d j \<noteq> p"
    using vm_okD(5,6) [OF ok, of p] p by simp_all
  show "table st2 d i = p" using entry_bits(1) [OF pp(2)] by (simp add: st2_def)
  show "free_pages st2 = ps" using st1 by (simp add: st2_def)
  have tbl: "table st2 d j = (if j = i then p else table st d j)" for j
    using entry_bits(1) [OF pp(2)] same by (simp add: st2_def)
  show "vm_ok d st2"
  proof (rule vm_okI)
    show "table st2 d j = 0 \<longleftrightarrow> pgd st2 d j AND 1 = 0" if "j < 1024" for j
      using vm_okD(2) [OF ok that] entry_bits(2) [OF pp(2)] tbl [of j] pp(1) same
      by (cases "j = i") (simp_all add: st2_def)
    show "j = k" if "j < 1024" "k < 1024" "table st2 d j = table st2 d k" "table st2 d j \<noteq> 0" for j k
      using vm_okD(3) [OF ok that(1,2)] pp(3) that by (auto simp: tbl split: if_splits)
    show "ptab st2 (table st2 d j) k = 0 \<or> ptab st2 (table st2 d j) k AND 1 \<noteq> 0"
      if "j < 1024" "k < 1024" "table st2 d j \<noteq> 0" for j k
    proof (cases "j = i")
      case True
      then show ?thesis by (simp only: tbl) (simp add: st2_def)
    next
      case False
      with that pp(3) [OF that(1)] have "ptab st2 (table st2 d j) k = ptab st (table st d j) k"
        by (simp only: tbl) (simp add: st2_def same)
      with False that vm_okD(4) [OF ok that(1,2)] show ?thesis by (simp only: tbl) simp
    qed
    show "table st2 d j \<noteq> q" if "q \<in> set (free_pages st2)" "j < 1024" for q j
      using vm_okD(6,7) [OF ok] that p \<open>free_pages st2 = ps\<close> by (auto simp: tbl)
    show "pmm_ok st2" using st1 by (simp add: st2_def)
  qed (use vm_okD(5,7) [OF ok] p \<open>free_pages st2 = ps\<close> in auto)
qed

section \<open>The behaviour of the operations\<close>

text \<open>What mapping or unmapping the page of \<open>va\<close> in directory \<open>d\<close> leaves alone.\<close>

definition vmm_frame ::
  "u32 \<Rightarrow> u32 \<Rightarrow> 'a vmm_state_scheme \<Rightarrow> 'a vmm_state_scheme \<Rightarrow> bool" where
  "vmm_frame d va st st' \<longleftrightarrow> cr3 st' = cr3 st \<and> pgd_kern st' = pgd_kern st \<and>
     pte_kern st' = pte_kern st \<and> phy_page_count st' = phy_page_count st \<and>
     vmm_state.more st' = vmm_state.more st \<and>
     (\<forall>e. e \<noteq> d \<longrightarrow> pgd st' e = pgd st e) \<and> (\<forall>a. vpn a \<noteq> vpn va \<longrightarrow> mem st' a = mem st a)"

lemma vmm_frame_refl [simp]: "vmm_frame d va st st"
  by (simp add: vmm_frame_def)

lemma more_updates [simp]:
  "vmm_state.more (set_pgd d i v st) = vmm_state.more st"
  "vmm_state.more (set_pte t i v st) = vmm_state.more st"
  "vmm_state.more (clear_table t st) = vmm_state.more st"
  "vmm_state.more (invlpg va st0 st) = vmm_state.more st"
  "phy_page_count (set_pgd d i v st) = phy_page_count st"
  "phy_page_count (set_pte t i v st) = phy_page_count st"
  "phy_page_count (clear_table t st) = phy_page_count st"
  "phy_page_count (invlpg va st0 st) = phy_page_count st"
  "pte_kern (set_pgd d i v st) = pte_kern st" "pte_kern (set_pte t i v st) = pte_kern st"
  "pte_kern (clear_table t st) = pte_kern st" "pte_kern (invlpg va st0 st) = pte_kern st"
  by (auto simp: vmm_update_defs Let_def split: option.splits)

lemma pmm_alloc_frame:
  assumes "pmm_alloc_page st = Inr (p, st1)"
  shows "vmm_frame d va st st1" and "mem st1 = mem st" and "pgd st1 = pgd st"
    and "ptab st1 = ptab st"
  using assms by (auto simp: pmm_alloc_page_def vmm_frame_def split: if_splits)

text \<open>The walk after one page table entry of a well-formed directory is set.\<close>

lemma walk_set_pte:
  assumes ok: "vm_ok d st" and t: "table st d (PGD_INDEX va) = t" "t \<noteq> 0"
    and v: "v = 0 \<or> v AND 1 \<noteq> 0"
  shows "walk (set_pte t (PTE_INDEX va) v st) d x =
    (if vpn x = vpn va then if v = 0 then None else Some (v AND 0xfffff000) else walk st d x)"
proof -
  have ok': "vm_ok d (set_pte t (PTE_INDEX va) v st)"
    using vm_ok_set_pte [OF ok _ t v] by simp
  have "table st d (PGD_INDEX x) = t \<Longrightarrow> PGD_INDEX x = PGD_INDEX va"
    using vm_okD(3) [OF ok, of "PGD_INDEX x" "PGD_INDEX va"] t by simp
  then have "table st d (PGD_INDEX x) = t \<and> PTE_INDEX x = PTE_INDEX va \<longleftrightarrow> vpn x = vpn va"
    using same_page_iff [of x va] t(1) by metis
  then show ?thesis
    unfolding walk_eq [OF ok'] walk_eq [OF ok] using t by auto
qed

lemma walk_new_table:
  assumes ok: "vm_ok d st" and i: "i < 1024" "table st d i = 0"
    and p: "free_pages st = p # ps" and alloc: "pmm_alloc_page st = Inr (p, st1)"
  shows "walk (clear_table p (set_pgd d i (p OR 1 OR 2) st1)) d x = walk st d x"
proof -
  let ?st2 = "clear_table p (set_pgd d i (p OR 1 OR 2) st1)"
  note new = vm_ok_new_table [OF ok i p alloc]
  have pp: "p AND 0xfffff000 = p" "\<And>j. j < 1024 \<Longrightarrow> table st d j \<noteq> p"
    using vm_okD(5,6) [OF ok, of p] p by simp_all
  have tbl: "table ?st2 d (PGD_INDEX x) = (if PGD_INDEX x = i then p else table st d (PGD_INDEX x))"
    using entry_bits(1) [OF pp(1)] new(4) by simp
  show ?thesis
    unfolding walk_eq [OF new(1)] walk_eq [OF ok] tbl using new(4) i(2) pp(2) by auto
qed

lemma vmm_map_none:
  assumes "table st d (PGD_INDEX va) = 0" and "free_pages st = []"
  shows "vmm_map d va pa flags st = Inl (Panic ''out of memory'')"
  using assms pmm_alloc_Nil [OF assms(2)] by (simp add: vmm_map_def Let_def)

lemma vmm_map_result:
  assumes ok: "vm_ok d st" and flags: "flags AND 1 \<noteq> 0" "flags AND 0xfffff000 = 0"
    and room: "table st d (PGD_INDEX va) \<noteq> 0 \<or> free_pages st \<noteq> []"
  shows "\<exists>st'. vmm_map d va pa flags st = Inr st' \<and> vm_ok d st' \<and> vmm_frame d va st st' \<and>
    (\<forall>x. walk st' d x = (if vpn x = vpn va then Some (pa AND 0xfffff000) else walk st d x)) \<and>
    free_pages st' =
      (if table st d (PGD_INDEX va) = 0 then tl (free_pages st) else free_pages st) \<and>
    (\<forall>i < 1024. table st' d i =
      (if i = PGD_INDEX va \<and> table st d i = 0 then hd (free_pages st) else table st d i))"
proof -
  let ?v = "(pa AND 0xfffff000) OR flags"
  have "?v AND 1 = ((pa AND (0xfffff000 AND 1)) OR (flags AND 1))"
    by (simp only: bit.conj_disj_distrib2 and.assoc)
  then have v: "?v AND 1 \<noteq> 0" using flags(1) by simp
  then have v0: "?v \<noteq> 0" by (metis and_zero_eq and.commute)
  have vm: "?v AND 0xfffff000 = pa AND 0xfffff000"
    using flags(2) by (simp add: bit.conj_disj_distrib2)
  show ?thesis
  proof (cases "table st d (PGD_INDEX va) = 0")
    case False
    let ?t = "table st d (PGD_INDEX va)"
    let ?st' = "invlpg va st (set_pte ?t (PTE_INDEX va) ?v st)"
    have "vmm_map d va pa flags st = Inr ?st'"
      using False by (simp add: vmm_map_def Let_def)
    moreover have "vm_ok d ?st'"
      using vm_ok_set_pte [OF ok _ refl False] v by simp
    moreover have "vmm_frame d va st ?st'"
      by (simp add: vmm_frame_def mem_invlpg)
    ultimately show ?thesis
      using False walk_set_pte [OF ok refl False, of ?v] v v0 vm by simp
  next
    case True
    with room obtain p ps where p: "free_pages st = p # ps" by (cases "free_pages st") auto
    obtain st1 where alloc: "pmm_alloc_page st = Inr (p, st1)"
      using pmm.alloc_cons [OF vm_okD(1) [OF ok] p] by blast
    define st2 where "st2 = clear_table p (set_pgd d (PGD_INDEX va) (p OR 1 OR 2) st1)"
    note new = vm_ok_new_table [OF ok PGD_INDEX_less True p alloc, folded st2_def]
    have p0: "p \<noteq> 0" "p AND 0xfffff000 = p" using vm_okD(5) [OF ok, of p] p by simp_all
    let ?st' = "invlpg va st (set_pte p (PTE_INDEX va) ?v st2)"
    have "vmm_map d va pa flags st = Inr ?st'"
      using True alloc by (simp add: vmm_map_def Let_def st2_def)
    moreover have "vm_ok d ?st'"
      using vm_ok_set_pte [OF new(1) _ new(2) p0(1)] v by simp
    moreover have "vmm_frame d va st ?st'"
      using pmm_alloc_frame(1) [OF alloc, of d va] pmm_alloc_frame(2) [OF alloc]
      by (simp add: vmm_frame_def mem_invlpg st2_def)
    moreover have "walk ?st' d x =
        (if vpn x = vpn va then Some (pa AND 0xfffff000) else walk st d x)" for x
      using walk_set_pte [OF new(1) new(2) p0(1), of ?v x] v v0 vm
        walk_new_table [OF ok PGD_INDEX_less True p alloc, folded st2_def]
      by simp
    moreover have "table ?st' d i =
        (if i = PGD_INDEX va \<and> table st d i = 0 then p else table st d i)" for i
      using True new(4) entry_bits(1) [OF p0(2)] by (simp add: st2_def)
    ultimately show ?thesis using True new(3) p by simp
  qed
qed

lemma vmm_unmap_result:
  assumes ok: "vm_ok d st"
  shows "vm_ok d (vmm_unmap d va st)" and "vmm_frame d va st (vmm_unmap d va st)"
    and "walk (vmm_unmap d va st) d x = (if vpn x = vpn va then None else walk st d x)"
    and "free_pages (vmm_unmap d va st) = free_pages st"
    and "pgd (vmm_unmap d va st) = pgd st"
proof -
  let ?t = "table st d (PGD_INDEX va)"
  show "vm_ok d (vmm_unmap d va st)"
    using ok vm_ok_set_pte [OF ok PGD_INDEX_less refl, of va 0 "PTE_INDEX va"]
    by (simp add: vmm_unmap_def Let_def)
  show "vmm_frame d va st (vmm_unmap d va st)"
    by (simp add: vmm_unmap_def Let_def vmm_frame_def mem_invlpg)
  show "free_pages (vmm_unmap d va st) = free_pages st" "pgd (vmm_unmap d va st) = pgd st"
    by (simp_all add: vmm_unmap_def Let_def)
  show "walk (vmm_unmap d va st) d x = (if vpn x = vpn va then None else walk st d x)"
  proof (cases "?t = 0")
    case True
    moreover have "walk st d x = None" if "vpn x = vpn va"
      using True same_page_iff [of x va] that walk_eq [OF ok, of x] by simp
    ultimately show ?thesis by (simp add: vmm_unmap_def)
  next
    case False
    then show ?thesis
      using walk_set_pte [OF ok refl False, of 0 x] by (simp add: vmm_unmap_def Let_def)
  qed
qed

lemma get_mapping_eq:
  assumes "vm_ok d st"
  shows "get_mapping d va given st =
    (if table st d (PGD_INDEX va) = 0 then (None, None)
     else case walk st d va of None \<Rightarrow> (Some 0, None)
       | Some f \<Rightarrow> if given then (Some 1, Some f) else (Some 0, None))"
  using walk_eq [OF assms, of va] by (simp add: get_mapping_def Let_def)

section \<open>The interface of an address space\<close>

text \<open>
  What the heap relies on: mapping a page makes exactly that page translate to the frame,
  unmapping it makes exactly that page not translate, and both keep the address space
  well formed.
\<close>

locale address_space =
  fixes install :: "u32 \<Rightarrow> u32 \<Rightarrow> 's \<Rightarrow> 's res"
    and remove :: "u32 \<Rightarrow> 's \<Rightarrow> 's"
    and look :: "'s \<Rightarrow> u32 \<Rightarrow> u32 option"
    and ok :: "'s \<Rightarrow> bool"
  assumes install_ok: "ok s \<Longrightarrow> install va pa s = Inr s' \<Longrightarrow> ok s'"
    and install_look: "ok s \<Longrightarrow> install va pa s = Inr s' \<Longrightarrow>
      look s' x = (if vpn x = vpn va then Some (pa AND 0xfffff000) else look s x)"
    and remove_ok: "ok s \<Longrightarrow> ok (remove va s)"
    and remove_look: "ok s \<Longrightarrow> look (remove va s) x = (if vpn x = vpn va then None else look s x)"
begin

lemma install_remove:
  assumes "ok s" and "install va pa s = Inr s'" and "look s va = None"
    and page: "\<And>x y. vpn x = vpn y \<Longrightarrow> look s x = look s y"
  shows "look (remove va s') x = look s x"
  using remove_look [OF install_ok [OF assms(1,2)]] install_look [OF assms(1,2)] assms(3)
    page [of x va] by auto

lemma install_twice:
  assumes "ok s" and "install va pa s = Inr s1" and "install vb pb s1 = Inr s2"
    and "vpn va \<noteq> vpn vb"
  shows "look s2 va = Some (pa AND 0xfffff000)" and "look s2 vb = Some (pb AND 0xfffff000)"
  using install_look [OF install_ok [OF assms(1,2)] assms(3)] install_look [OF assms(1,2)] assms(4)
  by simp_all

end

lemma vmm_map_room:
  assumes "vmm_map d va pa flags st = Inr st'"
  shows "table st d (PGD_INDEX va) \<noteq> 0 \<or> free_pages st \<noteq> []"
  using vmm_map_none [of st d va pa flags] assms by auto

lemma rw_flags: "(PAGE_PRESENT OR PAGE_WRITE) AND 1 \<noteq> 0" "(PAGE_PRESENT OR PAGE_WRITE) AND 0xfffff000 = 0"
  by simp_all

interpretation vm: address_space "\<lambda>va pa. vmm_map d va pa (PAGE_PRESENT OR PAGE_WRITE)"
  "vmm_unmap d" "\<lambda>s. walk s d" "vm_ok d" for d
proof
  fix s s' :: "'a vmm_state_scheme" and va pa x
  assume ok: "vm_ok d s"
  show "vm_ok d (vmm_unmap d va s)"
    by (rule vmm_unmap_result(1) [OF ok])
  show "walk (vmm_unmap d va s) d x = (if vpn x = vpn va then None else walk s d x)"
    by (rule vmm_unmap_result(3) [OF ok])
  assume m: "vmm_map d va pa (PAGE_PRESENT OR PAGE_WRITE) s = Inr s'"
  note r = vmm_map_result [OF ok rw_flags vmm_map_room [OF m], of pa]
  show "vm_ok d s'" using r m by auto
  show "walk s' d x = (if vpn x = vpn va then Some (pa AND 0xfffff000) else walk s d x)"
    using r m by auto
qed

lemma walk_page: "vpn x = vpn y \<Longrightarrow> walk st d x = walk st d y"
  using same_page_iff [of x y] by (simp add: walk_def)

section \<open>The kernel's own directory\<close>

text \<open>The physical address of the \<open>j\<close>-th table of the array \<open>pte_kern\<close>.\<close>

definition kernel_table :: "'a vmm_state_scheme \<Rightarrow> nat \<Rightarrow> u32" where
  "kernel_table st j = pte_kern st + of_nat (4096 * j) - PAGE_OFFSET"

lemma PGD_INDEX_OFFSET: "PGD_INDEX PAGE_OFFSET = 768"
  by (simp add: PGD_INDEX_def)

lemma unat_kernel_table:
  assumes "0xC0000000 \<le> unat (pte_kern st)" and "unat (pte_kern st) + 524288 \<le> 4294967296" and "j < 128"
  shows "unat (kernel_table st j) = unat (pte_kern st) + 4096 * j - 0xC0000000"
proof -
  have "unat (pte_kern st + of_nat (4096 * j)) = unat (pte_kern st) + 4096 * j"
    using assms by (intro unat_plus_of_nat_small) simp
  moreover from this have "0xC0000000 \<le> pte_kern st + of_nat (4096 * j)"
    using assms(1) by (simp add: word_le_nat_alt)
  ultimately show ?thesis
    unfolding kernel_table_def by (simp add: unat_minus_small)
qed

lemma init_pgd_loop_frame:
  "pgd_kern (init_pgd_loop js st) = pgd_kern st \<and> pte_kern (init_pgd_loop js st) = pte_kern st \<and>
   ptab (init_pgd_loop js st) = ptab st \<and> mem (init_pgd_loop js st) = mem st"
  unfolding init_pgd_loop_def
  by (induction js arbitrary: st) (simp_all add: set_pgd_def)

lemma init_pgd_loop_snoc:
  "init_pgd_loop [0..<Suc n] st = set_pgd (pgd_kern st) (768 + of_nat n)
     (kernel_table st n OR 1 OR 2) (init_pgd_loop [0..<n] st)"
  using init_pgd_loop_frame [of "[0..<n]" st]
  by (simp add: init_pgd_loop_def kernel_table_def PGD_INDEX_OFFSET [simplified])

lemma init_pgd_loop_entry:
  assumes "n \<le> 128"
  shows "pgd (init_pgd_loop [0..<n] st) (pgd_kern st) i =
     (if 768 \<le> unat i \<and> unat i < 768 + n
      then kernel_table st (unat i - 768) OR 1 OR 2 else pgd st (pgd_kern st) i)"
  using assms
proof (induction n)
  case 0
  then show ?case by (auto simp: init_pgd_loop_def)
next
  case (Suc n)
  then have "i = 768 + of_nat n \<longleftrightarrow> unat i = 768 + n"
    using unat_plus_of_nat_small [of 768 n] by (simp add: u32_eq_unat)
  with Suc show ?case by (auto simp: init_pgd_loop_snoc simp del: upt_Suc)
qed

lemma init_pte_loop_frame:
  "pgd_kern (init_pte_loop is st) = pgd_kern st \<and> pte_kern (init_pte_loop is st) = pte_kern st \<and>
   pgd (init_pte_loop is st) = pgd st \<and> mem (init_pte_loop is st) = mem st"
  unfolding init_pte_loop_def
  by (induction "is" arbitrary: st) (simp_all add: set_pte_def)

lemma init_pte_loop_snoc:
  "1 \<le> n \<Longrightarrow> init_pte_loop [1..<Suc n] st =
     set_pte (kernel_table st (n div 1024)) (of_nat (n mod 1024))
       (push_bit 12 (of_nat n) OR 1 OR 2) (init_pte_loop [1..<n] st)"
  using init_pte_loop_frame [of "[1..<n]" st]
  by (simp add: init_pte_loop_def kernel_table_def)

text \<open>Table \<open>j\<close>, entry \<open>k\<close> holds frame number \<open>1024 * j + k\<close>; frame 0 is left out.\<close>

lemma init_pte_loop_entry:
  assumes "0xC0000000 \<le> unat (pte_kern st)" and "unat (pte_kern st) + 524288 \<le> 4294967296"
    and "1 \<le> n" and "n \<le> 131072" and j: "j < 128" and k: "k < 1024"
  shows "ptab (init_pte_loop [1..<n] st) (kernel_table st j) (of_nat k) =
     (if 1 \<le> 1024 * j + k \<and> 1024 * j + k < n then push_bit 12 (of_nat (1024 * j + k)) OR 1 OR 2
      else ptab st (kernel_table st j) (of_nat k))"
  using assms(3,4)
proof (induction n rule: dec_induct)
  case base
  then show ?case by (auto simp: init_pte_loop_def)
next
  case (step n)
  have n: "n div 1024 < 128" using step.prems by (simp add: div_less_iff_less_mult)
  have "kernel_table st (n div 1024) = kernel_table st j \<longleftrightarrow> n div 1024 = j"
    using unat_kernel_table [OF assms(1,2) n] unat_kernel_table [OF assms(1,2) j] assms(1)
    by (auto simp: u32_eq_unat)
  moreover have "(of_nat (n mod 1024) :: u32) = of_nat k \<longleftrightarrow> n mod 1024 = k"
    using k by (simp add: u32_eq_unat unat_of_nat_u32)
  moreover have "n div 1024 = j \<and> n mod 1024 = k \<longleftrightarrow> n = 1024 * j + k"
    using k by (auto simp: mult.commute)
  ultimately have here: "kernel_table st j = kernel_table st (n div 1024) \<and>
      (of_nat k :: u32) = of_nat (n mod 1024) \<longleftrightarrow> n = 1024 * j + k"
    by metis
  have "ptab (init_pte_loop [1..<Suc n] st) (kernel_table st j) (of_nat k) =
      (if n = 1024 * j + k then push_bit 12 (of_nat n) OR 1 OR 2
       else ptab (init_pte_loop [1..<n] st) (kernel_table st j) (of_nat k))"
    unfolding init_pte_loop_snoc [OF step.hyps(1)] ptab_updates fun_upd_apply here [symmetric]
    by simp
  moreover have "ptab (init_pte_loop [1..<n] st) (kernel_table st j) (of_nat k) =
      (if 1 \<le> 1024 * j + k \<and> 1024 * j + k < n then push_bit 12 (of_nat (1024 * j + k)) OR 1 OR 2
       else ptab st (kernel_table st j) (of_nat k))"
    using step.prems by (intro step.IH) simp
  ultimately show ?case using step.hyps(1) by (simp only:) auto
qed

lemma unat_frame_number:
  assumes "N < 1048576"
  shows "unat (push_bit 12 (of_nat N) :: u32) = 4096 * N"
  using assms by (simp add: push_bit_eq_mult unat_word_ariths unat_of_nat)

lemma frame_number_aligned:
  assumes "N < 1048576"
  shows "(push_bit 12 (of_nat N) :: u32) AND 0xfffff000 = push_bit 12 (of_nat N)"
  by (simp only: u32_eq_unat unat_page_mask unat_frame_number [OF assms]) simp

text \<open>The linker places the two arrays, page aligned, above \<open>PAGE_OFFSET\<close>, and clears them.\<close>

definition kernel_arrays_ok :: "'a vmm_state_scheme \<Rightarrow> bool" where
  "kernel_arrays_ok st \<longleftrightarrow> 0xC0000000 < unat (pte_kern st) \<and> unat (pte_kern st) + 524288 \<le> 4294967296 \<and>
     4096 dvd unat (pte_kern st) \<and> pgd st (pgd_kern st) = (\<lambda>_. 0) \<and>
     (\<forall>j < 128. ptab st (kernel_table st j) = (\<lambda>_. 0))"

lemma kernel_table_aligned:
  assumes "kernel_arrays_ok st" and "j < 128"
  shows "kernel_table st j AND 0xfffff000 = kernel_table st j" and "kernel_table st j \<noteq> 0"
proof -
  have u: "unat (kernel_table st j) = unat (pte_kern st) + 4096 * j - 0xC0000000"
    using assms by (intro unat_kernel_table) (auto simp: kernel_arrays_ok_def)
  have "4096 dvd unat (pte_kern st)" using assms(1) by (simp add: kernel_arrays_ok_def)
  then have "4096 dvd unat (pte_kern st) + 4096 * j - 0xC0000000"
    by (intro dvd_diff_nat dvd_add) auto
  then show "kernel_table st j AND 0xfffff000 = kernel_table st j"
    by (simp only: u32_eq_unat unat_page_mask u) simp
  show "kernel_table st j \<noteq> 0"
    using u assms(1) by (auto simp: kernel_arrays_ok_def simp flip: unat_eq_0)
qed

text \<open>The entries the processor reads after \<open>init_vmm\<close>.\<close>

lemma init_vmm_entries:
  assumes ok: "kernel_arrays_ok st"
  defines "st' \<equiv> init_vmm_tables st"
  shows "pgd st' (cr3 st' + PAGE_OFFSET) i = (if 768 \<le> unat i \<and> unat i < 896
      then kernel_table st (unat i - 768) OR 1 OR 2 else 0)"
    and "j < 128 \<Longrightarrow> k < 1024 \<Longrightarrow> ptab st' (kernel_table st j) (of_nat k) =
      (if 1024 * j + k = 0 then 0 else push_bit 12 (of_nat (1024 * j + k)) OR 1 OR 2)"
proof -
  define st1 where "st1 = init_pgd_loop [0..<128] st"
  have st1: "pgd_kern st1 = pgd_kern st" "pte_kern st1 = pte_kern st" "ptab st1 = ptab st"
    using init_pgd_loop_frame [of "[0..<128]" st] by (simp_all add: st1_def)
  have kt: "kernel_table st1 = kernel_table st"
    by (simp add: kernel_table_def fun_eq_iff st1)
  define st2 where "st2 = init_pte_loop [1..<131072] st1"
  have st2: "pgd st2 = pgd st1" "pgd_kern st2 = pgd_kern st"
    using init_pte_loop_frame [of "[1..<131072]" st1] st1(1) by (simp_all add: st2_def)
  have st': "st' = switch_pgd (pgd_kern st - 0xC0000000) st2"
    using st2(2) unfolding st'_def init_vmm_tables_def st2_def st1_def Let_def by simp
  have "pgd st' (cr3 st' + PAGE_OFFSET) i = pgd st1 (pgd_kern st) i"
    by (simp add: st' switch_pgd_def st2)
  then show "pgd st' (cr3 st' + PAGE_OFFSET) i = (if 768 \<le> unat i \<and> unat i < 896
      then kernel_table st (unat i - 768) OR 1 OR 2 else 0)"
    using init_pgd_loop_entry [of 128 st i] ok by (simp add: st1_def kernel_arrays_ok_def)
  assume j: "j < 128" "k < 1024"
  have "ptab st' = ptab st2" by (simp add: st' switch_pgd_def)
  moreover have "ptab st1 (kernel_table st j) (of_nat k) = 0"
    using ok j by (simp add: st1 kernel_arrays_ok_def)
  moreover have "0xC0000000 \<le> unat (pte_kern st1)" "unat (pte_kern st1) + 524288 \<le> 4294967296"
    using ok by (simp_all add: st1 kernel_arrays_ok_def)
  note init_pte_loop_entry [OF this _ _ j, of 131072, folded st2_def, unfolded kt]
  moreover have "1024 * j + k < 131072" using j by linarith
  ultimately show "ptab st' (kernel_table st j) (of_nat k) =
      (if 1024 * j + k = 0 then 0 else push_bit 12 (of_nat (1024 * j + k)) OR 1 OR 2)"
    by (cases "1024 * j + k = 0") simp_all
qed

text \<open>The walk of a kernel address whose page is the \<open>N\<close>-th of the direct map.\<close>

lemma init_vmm_walk:
  assumes ok: "kernel_arrays_ok st" and v: "786432 \<le> vpn va" "vpn va < 917504"
  defines "st' \<equiv> init_vmm_tables st"
  shows "walk st' (cr3 st' + PAGE_OFFSET) va =
    (if vpn va = 786432 then None else Some (push_bit 12 (of_nat (vpn va - 786432))))"
proof -
  define N where "N = vpn va - 786432"
  have N: "N < 131072" "vpn va = 786432 + N" using v by (simp_all add: N_def)
  define j where "j = N div 1024"
  have j: "j < 128" using N(1) by (simp add: j_def div_less_iff_less_mult)
  have Njk: "N = 1024 * j + N mod 1024" by (simp add: j_def)
  have pde: "pgd st' (cr3 st' + PAGE_OFFSET) (PGD_INDEX va) = kernel_table st j OR 1 OR 2"
  proof -
    have "unat (PGD_INDEX va) = 768 + j" by (simp add: unat_PGD_INDEX N(2) j_def)
    with j show ?thesis
      using init_vmm_entries(1) [OF ok, of "PGD_INDEX va"] by (simp add: st'_def)
  qed
  have "(786432 + N) mod 1024 = N mod 1024"
    using mod_mult_self3 [of 768 1024 N] by simp
  then have "PTE_INDEX va = of_nat (N mod 1024)"
    by (simp add: u32_eq_unat unat_PTE_INDEX N(2) unat_of_nat_u32)
  then have pte: "ptab st' (kernel_table st j) (PTE_INDEX va) =
      (if N = 0 then 0 else push_bit 12 (of_nat N) OR 1 OR 2)"
    using init_vmm_entries(2) [OF ok j, of "N mod 1024"] unfolding st'_def Njk [symmetric] by simp
  note kt = kernel_table_aligned(1) [OF ok j]
  have fr: "(push_bit 12 (of_nat N) :: u32) AND 0xfffff000 = push_bit 12 (of_nat N)"
    using N(1) by (intro frame_number_aligned) simp
  have "walk st' d va = (if N = 0 then None else Some (push_bit 12 (of_nat N)))"
    if "pgd st' d (PGD_INDEX va) = kernel_table st j OR 1 OR 2" for d
    using that entry_bits(1,2) [OF kt] entry_bits(1,2) [OF fr]
    by (simp add: walk_def Let_def pte)
  from this [OF pde] show ?thesis unfolding N_def [symmetric] N(2) by simp
qed

section \<open>Properties\<close>

text \<open>C7: In a well-formed directory, mapping a page panics exactly when a page table is needed
  and no page is free. Otherwise the directory stays well formed, the processor translates every
  address of the page to the same offset of the frame, every other address translates as before,
  \<open>get_mapping\<close> returns 1 with the frame, no byte of another page changes, and one page has left
  the free list if a table was needed and none otherwise.\<close>

theorem vmm_map_correct:
  assumes "vm_ok d st" and "flags AND PAGE_PRESENT \<noteq> 0" and "flags AND PAGE_MASK = 0"
  shows "(case vmm_map d va pa flags st of
      Inl e \<Rightarrow> e = Panic ''out of memory'' \<and> table st d (PGD_INDEX va) = 0 \<and> free_pages st = []
    | Inr st' \<Rightarrow> vm_ok d st' \<and>
        (\<forall>x. walk st' d x = (if vpn x = vpn va then Some (pa AND PAGE_MASK) else walk st d x)) \<and>
        get_mapping d va True st' = (Some 1, Some (pa AND PAGE_MASK)) \<and>
        (\<forall>a. vpn a \<noteq> vpn va \<longrightarrow> mem st' a = mem st a) \<and>
        free_pages st' =
          (if table st d (PGD_INDEX va) = 0 then tl (free_pages st) else free_pages st))"
proof (cases "table st d (PGD_INDEX va) = 0 \<and> free_pages st = []")
  case True
  with vmm_map_none [of st d va pa flags] show ?thesis by simp
next
  case False
  then obtain st' where st': "vmm_map d va pa flags st = Inr st'" "vm_ok d st'"
    "vmm_frame d va st st'"
    "\<forall>x. walk st' d x = (if vpn x = vpn va then Some (pa AND 0xfffff000) else walk st d x)"
    "free_pages st' =
      (if table st d (PGD_INDEX va) = 0 then tl (free_pages st) else free_pages st)"
    using vmm_map_result [OF assms(1), of flags va pa] assms(2,3) by auto
  have "walk st' d va = Some (pa AND 0xfffff000)" using st'(4) by simp
  moreover from this have "table st' d (PGD_INDEX va) \<noteq> 0"
    using walk_eq [OF st'(2), of va] by auto
  ultimately show ?thesis
    using st' get_mapping_eq [OF st'(2), of va True] by (simp add: vmm_frame_def)
qed

text \<open>A small state for the witnesses: no tables yet, the three pages of \<open>pool3\<close> free.\<close>

definition vm0 :: vmm_state where
  "vm0 = \<lparr>pmm_stack = pmm_stack pool3, pmm_stack_top = 3, phy_page_count = 3,
     pgd_kern = 0xC0110000, pte_kern = 0xC0120000, pgd = (\<lambda>_ _. 0), ptab = (\<lambda>_ _. 0),
     cr3 = 0x110000, mem = (\<lambda>_. 0), frame = (\<lambda>_. 0)\<rparr>"

lemma vm0_ok: "free_pages vm0 = [0x3000, 0x2000, 0x1000]" "vm_ok d vm0"
proof -
  show f: "free_pages vm0 = [0x3000, 0x2000, 0x1000]"
    using free_pages_pool3 by (simp add: free_pages_def vm0_def pool3_def)
  have "pmm_ok vm0" by (simp add: pmm_ok_def vm0_def)
  moreover have "pgd vm0 = (\<lambda>_ _. 0)" by (simp add: vm0_def)
  ultimately show "vm_ok d vm0"
    by (intro vm_okI) (auto simp: f)
qed

theorem vmm_map_correct_witness:
  "(case vmm_map 0xC0110000 0xE0000000 0x9000 3 vm0 of
      Inl e \<Rightarrow> e = Panic ''out of memory'' \<and>
        table vm0 0xC0110000 (PGD_INDEX 0xE0000000) = 0 \<and> free_pages vm0 = []
    | Inr st' \<Rightarrow> vm_ok 0xC0110000 st' \<and>
        (\<forall>x. walk st' 0xC0110000 x =
          (if vpn x = vpn 0xE0000000 then Some (0x9000 AND PAGE_MASK) else walk vm0 0xC0110000 x)) \<and>
        get_mapping 0xC0110000 0xE0000000 True st' = (Some 1, Some (0x9000 AND PAGE_MASK)) \<and>
        (\<forall>a. vpn a \<noteq> vpn 0xE0000000 \<longrightarrow> mem st' a = mem vm0 a) \<and>
        free_pages st' = (if table vm0 0xC0110000 (PGD_INDEX 0xE0000000) = 0
          then tl (free_pages vm0) else free_pages vm0))"
  by (rule vmm_map_correct) (simp_all add: vm0_ok)

text \<open>C14: Unmapping a page in a well-formed directory removes exactly that page's translation
  and keeps the directory well formed and the free list; unmapping what was just mapped at an
  untranslated page restores the translation of every address.\<close>

theorem vmm_unmap_inverts_map:
  assumes "vm_ok d st" and "walk st d va = None"
    and "vmm_map d va pa (PAGE_PRESENT OR PAGE_WRITE) st = Inr st'"
  shows "(\<forall>x. walk (vmm_unmap d va st') d x = walk st d x) \<and>
    vm_ok d (vmm_unmap d vb st) \<and> free_pages (vmm_unmap d vb st) = free_pages st \<and>
    (\<forall>x. walk (vmm_unmap d vb st) d x = (if vpn x = vpn vb then None else walk st d x))"
  using vmm_unmap_result [OF assms(1)] vm.install_remove [OF assms(1,3,2)] walk_page by blast

theorem vmm_unmap_inverts_map_witness:
  "\<exists>st'. vmm_map 0 0xE0000000 0x9000 (PAGE_PRESENT OR PAGE_WRITE) vm0 = Inr st' \<and>
    (\<forall>x. walk (vmm_unmap 0 0xE0000000 st') 0 x = walk vm0 0 x) \<and>
    vm_ok 0 (vmm_unmap 0 0x5000 vm0) \<and> free_pages (vmm_unmap 0 0x5000 vm0) = free_pages vm0 \<and>
    (\<forall>x. walk (vmm_unmap 0 0x5000 vm0) 0 x = (if vpn x = vpn 0x5000 then None else walk vm0 0 x))"
proof -
  have none: "walk vm0 0 0xE0000000 = None" by (simp add: walk_def vm0_def)
  obtain st' where st': "vmm_map 0 0xE0000000 0x9000 (PAGE_PRESENT OR PAGE_WRITE) vm0 = Inr st'"
    using vmm_map_result [OF vm0_ok(2) rw_flags, of 0 "0xE0000000" "0x9000"] vm0_ok(1) by auto
  with vmm_unmap_inverts_map [OF vm0_ok(2) none st'] show ?thesis by blast
qed

text \<open>C22: \<open>get_mapping\<close> on a well-formed directory. With a page table and a pointer for the
  result it agrees with the processor: it returns 1 and the frame exactly where the page is
  translated and 0 elsewhere. With a null pointer it returns 0 even for a translated page,
  although the header says it returns 1 then. Without a page table nothing is returned at all:
  the value the caller reads is indeterminate.\<close>

theorem get_mapping_agrees_with_walk:
  assumes "vm_ok d st"
  shows "get_mapping d va given st =
      (if table st d (PGD_INDEX va) = 0 then (None, None)
       else case walk st d va of None \<Rightarrow> (Some 0, None)
         | Some f \<Rightarrow> if given then (Some 1, Some f) else (Some 0, None)) \<and>
    (fst (get_mapping d va True st) = Some 1 \<longleftrightarrow> walk st d va \<noteq> None)"
  using get_mapping_eq [OF assms, of va] walk_eq [OF assms, of va] by (auto split: option.split)

theorem get_mapping_agrees_with_walk_witness:
  "get_mapping 0 0xE0000000 False vm0 =
      (if table vm0 0 (PGD_INDEX 0xE0000000) = 0 then (None, None)
       else case walk vm0 0 0xE0000000 of None \<Rightarrow> (Some 0, None)
         | Some f \<Rightarrow> if False then (Some 1, Some f) else (Some 0, None)) \<and>
    (fst (get_mapping 0 0xE0000000 True vm0) = Some 1 \<longleftrightarrow> walk vm0 0 0xE0000000 \<noteq> None)"
  by (rule get_mapping_agrees_with_walk) (rule vm0_ok)

text \<open>C25: After \<open>init_vmm\<close> the processor translates exactly the addresses from one page above
  \<open>PAGE_OFFSET\<close> up to 512 MB above it, each to itself minus \<open>PAGE_OFFSET\<close>: the page of
  the null pointer at \<open>PAGE_OFFSET\<close>, everything below it and the heap area from
  \<open>0xE0000000\<close> fault.\<close>

theorem init_vmm_direct_map:
  assumes "kernel_arrays_ok st"
  shows "translate (init_vmm_tables st) va =
    (if 0xC0001000 \<le> va \<and> va < 0xE0000000 then Some (va - PAGE_OFFSET) else None)"
proof (cases "786432 \<le> vpn va \<and> vpn va < 917504")
  case True
  define N where "N = vpn va - 786432"
  have N: "N < 1048576" "vpn va = 786432 + N" using True by (auto simp: N_def)
  have va: "unat va = 4096 * (786432 + N) + unat va mod 4096"
    using N(2) mult_div_mod_eq [of 4096 "unat va"] by (simp add: vpn_def)
  have "unat (push_bit 12 (of_nat N) OR OFFSET_INDEX va) = 4096 * N + unat va mod 4096"
    using page_or_off [of "push_bit 12 (of_nat N)" va]
      frame_number_aligned [OF N(1)] unat_frame_number [OF N(1)] by (simp add: OFFSET_INDEX_def)
  also have "\<dots> = unat (va - 0xC0000000)"
    using va by (subst unat_minus_small) (simp_all add: word_le_nat_alt)
  finally have off: "push_bit 12 (of_nat (vpn va - 786432)) OR OFFSET_INDEX va = va - 0xC0000000"
    by (simp only: u32_eq_unat N_def)
  obtain r where r: "unat va = 0xC0000000 + 4096 * N + r" "r < 4096"
    using va that [of "unat va mod 4096"] by simp
  have "N < 131072" using True N(2) by linarith
  with r have "unat va < 0xE0000000" by linarith
  moreover have "0xC0001000 \<le> unat va \<longleftrightarrow> N \<noteq> 0"
    using r by (cases "N = 0") auto
  ultimately have "0xC0001000 \<le> va \<longleftrightarrow> vpn va \<noteq> 786432" "va < 0xE0000000"
    using N(2) by (simp_all add: word_le_nat_alt word_less_nat_alt)
  with off show ?thesis
    using init_vmm_walk [OF assms, of va] True by (simp add: translate_def)
next
  case False
  have "\<not> (768 \<le> unat (PGD_INDEX va) \<and> unat (PGD_INDEX va) < 896)"
    using False by (auto simp: unat_PGD_INDEX)
  then have "walk (init_vmm_tables st) (cr3 (init_vmm_tables st) + PAGE_OFFSET) va = None"
    using init_vmm_entries(1) [OF assms, of "PGD_INDEX va"] by (auto simp: walk_def Let_def)
  moreover have "\<not> (0xC0001000 \<le> va \<and> va < 0xE0000000)"
    using False by (auto simp: vpn_def word_le_nat_alt word_less_nat_alt)
  ultimately show ?thesis by (simp add: translate_def)
qed

theorem init_vmm_direct_map_witness:
  "translate (init_vmm_tables vm0) 0xC00B8004 =
    (if 0xC0001000 \<le> (0xC00B8004 :: u32) \<and> (0xC00B8004 :: u32) < 0xE0000000
     then Some (0xC00B8004 - PAGE_OFFSET) else None)"
  by (rule init_vmm_direct_map) (simp add: kernel_arrays_ok_def vm0_def)

end
