(* ===== verification/Vmm_Runs.thy ===== *)
theory Vmm_Runs
  imports Vmm
begin

text \<open>
  Any sequence of calls of \<^verbatim>\<open>map\<close> and \<^verbatim>\<open>unmap\<close> of \<^verbatim>\<open>mm/vmm.c\<close> on one page directory. Seen from outside
  the directory is a finite map from pages to frames, and each call one update of that map; what
  is left of the implementation is the number of page tables taken from the pool.
\<close>

section \<open>Requests\<close>

datatype page_request = Map u32 u32 u32 | Unmap u32

fun serve :: "u32 \<Rightarrow> page_request list \<Rightarrow> 'a vmm_state_scheme \<Rightarrow> 'a vmm_state_scheme res" where
  "serve d [] st = Inr st"
| "serve d (Map va pa flags # rs) st = bindE (vmm_map d va pa flags st) (serve d rs)"
| "serve d (Unmap va # rs) st = serve d rs (vmm_unmap d va st)"

fun page_of :: "page_request \<Rightarrow> nat" where
  "page_of (Map va pa flags) = vpn va"
| "page_of (Unmap va) = vpn va"

text \<open>The flags make a present entry.\<close>

fun request_ok :: "page_request \<Rightarrow> bool" where
  "request_ok (Map va pa flags) \<longleftrightarrow> flags AND PAGE_PRESENT \<noteq> 0 \<and> flags AND PAGE_MASK = 0"
| "request_ok (Unmap va) \<longleftrightarrow> True"

section \<open>The specification\<close>

fun page_update :: "page_request \<Rightarrow> (nat \<rightharpoonup> u32) \<Rightarrow> nat \<rightharpoonup> u32" where
  "page_update (Map va pa flags) p = p(vpn va \<mapsto> pa AND PAGE_MASK)"
| "page_update (Unmap va) p = p(vpn va := None)"

definition page_map :: "u32 \<Rightarrow> 'a vmm_state_scheme \<Rightarrow> nat \<rightharpoonup> u32" where
  "page_map d st n = (if n < 1048576 then walk st d (push_bit 12 (of_nat n)) else None)"

lemma page_number_less: "vpn x < 1048576"
  using unat_less_u32 [of x] by (simp add: vpn_def less_mult_imp_div_less)

lemma vpn_page: "n < 1048576 \<Longrightarrow> vpn (push_bit 12 (of_nat n)) = n"
  by (simp add: vpn_def unat_frame_number)

lemma walk_page_map: "walk st d x = page_map d st (vpn x)"
  using walk_page [of x "push_bit 12 (of_nat (vpn x))" st d] by (simp add: page_map_def page_number_less vpn_page)

lemma page_map_eqI: "(\<And>x. walk s d x = p (vpn x)) \<Longrightarrow> (\<And>n. 1048576 \<le> n \<Longrightarrow> p n = None) \<Longrightarrow> page_map d s = p"
  by (rule ext) (simp add: page_map_def vpn_page)

text \<open>The directory entries that need a new page table.\<close>

definition needed :: "u32 \<Rightarrow> 'a vmm_state_scheme \<Rightarrow> page_request list \<Rightarrow> u32 set" where
  "needed d st rs = {PGD_INDEX va |va pa flags. Map va pa flags \<in> set rs \<and> table st d (PGD_INDEX va) = 0}"

lemma finite_needed [simp]: "finite (needed d st rs)"
  by (rule finite)

lemma needed_simps:
  "needed d st [] = {}" "needed d st (Unmap va # rs) = needed d st rs"
  "needed d st (Map va pa flags # rs) =
    (if table st d (PGD_INDEX va) = 0 then insert (PGD_INDEX va) (needed d st rs) else needed d st rs)"
  by (auto simp: needed_def)

section \<open>Each call is an update\<close>

lemma map_update:
  assumes ok: "vm_ok d st" and f: "request_ok (Map va pa flags)"
    and room: "table st d (PGD_INDEX va) \<noteq> 0 \<or> free_pages st \<noteq> []"
  shows "\<exists>st'. vmm_map d va pa flags st = Inr st' \<and> vm_ok d st' \<and>
    page_map d st' = page_update (Map va pa flags) (page_map d st) \<and>
    (\<forall>a. vpn a \<noteq> vpn va \<longrightarrow> mem st' a = mem st a) \<and>
    free_pages st' = (if table st d (PGD_INDEX va) = 0 then tl (free_pages st) else free_pages st) \<and>
    needed d st' rs = needed d st rs - {PGD_INDEX va}"
proof -
  obtain st' where s: "vmm_map d va pa flags st = Inr st'" "vm_ok d st'" "vmm_frame d va st st'"
      "\<forall>x. walk st' d x = (if vpn x = vpn va then Some (pa AND 0xfffff000) else walk st d x)"
      "free_pages st' = (if table st d (PGD_INDEX va) = 0 then tl (free_pages st) else free_pages st)"
      "\<forall>i < 1024. table st' d i = (if i = PGD_INDEX va \<and> table st d i = 0 then hd (free_pages st) else table st d i)"
    using vmm_map_result [OF ok _ _ room, of flags pa] f by auto
  have "page_map d st' = page_update (Map va pa flags) (page_map d st)"
    by (rule page_map_eqI) (use s(4) page_number_less [of va] in \<open>auto simp: walk_page_map [of st] page_map_def [of d st]\<close>)
  moreover have "table st' d (PGD_INDEX va) \<noteq> 0"
    using s(6) room vm_okD(5) [OF ok, of "hd (free_pages st)"] by (auto simp del: PAGE_MASK_def)
  then have "needed d st' rs = needed d st rs - {PGD_INDEX va}"
    using s(6) by (auto simp: needed_def)
  ultimately show ?thesis using s by (auto simp: vmm_frame_def)
qed

lemma unmap_update:
  assumes ok: "vm_ok d st"
  shows "vm_ok d (vmm_unmap d va st)" "page_map d (vmm_unmap d va st) = page_update (Unmap va) (page_map d st)"
    and "\<forall>a. vpn a \<noteq> vpn va \<longrightarrow> mem (vmm_unmap d va st) a = mem st a"
    and "free_pages (vmm_unmap d va st) = free_pages st" "needed d (vmm_unmap d va st) rs = needed d st rs"
proof -
  note u = vmm_unmap_result [OF ok, of va]
  show "page_map d (vmm_unmap d va st) = page_update (Unmap va) (page_map d st)"
    by (rule page_map_eqI) (use u(3) in \<open>auto simp: walk_page_map [of st] page_map_def [of d st]\<close>)
qed (use vmm_unmap_result [OF ok, of va] in \<open>simp_all add: vmm_frame_def needed_def\<close>)

section \<open>Runs\<close>

lemma serve_result:
  "vm_ok d st \<Longrightarrow> list_all request_ok rs \<Longrightarrow> (case serve d rs st of
      Inl e \<Rightarrow> e = Panic ''out of memory'' \<and> length (free_pages st) < card (needed d st rs)
    | Inr st' \<Rightarrow> vm_ok d st' \<and> page_map d st' = fold page_update rs (page_map d st) \<and>
        card (needed d st rs) \<le> length (free_pages st) \<and>
        free_pages st' = drop (card (needed d st rs)) (free_pages st) \<and>
        (\<forall>a. vpn a \<notin> page_of ` set rs \<longrightarrow> mem st' a = mem st a))"
proof (induction d rs st rule: serve.induct)
  case (1 d st)
  then show ?case by (simp add: needed_simps)
next
  case (2 d va pa flags rs st)
  let ?i = "PGD_INDEX va"
  have f: "request_ok (Map va pa flags)" "list_all request_ok rs" using "2.prems"(2) by simp_all
  show ?case
  proof (cases "table st d ?i = 0 \<and> free_pages st = []")
    case True
    moreover from this have "0 < card (needed d st (Map va pa flags # rs))"
      by (simp add: needed_simps card_gt_0_iff)
    ultimately show ?thesis using vmm_map_none [of st d va pa flags] by simp
  next
    case False
    then have "table st d ?i \<noteq> 0 \<or> free_pages st \<noteq> []" by simp
    from map_update [OF "2.prems"(1) f(1) this, of rs] obtain st' where
      s: "vmm_map d va pa flags st = Inr st'" "vm_ok d st'"
        "page_map d st' = page_update (Map va pa flags) (page_map d st)"
        "\<forall>a. vpn a \<noteq> vpn va \<longrightarrow> mem st' a = mem st a"
        "free_pages st' = (if table st d ?i = 0 then tl (free_pages st) else free_pages st)"
        "needed d st' rs = needed d st rs - {?i}" by blast
    have n: "card (needed d st (Map va pa flags # rs)) =
        (if table st d ?i = 0 then Suc (card (needed d st' rs)) else card (needed d st' rs))"
    proof (cases "table st d ?i = 0")
      case True
      then show ?thesis by (simp add: needed_simps s(6) card.insert_remove)
    next
      case False
      then have "?i \<notin> needed d st rs" by (auto simp: needed_def)
      with False show ?thesis by (simp add: needed_simps s(6))
    qed
    have l: "table st d ?i = 0 \<Longrightarrow> length (free_pages st) = Suc (length (free_pages st'))"
      using False s(5) by (cases "free_pages st") auto
    show ?thesis
      using "2.IH" [OF s(1,2) f(2)] s(3,4,5) l by (auto simp: s(1) n drop_Suc simp del: page_update.simps split: sum.splits)
  qed
next
  case (3 d va rs st)
  note u = unmap_update [OF "3.prems"(1), of va]
  show ?case
    using "3.IH" [OF u(1)] "3.prems"(2) u(2-5) by (auto simp: needed_simps simp del: page_update.simps split: sum.splits)
qed

section \<open>Properties\<close>

text \<open>C19: Every sequence of calls of \<^verbatim>\<open>map\<close> and \<^verbatim>\<open>unmap\<close> on a well-formed directory does what the same
  updates of a finite map from pages to frames do: at the end each page translates as its last
  call says, and as before without one, the directory is well formed and no byte of another page has
  changed. The sequence panics exactly when it needs more page tables than pages are free, one
  for every directory entry that is mapped through and has none, and otherwise takes just these pages
  off the free list: the order of the calls does not matter, and no \<^verbatim>\<open>unmap\<close> gives a table back.\<close>

theorem vmm_runs_refine_map:
  assumes "vm_ok d st" and "list_all request_ok rs"
  shows "case serve d rs st of
      Inl e \<Rightarrow> e = Panic ''out of memory'' \<and> length (free_pages st) < card (needed d st rs)
    | Inr st' \<Rightarrow> vm_ok d st' \<and> page_map d st' = fold page_update rs (page_map d st) \<and>
        (\<forall>x. walk st' d x = page_map d st' (vpn x)) \<and> card (needed d st rs) \<le> length (free_pages st) \<and>
        free_pages st' = drop (card (needed d st rs)) (free_pages st) \<and>
        (\<forall>a. vpn a \<notin> page_of ` set rs \<longrightarrow> mem st' a = mem st a)"
  using serve_result [OF assms] by (simp add: walk_page_map [symmetric] split: sum.splits)

text \<open>Two pages through one table; the first is unmapped again.\<close>

theorem vmm_runs_refine_map_witness:
  "\<exists>st'. serve 0 [Map 0xE0000000 0x9000 3, Map 0xE0001000 0xA000 3, Unmap 0xE0000000] vm0 = Inr st' \<and>
    page_map 0 st' 0xE0000 = None \<and> page_map 0 st' 0xE0001 = Some 0xA000 \<and> page_map 0 st' 0xE0002 = None \<and>
    free_pages st' = [0x2000, 0x1000]"
proof -
  let ?rs = "[Map 0xE0000000 0x9000 3, Map 0xE0001000 0xA000 3, Unmap 0xE0000000]"
  have "table vm0 0 i = 0" "walk vm0 0 x = None" for i x by (simp_all add: vm0_def walk_def)
  then have z: "needed 0 vm0 ?rs = {896}" "page_map 0 vm0 = Map.empty"
    by (auto simp: needed_simps PGD_INDEX_def page_map_def fun_eq_iff)
  have v: "vpn 0xE0000000 = 0xE0000" "vpn 0xE0001000 = 0xE0001" by (simp_all add: vpn_def)
  have "list_all request_ok ?rs" by simp
  from vmm_runs_refine_map [OF vm0_ok(2) [of 0] this] show ?thesis
    by (cases "serve 0 ?rs vm0") (simp_all add: z v vm0_ok(1) del: serve.simps)
qed

end
