(* ===== verification/Access.thy ===== *)
theory Access
  imports Vmm
begin

text \<open>
  Loads and stores of the kernel through a pointer: the access goes through the page tables of
  \<^verbatim>\<open>cr3\<close> and faults when one of the bytes has no translation. The fault carries the address
  the processor puts into \<^verbatim>\<open>cr2\<close>, which \<^verbatim>\<open>page_fault\<close> prints.
\<close>

section \<open>Guarded accesses\<close>

definition read32 :: "u32 \<Rightarrow> 'a vmm_state_scheme \<Rightarrow> u32 res" where
  "read32 a st =
     (if translate st a = None then Inl (PageFault a)
      else if translate st (a + 3) = None then Inl (PageFault ((a + 3) AND PAGE_MASK))
      else Inr (load32 (mem st) a))"

definition write32 :: "u32 \<Rightarrow> u32 \<Rightarrow> 'a vmm_state_scheme \<Rightarrow> 'a vmm_state_scheme res" where
  "write32 a w st =
     (if translate st a = None then Inl (PageFault a)
      else if translate st (a + 3) = None then Inl (PageFault ((a + 3) AND PAGE_MASK))
      else Inr (st\<lparr>mem := store32 (mem st) a w\<rparr>))"

definition read8 :: "u32 \<Rightarrow> 'a vmm_state_scheme \<Rightarrow> u8 res" where
  "read8 a st = (if translate st a = None then Inl (PageFault a) else Inr (mem st a))"

definition write8 :: "u32 \<Rightarrow> u8 \<Rightarrow> 'a vmm_state_scheme \<Rightarrow> 'a vmm_state_scheme res" where
  "write8 a b st =
     (if translate st a = None then Inl (PageFault a) else Inr (st\<lparr>mem := (mem st)(a := b)\<rparr>))"

section \<open>Ranges that are mapped\<close>

text \<open>Every byte of the range has a translation, and the range does not wrap.\<close>

definition mapped :: "'a vmm_state_scheme \<Rightarrow> u32 \<Rightarrow> nat \<Rightarrow> bool" where
  "mapped st a n \<longleftrightarrow> unat a + n \<le> 4294967296 \<and>
     (\<forall>x. unat a \<le> unat x \<and> unat x < unat a + n \<longrightarrow> translate st x \<noteq> None)"

lemma translate_mem [simp]: "translate (st\<lparr>mem := m\<rparr>) a = translate st a"
  by (simp add: translate_def walk_def)

lemma mapped_mem [simp]: "mapped (st\<lparr>mem := m\<rparr>) a n = mapped st a n"
  by (simp add: mapped_def)

lemma mapped_byte: "mapped st a n \<Longrightarrow> i < n \<Longrightarrow> translate st (a + of_nat i) \<noteq> None"
  by (auto simp: mapped_def unat_plus_of_nat_small)

lemma mapped_word:
  assumes "mapped st a n" and "i + 4 \<le> n"
  shows "translate st (a + of_nat i) \<noteq> None" and "translate st (a + of_nat i + 3) \<noteq> None"
  using mapped_byte [OF assms(1), of i] mapped_byte [OF assms(1), of "i + 3"] assms(2)
  by (simp_all add: add.assoc)

lemma mapped_access:
  assumes "mapped st a n" and "i + 4 \<le> n"
  shows "read32 (a + of_nat i) st = Inr (load32 (mem st) (a + of_nat i))"
    and "write32 (a + of_nat i) w st = Inr (st\<lparr>mem := store32 (mem st) (a + of_nat i) w\<rparr>)"
  using mapped_word [OF assms] by (simp_all add: read32_def write32_def)

lemma mapped_sub:
  assumes "mapped st a n" and "unat a \<le> unat b" and "unat b + k \<le> unat a + n"
  shows "mapped st b k"
  using assms by (auto simp: mapped_def)

lemma mapped_byte_access:
  assumes "mapped st a n" and "i < n"
  shows "read8 (a + of_nat i) st = Inr (mem st (a + of_nat i))"
    and "write8 (a + of_nat i) b st = Inr (st\<lparr>mem := (mem st)(a + of_nat i := b)\<rparr>)"
  using mapped_byte [OF assms] by (simp_all add: read8_def write8_def)

lemma translate_walk: "translate st a \<noteq> None \<longleftrightarrow> walk st (cr3 st + PAGE_OFFSET) a \<noteq> None"
  by (simp add: translate_def)

end
