(* ===== verification/Heap.thy ===== *)
theory Heap
  imports Access
begin

text \<open>
  The kernel heap: \<^verbatim>\<open>mm/heap.c\<close> and \<^verbatim>\<open>include/heap.h\<close>. Blocks lie one after the other from
  \<open>HEAP_START\<close>; each begins with a 12-byte header in the memory itself, with the two list
  pointers and a word that holds the flag \<open>allocated\<close> (bit 0) and the 31 bits of \<open>length\<close>.

  This theory holds the operations. Its abstraction and its theorems are in \<^verbatim>\<open>Heap_Rep\<close>,
  \<^verbatim>\<open>Heap_Alloc\<close>, \<^verbatim>\<open>Heap_Free\<close> and \<^verbatim>\<open>Heap_Flaws\<close>.
\<close>

section \<open>State and constants\<close>

definition HEAP_START :: u32 where [simp]: "HEAP_START = 0xE0000000"
definition HEADER_SIZE :: u32 where [simp]: "HEADER_SIZE = 12"

record heap_state = vmm_state +
  heap_max :: u32
  heap_first :: u32

section \<open>The fields of a header\<close>

text \<open>The bit fields \<open>allocated\<close> and \<open>length\<close> in their word.\<close>

definition get_allocated :: "u32 \<Rightarrow> u32" where "get_allocated w = w AND 1"

definition get_length :: "u32 \<Rightarrow> u32" where "get_length w = drop_bit 1 w"

text \<open>A store to a bit field keeps the other bits of its word and drops what does not fit.\<close>

definition put_allocated :: "u32 \<Rightarrow> u32 \<Rightarrow> u32" where
  "put_allocated w v = (w AND 0xfffffffe) OR (v AND 1)"

definition put_length :: "u32 \<Rightarrow> u32 \<Rightarrow> u32" where
  "put_length w l = (w AND 1) OR push_bit 1 l"

definition hprev :: "u32 \<Rightarrow> 'a vmm_state_scheme \<Rightarrow> u32 res" where
  "hprev c st = read32 c st"

definition hnext :: "u32 \<Rightarrow> 'a vmm_state_scheme \<Rightarrow> u32 res" where
  "hnext c st = read32 (c + 4) st"

definition hallocated :: "u32 \<Rightarrow> 'a vmm_state_scheme \<Rightarrow> u32 res" where
  "hallocated c st = bindE (read32 (c + 8) st) (\<lambda>w. Inr (get_allocated w))"

definition hlength :: "u32 \<Rightarrow> 'a vmm_state_scheme \<Rightarrow> u32 res" where
  "hlength c st = bindE (read32 (c + 8) st) (\<lambda>w. Inr (get_length w))"

definition set_hprev :: "u32 \<Rightarrow> u32 \<Rightarrow> 'a vmm_state_scheme \<Rightarrow> 'a vmm_state_scheme res" where
  "set_hprev c v st = write32 c v st"

definition set_hnext :: "u32 \<Rightarrow> u32 \<Rightarrow> 'a vmm_state_scheme \<Rightarrow> 'a vmm_state_scheme res" where
  "set_hnext c v st = write32 (c + 4) v st"

definition set_hallocated :: "u32 \<Rightarrow> u32 \<Rightarrow> 'a vmm_state_scheme \<Rightarrow> 'a vmm_state_scheme res" where
  "set_hallocated c v st =
     bindE (read32 (c + 8) st) (\<lambda>w. write32 (c + 8) (put_allocated w v) st)"

definition set_hlength :: "u32 \<Rightarrow> u32 \<Rightarrow> 'a vmm_state_scheme \<Rightarrow> 'a vmm_state_scheme res" where
  "set_hlength c l st =
     bindE (read32 (c + 8) st) (\<lambda>w. write32 (c + 8) (put_length w l) st)"

section \<open>Operations\<close>

definition init_heap :: "'a heap_state_scheme \<Rightarrow> 'a heap_state_scheme" where
  "init_heap st = st\<lparr>heap_first := 0\<rparr>"

text \<open>The loop of \<^verbatim>\<open>alloc_chunk\<close> ends because every turn takes a page from the stack.\<close>

lemma pmm_alloc_page_top:
  "pmm_alloc_page st = Inr (p, st') \<Longrightarrow> unat (pmm_stack_top st') < unat (pmm_stack_top st)"
  by (auto simp: pmm_alloc_page_def unat_pred unat_gt_0 split: if_splits)

lemma pmm_stack_top_updates [simp]:
  "pmm_stack_top (set_pgd d i v st) = pmm_stack_top st"
  "pmm_stack_top (set_pte t i v st) = pmm_stack_top st"
  "pmm_stack_top (clear_table t st) = pmm_stack_top st"
  "pmm_stack_top (invlpg va st0 st) = pmm_stack_top st"
  by (auto simp: vmm_update_defs Let_def split: option.splits)

lemma vmm_map_top:
  assumes "vmm_map d va pa flags st = Inr st'"
  shows "unat (pmm_stack_top st') \<le> unat (pmm_stack_top st)"
  using assms by (auto simp: vmm_map_def Let_def split: if_splits
      dest!: pmm_alloc_page_top)

lemma vmm_unmap_top [simp]: "pmm_stack_top (vmm_unmap d va st) = pmm_stack_top st"
  by (simp add: vmm_unmap_def Let_def)

function alloc_chunk ::
  "u32 \<Rightarrow> u32 \<Rightarrow> 'a heap_state_scheme \<Rightarrow> 'a heap_state_scheme res" where
  "alloc_chunk start len st =
     (if heap_max st < start + len
      then bindE (pmm_alloc_page st) (\<lambda>(page, st1).
           bindE (vmm_map (pgd_kern st1) (heap_max st1) page (PAGE_PRESENT OR PAGE_WRITE) st1) (\<lambda>st2.
             alloc_chunk start len (st2\<lparr>heap_max := heap_max st2 + PAGE_SIZE\<rparr>)))
      else Inr st)"
  by pat_completeness auto
termination
proof (relation "measure (\<lambda>(s, l, st). unat (pmm_stack_top st))", goal_cases)
  case (2 start len st r page st1 st2)
  then have "pmm_alloc_page st = Inr (page, st1)" by simp
  then have "unat (pmm_stack_top st1) < unat (pmm_stack_top st)" by (rule pmm_alloc_page_top)
  moreover have "unat (pmm_stack_top st2) \<le> unat (pmm_stack_top st1)"
    using 2(4) by (rule vmm_map_top)
  ultimately show ?case by simp
qed simp

declare alloc_chunk.simps [simp del]

text \<open>
  The loop of \<^verbatim>\<open>free_chunk\<close>. Every turn puts a page on the stack of free pages, or panics. A
  page whose table is missing leaves the local \<^verbatim>\<open>page\<close> unset.
\<close>

lemma pmm_free_page_top:
  assumes "pmm_free_page p st = Inr st'"
  shows "unat (PAGE_MAX_SIZE - pmm_stack_top st') < unat (PAGE_MAX_SIZE - pmm_stack_top st)"
proof -
  have "pmm_stack_top st \<noteq> PAGE_MAX_SIZE" "pmm_stack_top st' = pmm_stack_top st + 1"
    using assms by (auto simp: pmm_free_page_def Let_def split: if_splits)
  moreover define x where "x = PAGE_MAX_SIZE - pmm_stack_top st"
  ultimately have "x \<noteq> 0" and "PAGE_MAX_SIZE - pmm_stack_top st' = x - 1" by simp_all
  moreover have "unat (x - 1) < unat x" using \<open>x \<noteq> 0\<close> by (simp add: unat_pred unat_gt_0)
  ultimately show ?thesis unfolding x_def [symmetric] by (simp only:)
qed

function release_pages :: "u32 \<Rightarrow> 'a heap_state_scheme \<Rightarrow> 'a heap_state_scheme res" where
  "release_pages chunk st =
     (if chunk \<le> heap_max st - PAGE_SIZE
      then let st1 = st\<lparr>heap_max := heap_max st - PAGE_SIZE\<rparr> in
           bindE (case snd (get_mapping (pgd_kern st1) (heap_max st1) True st1) of
               None \<Rightarrow> Inl (Undefined ''page'')
             | Some page \<Rightarrow>
                 pmm_free_page page (vmm_unmap (pgd_kern st1) (heap_max st1) st1))
             (release_pages chunk)
      else Inr st)"
  by pat_completeness auto
termination
proof (relation "measure (\<lambda>(c, st). unat (PAGE_MAX_SIZE - pmm_stack_top st))", goal_cases)
  case (2 chunk st st1 st2)
  then obtain page where "pmm_free_page page (vmm_unmap (pgd_kern st1) (heap_max st1) st1) = Inr st2"
    by (auto split: option.splits)
  from pmm_free_page_top [OF this] 2(2) show ?case by simp
qed simp

declare release_pages.simps [simp del]

definition free_chunk :: "u32 \<Rightarrow> 'a heap_state_scheme \<Rightarrow> 'a heap_state_scheme res" where
  "free_chunk chunk st =
     bindE (hprev chunk st) (\<lambda>p.
     bindE (if p = 0 then Inr (st\<lparr>heap_first := 0\<rparr>) else set_hnext p 0 st)
       (release_pages chunk))"

definition split_chunk :: "u32 \<Rightarrow> u32 \<Rightarrow> 'a heap_state_scheme \<Rightarrow> 'a heap_state_scheme res" where
  "split_chunk chunk len st =
     bindE (hlength chunk st) (\<lambda>l.
       if HEADER_SIZE < l - len
       then let new_chunk = chunk + len in
            bindE (set_hprev new_chunk chunk st) (\<lambda>st.
            bindE (hnext chunk st) (\<lambda>n.
            bindE (set_hnext new_chunk n st) (\<lambda>st.
            bindE (set_hallocated new_chunk 0 st) (\<lambda>st.
            bindE (hlength chunk st) (\<lambda>l.
            bindE (set_hlength new_chunk (l - len) st) (\<lambda>st.
            bindE (set_hnext chunk new_chunk st) (\<lambda>st.
              set_hlength chunk len st)))))))
       else Inr st)"

text \<open>The two halves of \<^verbatim>\<open>glue_chunk\<close>; the second may move \<open>chunk\<close> to its predecessor.\<close>

definition glue_next :: "u32 \<Rightarrow> 'a heap_state_scheme \<Rightarrow> 'a heap_state_scheme res" where
  "glue_next chunk st =
     bindE (hnext chunk st) (\<lambda>n.
       if n = 0 then Inr st
       else bindE (hallocated n st) (\<lambda>al.
         if al \<noteq> 0 then Inr st
         else bindE (hlength chunk st) (\<lambda>l.
              bindE (hlength n st) (\<lambda>ln.
              bindE (set_hlength chunk (l + ln) st) (\<lambda>st.
              bindE (hnext chunk st) (\<lambda>n.
              bindE (hnext n st) (\<lambda>nn.
              bindE (if nn \<noteq> 0 then set_hprev nn chunk st else Inr st) (\<lambda>st.
              bindE (hnext chunk st) (\<lambda>n.
              bindE (hnext n st) (\<lambda>nn.
                set_hnext chunk nn st))))))))))"

definition glue_prev :: "u32 \<Rightarrow> 'a heap_state_scheme \<Rightarrow> (u32 \<times> 'a heap_state_scheme) res" where
  "glue_prev chunk st =
     bindE (hprev chunk st) (\<lambda>p.
       if p = 0 then Inr (chunk, st)
       else bindE (hallocated p st) (\<lambda>al.
         if al \<noteq> 0 then Inr (chunk, st)
         else bindE (hlength p st) (\<lambda>lp.
              bindE (hlength chunk st) (\<lambda>l.
              bindE (set_hlength p (lp + l) st) (\<lambda>st.
              bindE (hnext chunk st) (\<lambda>n.
              bindE (set_hnext p n st) (\<lambda>st.
              bindE (hnext chunk st) (\<lambda>n.
              bindE (if n \<noteq> 0 then bindE (hprev chunk st) (\<lambda>p. set_hprev n p st) else Inr st)
                (\<lambda>st. bindE (hprev chunk st) (\<lambda>p. Inr (p, st)))))))))))"

definition glue_chunk :: "u32 \<Rightarrow> 'a heap_state_scheme \<Rightarrow> 'a heap_state_scheme res" where
  "glue_chunk chunk st =
     bindE (glue_next chunk st) (\<lambda>st.
     bindE (glue_prev chunk st) (\<lambda>(chunk, st).
     bindE (hnext chunk st) (\<lambda>n. if n = 0 then free_chunk chunk st else Inr st)))"

definition kfree :: "u32 \<Rightarrow> 'a heap_state_scheme \<Rightarrow> 'a heap_state_scheme res" where
  "kfree p st =
     (let header = p - HEADER_SIZE in
      bindE (set_hallocated header 0 st) (glue_chunk header))"

text \<open>
  The \<^verbatim>\<open>while\<close> loop of \<^verbatim>\<open>kmalloc\<close> over the list. It ends with the first fitting block, or with
  0 and the last block of the list; a list with a cycle may keep it running, then \<open>None\<close>.
\<close>

partial_function (option) kmalloc_find ::
  "u32 \<Rightarrow> u32 \<Rightarrow> u32 \<Rightarrow> 'a heap_state_scheme \<Rightarrow> (u32 \<times> u32) res option" where
  "kmalloc_find len cur prev st =
     (if cur = 0 then Some (Inr (0, prev))
      else case read32 (cur + 8) st of Inl e \<Rightarrow> Some (Inl e)
      | Inr w \<Rightarrow>
          if get_allocated w = 0 \<and> len \<le> get_length w then Some (Inr (cur, prev))
          else case hnext cur st of Inl e \<Rightarrow> Some (Inl e)
               | Inr n \<Rightarrow> kmalloc_find len n cur st)"

definition kmalloc_take ::
  "u32 \<Rightarrow> u32 \<Rightarrow> 'a heap_state_scheme \<Rightarrow> (u32 \<times> 'a heap_state_scheme) res" where
  "kmalloc_take len cur st =
     bindE (split_chunk cur len st) (\<lambda>st.
     bindE (set_hallocated cur 1 st) (\<lambda>st.
       Inr (cur + HEADER_SIZE, st)))"

definition kmalloc_extend ::
  "u32 \<Rightarrow> u32 \<Rightarrow> 'a heap_state_scheme \<Rightarrow> (u32 \<times> 'a heap_state_scheme) res" where
  "kmalloc_extend len prev st =
     bindE (if prev \<noteq> 0 then bindE (hlength prev st) (\<lambda>l. Inr (prev + l, st))
            else Inr (HEAP_START, st\<lparr>heap_first := HEAP_START\<rparr>)) (\<lambda>(chunk_start, st).
     bindE (alloc_chunk chunk_start len st) (\<lambda>st.
     bindE (set_hprev chunk_start prev st) (\<lambda>st.
     bindE (set_hnext chunk_start 0 st) (\<lambda>st.
     bindE (set_hallocated chunk_start 1 st) (\<lambda>st.
     bindE (set_hlength chunk_start len st) (\<lambda>st.
     bindE (if prev \<noteq> 0 then set_hnext prev chunk_start st else Inr st) (\<lambda>st.
       Inr (chunk_start + HEADER_SIZE, st))))))))"

definition kmalloc :: "u32 \<Rightarrow> 'a heap_state_scheme \<Rightarrow> (u32 \<times> 'a heap_state_scheme) res option" where
  "kmalloc n st =
     (let len = n + HEADER_SIZE in
      map_option (\<lambda>r. bindE r (\<lambda>(cur, prev).
          if cur \<noteq> 0 then kmalloc_take len cur st else kmalloc_extend len prev st))
        (kmalloc_find len (heap_first st) 0 st))"


text \<open>\<^verbatim>\<open>test_heap\<close>, with the pointers it prints.\<close>

definition test_heap :: "'a heap_state_scheme \<Rightarrow> (u32 list \<times> 'a heap_state_scheme) res option" where
  "test_heap st =
     bindO (kmalloc 50 st) (\<lambda>(addr1, st).
     bindO (kmalloc 500 st) (\<lambda>(addr2, st).
     bindO (kmalloc 5000 st) (\<lambda>(addr3, st).
     bindO (kmalloc 50000 st) (\<lambda>(addr4, st).
     bindO (Some (kfree addr1 st)) (\<lambda>st.
     bindO (Some (kfree addr2 st)) (\<lambda>st.
     bindO (Some (kfree addr3 st)) (\<lambda>st.
     bindO (Some (kfree addr4 st)) (\<lambda>st.
       Some (Inr ([addr1, addr2, addr3, addr4, addr1, addr2, addr3, addr4], st))))))))))"

end
