(* ===== verification/Heap_Pages.thy ===== *)
theory Heap_Pages
  imports Heap
begin

text \<open>
  The pages under the heap. \<open>pages_ok n st\<close> says that the first \<open>n\<close> pages from \<open>HEAP_START\<close> are
  mapped, each to a frame of its own that is neither free nor a page table, that no later
  address is mapped, and that \<open>heap_max\<close> is their end. \<open>alloc_chunk\<close> and the loop of
  \<open>free_chunk\<close> move between such states, and no page gets lost.
\<close>

section \<open>Heap pages and their frames\<close>

definition heap_page :: "nat \<Rightarrow> u32" where
  "heap_page k = HEAP_START + of_nat (4096 * k)"

definition heap_frames :: "'a vmm_state_scheme \<Rightarrow> nat \<Rightarrow> u32 list" where
  "heap_frames st n = map (\<lambda>k. the (walk st (pgd_kern st) (heap_page k))) [0..<n]"

text \<open>All pages the kernel holds through its pool, its tables and the heap.\<close>

definition owned :: "'a vmm_state_scheme \<Rightarrow> nat \<Rightarrow> u32 set" where
  "owned st n = (set (free_pages st) \<union> set (heap_frames st n) \<union>
     table st (pgd_kern st) ` {..<1024}) - {0}"

definition pages_ok :: "nat \<Rightarrow> 'a heap_state_scheme \<Rightarrow> bool" where
  "pages_ok n st \<longleftrightarrow> vm_ok (pgd_kern st) st \<and> cr3 st + PAGE_OFFSET = pgd_kern st \<and>
     n < 131072 \<and> heap_max st = heap_page n \<and>
     (\<forall>x. 0xE0000000 \<le> unat x \<longrightarrow>
        (walk st (pgd_kern st) x \<noteq> None) = (unat x < 0xE0000000 + 4096 * n)) \<and>
     distinct (free_pages st @ heap_frames st n) \<and>
     (\<forall>f \<in> set (heap_frames st n). f \<noteq> 0 \<and> f AND 0xfffff000 = f \<and>
        (\<forall>i < 1024. table st (pgd_kern st) i \<noteq> f)) \<and>
     length (free_pages st) + n \<le> 131072"

lemma pages_okD:
  assumes "pages_ok n st"
  shows "vm_ok (pgd_kern st) st" and "cr3 st + 0xC0000000 = pgd_kern st" and "n < 131072"
    and "heap_max st = heap_page n"
    and "0xE0000000 \<le> unat x \<Longrightarrow>
      (walk st (pgd_kern st) x \<noteq> None) = (unat x < 0xE0000000 + 4096 * n)"
    and "distinct (free_pages st @ heap_frames st n)"
    and "f \<in> set (heap_frames st n) \<Longrightarrow> f \<noteq> 0 \<and> f AND 0xfffff000 = f"
    and "f \<in> set (heap_frames st n) \<Longrightarrow> i < 1024 \<Longrightarrow> table st (pgd_kern st) i \<noteq> f"
    and "length (free_pages st) + n \<le> 131072"
  using assms by (auto simp: pages_ok_def)

lemma unat_heap_page: "k < 131072 \<Longrightarrow> unat (heap_page k) = 0xE0000000 + 4096 * k"
  unfolding heap_page_def by (subst unat_plus_of_nat_small) simp_all

lemma vpn_heap_page: "k < 131072 \<Longrightarrow> vpn (heap_page k) = 917504 + k"
  by (simp add: vpn_def unat_heap_page)

lemma page_number_iff: "x div 4096 = q \<longleftrightarrow> 4096 * q \<le> x \<and> x < 4096 * Suc (q :: nat)"
proof
  assume "x div 4096 = q"
  then show "4096 * q \<le> x \<and> x < 4096 * Suc q"
    using mult_div_mod_eq [of 4096 x] mod_less_divisor [of 4096 x] by simp
qed (auto intro: div_nat_eqI)

lemma vpn_eq_heap_page:
  assumes "k < 131072"
  shows "vpn x = vpn (heap_page k) \<longleftrightarrow>
    0xE0000000 + 4096 * k \<le> unat x \<and> unat x < 0xE0000000 + 4096 * Suc k"
proof -
  have "vpn x = 917504 + k \<longleftrightarrow> 4096 * (917504 + k) \<le> unat x \<and> unat x < 4096 * Suc (917504 + k)"
    unfolding vpn_def by (rule page_number_iff)
  then show ?thesis using assms by (simp add: vpn_heap_page)
qed

text \<open>What growing or shrinking the heap leaves alone: \<open>n\<close> is the lower of the two page counts.\<close>

definition heap_same :: "nat \<Rightarrow> 'a heap_state_scheme \<Rightarrow> 'a heap_state_scheme \<Rightarrow> bool" where
  "heap_same n st st' \<longleftrightarrow> cr3 st' = cr3 st \<and> pgd_kern st' = pgd_kern st \<and>
     pte_kern st' = pte_kern st \<and> phy_page_count st' = phy_page_count st \<and>
     heap_first st' = heap_first st \<and> heap_state.more st' = heap_state.more st \<and>
     (\<forall>x. unat x < 0xE0000000 + 4096 * n \<longrightarrow> mem st' x = mem st x) \<and>
     (\<forall>x. unat x < 0xE0000000 \<longrightarrow> walk st' (pgd_kern st) x = walk st (pgd_kern st) x)"

lemma heap_same_refl [simp]: "heap_same n st st"
  by (simp add: heap_same_def)

lemma heap_same_trans:
  "heap_same n s t \<Longrightarrow> heap_same k t u \<Longrightarrow> j \<le> n \<Longrightarrow> j \<le> k \<Longrightarrow> heap_same j s u"
  by (auto simp: heap_same_def)

lemma heap_max_update [simp]:
  "free_pages (st\<lparr>heap_max := h\<rparr>) = free_pages st"
  "walk (st\<lparr>heap_max := h\<rparr>) d x = walk st d x"
  "vm_ok d (st\<lparr>heap_max := h\<rparr>) = vm_ok d st"
  "heap_frames (st\<lparr>heap_max := h\<rparr>) n = heap_frames st n"
  "owned (st\<lparr>heap_max := h\<rparr>) n = owned st n"
proof -
  show f: "free_pages (st\<lparr>heap_max := h\<rparr>) = free_pages st" by (rule free_pages_cong) simp_all
  show w: "walk (st\<lparr>heap_max := h\<rparr>) d x = walk st d x" for d x by (rule walk_cong) simp_all
  show "vm_ok d (st\<lparr>heap_max := h\<rparr>) = vm_ok d st"
    by (rule vm_ok_cong) (simp_all add: f pmm_ok_def)
  show h: "heap_frames (st\<lparr>heap_max := h\<rparr>) n = heap_frames st n" by (simp add: heap_frames_def w)
  show "owned (st\<lparr>heap_max := h\<rparr>) n = owned st n" by (simp add: owned_def f h)
qed

lemma heap_frames_Suc:
  "heap_frames st (Suc n) = heap_frames st n @ [the (walk st (pgd_kern st) (heap_page n))]"
  by (simp add: heap_frames_def)

lemma heap_frames_cong:
  assumes "pgd_kern st' = pgd_kern st" and "n \<le> 131072"
    and "\<And>k. k < n \<Longrightarrow> walk st' (pgd_kern st) (heap_page k) = walk st (pgd_kern st) (heap_page k)"
  shows "heap_frames st' n = heap_frames st n"
  using assms by (simp add: heap_frames_def)


section \<open>Growing by one page\<close>

text \<open>One turn of the loop of \<open>alloc_chunk\<close>.\<close>

definition grow_page :: "'a heap_state_scheme \<Rightarrow> 'a heap_state_scheme res" where
  "grow_page st = bindE (pmm_alloc_page st) (\<lambda>(page, st1).
     bindE (vmm_map (pgd_kern st1) (heap_max st1) page (PAGE_PRESENT OR PAGE_WRITE) st1)
       (\<lambda>st2. Inr (st2\<lparr>heap_max := heap_max st2 + PAGE_SIZE\<rparr>)))"

lemma alloc_chunk_unfold:
  "alloc_chunk start len st =
     (if heap_max st < start + len then bindE (grow_page st) (alloc_chunk start len) else Inr st)"
  by (subst alloc_chunk.simps)
    (simp add: grow_page_def bindE_def split: sum.split prod.split)

lemma heap_page_Suc: "heap_page n + 4096 = heap_page (Suc n)"
  by (simp add: heap_page_def algebra_simps)

lemma vmm_frame_heap:
  assumes "vmm_frame d va st st'"
  shows "heap_max st' = heap_max st" and "heap_first st' = heap_first st"
    and "heap_state.more st' = heap_state.more st"
  using assms by (cases st; cases st'; simp add: vmm_frame_def)+

lemma heap_same_frame:
  fixes st st' :: "'a heap_state_scheme"
  assumes f: "vmm_frame (pgd_kern st) va st st'" and va: "vpn va = vpn (heap_page n)" "n < 131072"
    and w: "\<And>x. vpn x \<noteq> vpn va \<Longrightarrow> walk st' (pgd_kern st) x = walk st (pgd_kern st) x"
  shows "heap_same n st st'"
proof -
  have "vpn x \<noteq> vpn va" if "unat x < 0xE0000000 + 4096 * n" for x
    using that vpn_eq_heap_page [OF va(2), of x] va(1) by simp
  with f w vmm_frame_heap [OF f] show ?thesis
    by (simp add: heap_same_def vmm_frame_def)
qed

lemma grow_page_result:
  fixes st :: "'a heap_state_scheme"
  assumes ok: "pages_ok n st" and n: "Suc n < 131072"
  shows "(case grow_page st of
      Inl e \<Rightarrow> e = Panic ''out of memory'' \<and> length (free_pages st) < 2
    | Inr st' \<Rightarrow> pages_ok (Suc n) st' \<and> heap_same n st st' \<and> owned st' (Suc n) = owned st n \<and>
        length (free_pages st) \<le> length (free_pages st') + 2)"
proof (cases "free_pages st")
  case Nil
  then show ?thesis by (simp add: grow_page_def pmm_alloc_Nil)
next
  case (Cons p ps)
  note D = pages_okD [OF ok]
  let ?d = "pgd_kern st" and ?va = "heap_page n"
  define st1 where "st1 = st\<lparr>pmm_stack_top := pmm_stack_top st - 1\<rparr>"
  note al = pmm_alloc_Cons [OF vm_okD(1) [OF D(1)] Cons, folded st1_def]
  have s1: "pgd st1 = pgd st" "ptab st1 = ptab st" "pgd_kern st1 = ?d" "heap_max st1 = ?va"
    using D(4) by (simp_all add: st1_def)
  have w1: "walk st1 ?d x = walk st ?d x" for x by (rule walk_cong) (simp_all add: s1)
  have ok1: "vm_ok ?d st1"
    using D(1) Cons al(2,3) unfolding vm_ok_def s1 by auto
  have pp: "p \<noteq> 0" "p AND 0xfffff000 = p" "p \<notin> set ps" "p \<notin> set (heap_frames st n)"
    "\<And>i. i < 1024 \<Longrightarrow> table st ?d i \<noteq> p"
    using vm_okD(5,6) [OF D(1), of p] D(6) Cons by auto
  show ?thesis
  proof (cases "table st ?d (PGD_INDEX ?va) \<noteq> 0 \<or> ps \<noteq> []")
    case False
    then have "vmm_map ?d ?va p 3 st1 = Inl (Panic ''out of memory'')"
      using al(2) s1(1) by (intro vmm_map_none) simp_all
    with False show ?thesis by (simp add: grow_page_def al(1) s1 Cons)
  next
    case True
    have "\<exists>st2. vmm_map ?d ?va p 3 st1 = Inr st2 \<and> vm_ok ?d st2 \<and> vmm_frame ?d ?va st1 st2 \<and>
      (\<forall>x. walk st2 ?d x = (if vpn x = vpn ?va then Some (p AND 0xfffff000) else walk st1 ?d x)) \<and>
      free_pages st2 = (if table st1 ?d (PGD_INDEX ?va) = 0 then tl (free_pages st1) else free_pages st1) \<and>
      (\<forall>i < 1024. table st2 ?d i =
        (if i = PGD_INDEX ?va \<and> table st1 ?d i = 0 then hd (free_pages st1) else table st1 ?d i))"
      using True al(2) s1(1) by (intro vmm_map_result [OF ok1]) simp_all
    then obtain st2 where st2: "vmm_map ?d ?va p 3 st1 = Inr st2" "vm_ok ?d st2"
      "vmm_frame ?d ?va st1 st2"
      "\<And>x. walk st2 ?d x = (if vpn x = vpn ?va then Some p else walk st ?d x)"
      "free_pages st2 = (if table st ?d (PGD_INDEX ?va) = 0 then tl ps else ps)"
      "\<And>i. i < 1024 \<Longrightarrow> table st2 ?d i =
         (if i = PGD_INDEX ?va \<and> table st ?d i = 0 then hd ps else table st ?d i)"
      unfolding s1(1) w1 al(2) pp(2) by blast
    define st' where "st' = st2\<lparr>heap_max := heap_page (Suc n)\<rparr>"
    have f: "vmm_frame ?d ?va st st2"
      using st2(3) by (simp add: vmm_frame_def st1_def)
    have same: "heap_same n st st'"
    proof -
      have "heap_same n st st2"
        using f st2(4) n by (intro heap_same_frame) auto
      then show ?thesis by (simp add: heap_same_def st'_def)
    qed
    then have k: "pgd_kern st' = ?d" "cr3 st' = cr3 st" by (simp_all add: heap_same_def)
    have fr: "heap_frames st' (Suc n) = heap_frames st n @ [p]"
    proof -
      have "heap_frames st' n = heap_frames st n"
        using k n st2(4) by (intro heap_frames_cong) (simp_all add: vpn_heap_page st'_def)
      then show ?thesis using k st2(4) [of ?va] by (simp add: heap_frames_Suc) (simp add: st'_def)
    qed
    have g: "grow_page st = Inr st'"
      using vmm_frame_heap(1) [OF f] D(4)
      by (simp add: grow_page_def al(1) s1 st2(1) st'_def heap_page_Suc)
    have fp: "free_pages st' = (if table st ?d (PGD_INDEX ?va) = 0 then tl ps else ps)"
      using st2(5) by (simp add: st'_def)
    have tb: "table st' ?d i =
        (if i = PGD_INDEX ?va \<and> table st ?d i = 0 then hd ps else table st ?d i)" if "i < 1024" for i
      using st2(6) [OF that] by (simp add: st'_def)
    have q: "hd ps \<in> set ps" if "table st ?d (PGD_INDEX ?va) = 0"
      using that True by simp
    have sub: "set (free_pages st') \<subseteq> set ps" "distinct (free_pages st')"
      using D(6) Cons by (cases ps; auto simp: fp)+
    have own: "owned st' (Suc n) = owned st n"
    proof -
      have "set ps \<union> table st ?d ` {..<1024} - {0} =
          set (free_pages st') \<union> table st' ?d ` {..<1024} - {0}"
      proof (cases "table st ?d (PGD_INDEX ?va) = 0")
        case False
        then have "table st' ?d ` {..<1024} = table st ?d ` {..<1024}"
          using tb by (intro image_cong) auto
        with False show ?thesis by (simp add: fp)
      next
        case z: True
        then obtain r qs where qs: "ps = r # qs" using True by (cases ps) auto
        have i: "PGD_INDEX ?va \<in> {..<1024}" by simp
        have "table st' ?d ` {..<1024} =
            insert r (table st ?d ` ({..<1024} - {PGD_INDEX ?va}))"
          using tb z qs by (subst insert_Diff [OF i, symmetric]) (auto simp: image_iff)
        moreover have "table st ?d ` {..<1024} =
            insert 0 (table st ?d ` ({..<1024} - {PGD_INDEX ?va}))"
          using z by (subst insert_Diff [OF i, symmetric]) auto
        ultimately show ?thesis using z qs by (auto simp: fp)
      qed
      then show ?thesis using k Cons by (auto simp: owned_def fr)
    qed
    have "pages_ok (Suc n) st'"
      unfolding pages_ok_def k fr
    proof (intro conjI)
      show "vm_ok ?d st'" using st2(2) by (simp add: st'_def)
      show "cr3 st + PAGE_OFFSET = ?d" using D(2) by simp
      show "heap_max st' = heap_page (Suc n)" by (simp add: st'_def)
      show "\<forall>x. 0xE0000000 \<le> unat x \<longrightarrow>
          (walk st' ?d x \<noteq> None) = (unat x < 0xE0000000 + 4096 * Suc n)"
        using st2(4) D(5) vpn_eq_heap_page [OF D(3)] by (auto simp: st'_def)
      show "distinct (free_pages st' @ heap_frames st n @ [p])"
        using sub D(6) Cons pp(3,4) by auto
      show "\<forall>f \<in> set (heap_frames st n @ [p]). f \<noteq> 0 \<and> f AND 0xfffff000 = f \<and>
          (\<forall>i < 1024. table st' ?d i \<noteq> f)"
        using D(6,7,8) pp q Cons by (auto simp: tb)
      show "length (free_pages st') + Suc n \<le> 131072"
        using D(9) Cons by (cases ps) (auto simp: fp)
    qed (use n in simp)
    with g same own show ?thesis by (cases ps) (auto simp: fp Cons)
  qed
qed


section \<open>The loop of \<open>alloc_chunk\<close>\<close>

text \<open>How many pages a heap of \<open>k\<close> bytes takes.\<close>

definition page_count :: "nat \<Rightarrow> nat" where
  "page_count k = (k + 4095) div 4096"

lemma page_count_le_iff: "page_count k \<le> n \<longleftrightarrow> k \<le> 4096 * n"
proof -
  have "page_count k \<le> n \<longleftrightarrow> (k + 4095) div 4096 < Suc n" by (simp add: page_count_def less_Suc_eq_le)
  also have "\<dots> \<longleftrightarrow> k \<le> 4096 * n" by (simp add: div_less_iff_less_mult) arith
  finally show ?thesis .
qed

lemma page_count_0 [simp]: "page_count 0 = 0"
  by (simp add: page_count_def)

lemma page_count_mono: "j \<le> k \<Longrightarrow> page_count j \<le> page_count k"
  by (simp add: page_count_def div_le_mono)

lemma page_count_max: "k \<le> 0x1FFFF000 \<Longrightarrow> page_count k < 131072"
  using page_count_le_iff [of k 131071] by simp

lemma alloc_chunk_result:
  fixes st :: "'a heap_state_scheme"
  assumes "pages_ok n st" and "unat (start + len) = 0xE0000000 + k" and "k \<le> 0x1FFFF000"
  shows "(case alloc_chunk start len st of
      Inl e \<Rightarrow> e = Panic ''out of memory'' \<and> length (free_pages st) < 2 * (page_count k - n)
    | Inr st' \<Rightarrow> pages_ok (max n (page_count k)) st' \<and> heap_same n st st' \<and>
        owned st' (max n (page_count k)) = owned st n)"
  using assms(1)
proof (induction "page_count k - n" arbitrary: n st)
  case 0
  then have "page_count k \<le> n" by simp
  then have "k \<le> 4096 * n" by (simp add: page_count_le_iff)
  moreover have "unat (heap_max st) = 0xE0000000 + 4096 * n"
    using pages_okD(3,4) [OF 0(2)] by (simp add: unat_heap_page)
  ultimately have "alloc_chunk start len st = Inr st"
    using assms(2) by (subst alloc_chunk_unfold) (simp add: word_less_nat_alt)
  with 0 \<open>page_count k \<le> n\<close> show ?case by (simp add: max_def)
next
  case (Suc j)
  have lt: "n < page_count k" using Suc.hyps(2) by simp
  then have "4096 * n < k" using page_count_le_iff [of k n] by simp
  moreover have n: "Suc n < 131072"
    using Suc.hyps(2) page_count_max [OF assms(3)] lt by simp
  moreover have "unat (heap_max st) = 0xE0000000 + 4096 * n"
    using pages_okD(3,4) [OF Suc.prems] by (simp add: unat_heap_page)
  ultimately have go: "alloc_chunk start len st = bindE (grow_page st) (alloc_chunk start len)"
    using assms(2) by (subst alloc_chunk_unfold) (simp add: word_less_nat_alt)
  have m: "max (Suc n) (page_count k) = page_count k" "max n (page_count k) = page_count k"
    using lt by auto
  note g = grow_page_result [OF Suc.prems n]
  show ?case
  proof (cases "grow_page st")
    case (Inl e)
    then show ?thesis using g go by (auto simp flip: Suc.hyps(2))
  next
    case (Inr st')
    then have st': "pages_ok (Suc n) st'" "heap_same n st st'" "owned st' (Suc n) = owned st n"
      "length (free_pages st) \<le> length (free_pages st') + 2"
      using g by simp_all
    have "j = page_count k - Suc n" using Suc.hyps(2) by simp
    note IH = Suc.hyps(1) [OF this st'(1), unfolded m]
    show ?thesis
    proof (cases "alloc_chunk start len st'")
      case (Inl e)
      then have "length (free_pages st') < 2 * j" "e = Panic ''out of memory''"
        using IH Suc.hyps(2) by auto
      with Inl show ?thesis using go Inr st'(4) by (simp flip: Suc.hyps(2))
    next
      case (Inr st'')
      then show ?thesis
        using IH go \<open>grow_page st = Inr st'\<close> st'(2,3) m
          heap_same_trans [OF st'(2), of "Suc n" st'' n] by simp
    qed
  qed
qed

section \<open>Releasing pages\<close>

text \<open>One turn of the loop of \<open>free_chunk\<close>.\<close>

definition shrink_page :: "'a heap_state_scheme \<Rightarrow> 'a heap_state_scheme res" where
  "shrink_page st = (let st1 = st\<lparr>heap_max := heap_max st - PAGE_SIZE\<rparr> in
     case snd (get_mapping (pgd_kern st1) (heap_max st1) True st1) of
       None \<Rightarrow> Inl (Undefined ''page'')
     | Some page \<Rightarrow> pmm_free_page page (vmm_unmap (pgd_kern st1) (heap_max st1) st1))"

lemma release_pages_unfold:
  "release_pages chunk st =
     (if chunk \<le> heap_max st - PAGE_SIZE then bindE (shrink_page st) (release_pages chunk) else Inr st)"
  by (subst release_pages.simps) (simp add: shrink_page_def Let_def)

lemma shrink_page_result:
  fixes st :: "'a heap_state_scheme"
  assumes ok: "pages_ok (Suc n) st"
  shows "\<exists>st'. shrink_page st = Inr st' \<and> pages_ok n st' \<and> heap_same n st st' \<and>
    owned st' n = owned st (Suc n)"
proof -
  note D = pages_okD [OF ok]
  let ?d = "pgd_kern st" and ?va = "heap_page n"
  have n: "n < 131072" using D(3) by simp
  define st1 where "st1 = st\<lparr>heap_max := ?va\<rparr>"
  have hm: "heap_max st - 4096 = ?va" using D(4) heap_page_Suc [of n] by (simp add: algebra_simps)
  have s1: "pgd_kern st1 = ?d" "cr3 st1 = cr3 st" "heap_max st1 = ?va" "vm_ok ?d st1"
    "\<And>x. walk st1 ?d x = walk st ?d x" "free_pages st1 = free_pages st" "pgd st1 = pgd st"
    using D(1) by (simp_all add: st1_def)
  define p where "p = the (walk st ?d ?va)"
  have w: "walk st ?d ?va = Some p"
    using D(5) [of ?va] n by (simp add: p_def unat_heap_page)
  have fr: "heap_frames st (Suc n) = heap_frames st n @ [p]"
    by (simp add: heap_frames_Suc p_def)
  then have p: "p \<noteq> 0" "p AND 0xfffff000 = p" "p \<notin> set (free_pages st)"
    "p \<notin> set (heap_frames st n)" "\<And>i. i < 1024 \<Longrightarrow> table st ?d i \<noteq> p"
    using D(6,7,8) by auto
  have "table st1 ?d (PGD_INDEX ?va) \<noteq> 0"
    using w walk_eq [OF D(1), of ?va] by (auto simp: s1)
  then have gm: "snd (get_mapping ?d ?va True st1) = Some p"
    using get_mapping_eq [OF s1(4), of ?va True] w by (simp add: s1)
  define st2 where "st2 = vmm_unmap ?d ?va st1"
  note un = vmm_unmap_result [OF s1(4), of ?va, folded st2_def]
  have "length (free_pages st2) < 131072" using D(9) by (simp add: un s1)
  then obtain st' where st': "pmm_free_page p st2 = Inr st'"
    "free_pages st' = p # free_pages st" "pmm_ok st'"
    using pmm.release_room [OF vm_okD(1) [OF un(1)]] un(4) s1(6) by metis
  have st'_eq: "pgd st' = pgd st2" "ptab st' = ptab st2" "vmm_frame ?d ?va st2 st'"
    "heap_max st' = heap_max st2"
    using st'(1) by (auto simp: pmm_free_page_def Let_def vmm_frame_def split: if_splits)
  have f: "vmm_frame ?d ?va st1 st'"
    using un(2) st'_eq(3) by (simp add: vmm_frame_def)
  have w': "walk st' ?d x = (if vpn x = vpn ?va then None else walk st ?d x)" for x
    using un(3) [of x] walk_cong [OF st'_eq(1,2)] by (simp add: s1)
  have k: "pgd_kern st' = ?d" "cr3 st' = cr3 st" "heap_max st' = ?va"
    using f vmm_frame_heap(1) [OF un(2)] st'_eq(4) s1 by (simp_all add: vmm_frame_def)
  have fr': "heap_frames st' n = heap_frames st n"
    using k n w' by (intro heap_frames_cong) (simp_all add: vpn_heap_page)
  have tb: "table st' ?d i = table st ?d i" for i
    by (simp add: st'_eq un(5) s1)
  have same: "heap_same n st st'"
  proof -
    have "heap_same n st1 st'"
      using f n w' s1 by (intro heap_same_frame [of st1 ?va]) simp_all
    then show ?thesis by (simp add: heap_same_def st1_def)
  qed
  have "vm_ok ?d st'"
    using un(1) st' p s1 un(4,5) vm_okD(7) [OF D(1)] unfolding vm_ok_def st'_eq by auto
  then have "pages_ok n st'"
    unfolding pages_ok_def k fr'
    using D n st' p w' k vpn_eq_heap_page [OF n] by (auto simp: tb fr)
  moreover have "shrink_page st = Inr st'"
    unfolding shrink_page_def PAGE_SIZE_def hm Let_def st1_def [symmetric] s1(1,3)
    using gm st'(1) by (simp add: st2_def)
  moreover have "owned st' n = owned st (Suc n)"
    by (auto simp: owned_def k fr fr' st'(2) tb)
  ultimately show ?thesis using same by blast
qed


text \<open>The whole loop, for a chunk at offset \<open>k\<close> of the heap.\<close>

lemma release_pages_result:
  fixes st :: "'a heap_state_scheme"
  assumes "pages_ok n st" and "unat chunk = 0xE0000000 + k" and "page_count k \<le> n"
  shows "\<exists>st'. release_pages chunk st = Inr st' \<and> pages_ok (page_count k) st' \<and>
    heap_same (page_count k) st st' \<and> owned st' (page_count k) = owned st n"
  using assms(1,3)
proof (induction "n - page_count k" arbitrary: n st)
  case 0
  then have n: "n = page_count k" by simp
  have "4096 * n < k + 4096" unfolding n page_count_def
    using mult_div_mod_eq [of 4096 "k + 4095"] by simp
  moreover have "unat (heap_max st) = 0xE0000000 + 4096 * n"
    using pages_okD(3,4) [OF 0(2)] by (simp add: unat_heap_page)
  moreover have "unat (heap_max st - 4096) = unat (heap_max st) - 4096"
    using calculation(2) by (simp add: unat_minus_small word_le_nat_alt)
  ultimately have "\<not> chunk \<le> heap_max st - PAGE_SIZE"
    using assms(2) by (simp add: word_le_nat_alt)
  then show ?case using 0 n by (subst release_pages_unfold) simp
next
  case (Suc j)
  then obtain i where i: "n = Suc i" "page_count k \<le> i" "j = i - page_count k" by (cases n) auto
  obtain st1 where st1: "shrink_page st = Inr st1" "pages_ok i st1" "heap_same i st st1"
    "owned st1 i = owned st n"
    using shrink_page_result [of i st] Suc.prems(1) i(1) by blast
  obtain st' where st': "release_pages chunk st1 = Inr st'" "pages_ok (page_count k) st'"
    "heap_same (page_count k) st1 st'" "owned st' (page_count k) = owned st1 i"
    using Suc.hyps(1) [OF i(3) st1(2) i(2)] by blast
  have "k \<le> 4096 * i" using i(2) page_count_le_iff by simp
  moreover have "unat (heap_max st) = 0xE0000000 + 4096 * n"
    using pages_okD(3,4) [OF Suc.prems(1)] by (simp add: unat_heap_page)
  moreover have "unat (heap_max st - 4096) = unat (heap_max st) - 4096"
    using calculation(2) by (simp add: unat_minus_small word_le_nat_alt)
  ultimately have "chunk \<le> heap_max st - PAGE_SIZE"
    using assms(2) i(1) by (simp add: word_le_nat_alt)
  then have "release_pages chunk st = Inr st'"
    using st1(1) st'(1) by (subst release_pages_unfold) simp
  then show ?case
    using st1 st' i(2) heap_same_trans [OF st1(3) st'(3), of "page_count k"] by auto
qed

section \<open>Accesses inside the heap\<close>

lemma pages_mapped:
  assumes "pages_ok n st" and "0xE0000000 \<le> unat a" and "unat a + k \<le> 0xE0000000 + 4096 * n"
  shows "mapped st a k"
  unfolding mapped_def
proof (intro conjI allI impI)
  show "unat a + k \<le> 4294967296" using pages_okD(3) [OF assms(1)] assms(3) by simp
  show "translate st x \<noteq> None" if "unat a \<le> unat x \<and> unat x < unat a + k" for x
    using pages_okD(2,5) [OF assms(1)] that assms(2,3) by (auto simp: translate_def)
qed

lemma pages_unmapped:
  assumes "pages_ok n st" and "0xE0000000 + 4096 * n \<le> unat a"
  shows "translate st a = None"
  using pages_okD(2,5) [OF assms(1)] assms(2) by (force simp: translate_def)

lemma pages_ok_mem [simp]:
  "pages_ok n (st\<lparr>mem := m\<rparr>) = pages_ok n st"
  "owned (st\<lparr>mem := m\<rparr>) n = owned st n"
  "pages_ok n (st\<lparr>heap_first := h\<rparr>) = pages_ok n st"
  "owned (st\<lparr>heap_first := h\<rparr>) n = owned st n"
proof -
  have f: "free_pages (st\<lparr>mem := m\<rparr>) = free_pages st" "free_pages (st\<lparr>heap_first := h\<rparr>) = free_pages st"
    by (rule free_pages_cong; simp)+
  have w: "walk (st\<lparr>mem := m\<rparr>) d x = walk st d x" "walk (st\<lparr>heap_first := h\<rparr>) d x = walk st d x" for d x
    by (rule walk_cong; simp)+
  have v: "vm_ok d (st\<lparr>mem := m\<rparr>) = vm_ok d st" "vm_ok d (st\<lparr>heap_first := h\<rparr>) = vm_ok d st" for d
    by (rule vm_ok_cong; simp add: f pmm_ok_def)+
  have h: "heap_frames (st\<lparr>mem := m\<rparr>) n = heap_frames st n"
    "heap_frames (st\<lparr>heap_first := h\<rparr>) n = heap_frames st n" for n
    by (simp_all add: heap_frames_def w)
  show "pages_ok n (st\<lparr>mem := m\<rparr>) = pages_ok n st" "pages_ok n (st\<lparr>heap_first := h\<rparr>) = pages_ok n st"
    by (simp_all add: pages_ok_def f w v h)
  show "owned (st\<lparr>mem := m\<rparr>) n = owned st n" "owned (st\<lparr>heap_first := h\<rparr>) n = owned st n"
    by (simp_all add: owned_def f h)
qed

end
