(* ===== verification/Heap_Rep.thy ===== *)
theory Heap_Rep
  imports Heap_Pages
begin

text \<open>
  The abstraction of the heap: a list of blocks, each a triple of its length (header
  included), its flag and the stored pointer to the previous block, which tile the memory
  from \<open>HEAP_START\<close> without gaps. The list is abstract in the \<open>next\<close> pointers, which are
  determined by the tiling; the stored \<open>prev\<close> pointers stay visible because the code does not
  keep them right. \<open>linked\<close> builds the blocks whose \<open>prev\<close> pointers are right.
\<close>

section \<open>Headers as objects in memory\<close>

definition header :: "bytes \<Rightarrow> u32 \<Rightarrow> u32 \<times> u32 \<times> u32" where
  "header m c = (load32 m c, load32 m (c + 4), load32 m (c + 8))"

text \<open>The third word of a header.\<close>

definition hword :: "nat \<Rightarrow> bool \<Rightarrow> u32" where
  "hword l u = push_bit 1 (of_nat l) OR of_bool u"

lemma bit_hword: "bit (hword l u) n \<longleftrightarrow> (if n = 0 then u else n < 32 \<and> bit l (n - 1))"
  unfolding hword_def bit_or_iff bit_push_bit_iff
  by (cases n) (auto simp: bit_of_nat_iff_bit bit_simps)

lemma get_hword [simp]:
  "get_allocated (hword l u) = of_bool u"
  "l < 2147483648 \<Longrightarrow> get_length (hword l u) = of_nat l"
proof -
  show "get_allocated (hword l u) = of_bool u"
    unfolding get_allocated_def
    by (rule bit_word_eqI) (auto simp: bit_hword bit_and_iff bit_1_iff bit_of_bool_iff)
next
  assume l: "l < 2147483648"
  have no31: "\<not> bit l 31" using l by (simp add: bit_iff_odd)
  have drop: "bit (drop_bit 1 (hword l u)) n \<longleftrightarrow> n < 31 \<and> bit l n" for n
    by (auto simp: bit_drop_bit_eq bit_hword)
  show "get_length (hword l u) = of_nat l"
    unfolding get_length_def
  proof (rule bit_word_eqI)
    fix n
    assume n: "n < LENGTH(32)"
    have "bit (of_nat l :: u32) n \<longleftrightarrow> bit l n"
      using n by (simp add: bit_of_nat_iff_bit bit_simps)
    with no31 drop n show "bit (drop_bit 1 (hword l u)) n = bit (of_nat l :: u32) n"
      by (cases "n = 31") simp_all
  qed
qed

lemma put_allocated_bits: "put_allocated w v = (w AND NOT 1) OR (v AND 1)"
proof -
  have f: "(0xfffffffe :: u32) = NOT 1" by simp
  show ?thesis unfolding put_allocated_def f ..
qed

lemma put_hword [simp]:
  "put_allocated (hword l u) 0 = hword l False"
  "put_allocated (hword l u) 1 = hword l True"
  "put_length (hword l u) k = hword (unat k) u"
  "put_length (put_allocated w 0) k = hword (unat k) False"
  "put_length (put_allocated w 1) k = hword (unat k) True"
proof -
  show "put_allocated (hword l u) 0 = hword l False" "put_allocated (hword l u) 1 = hword l True"
    unfolding put_allocated_bits
    by (rule bit_word_eqI; auto simp: bit_hword bit_or_iff bit_and_iff bit_not_iff
        bit_1_iff split: if_splits)+
  have len: "put_length w k = push_bit 1 (of_nat (unat k)) OR (w AND 1)" for w
    by (simp add: put_length_def or.commute)
  have "hword l u AND 1 = of_bool u" using get_hword(1) [unfolded get_allocated_def] .
  then show "put_length (hword l u) k = hword (unat k) u"
    unfolding len hword_def by simp
  have "put_allocated w 0 AND 1 = 0" "put_allocated w 1 AND 1 = 1"
    unfolding put_allocated_bits
    by (rule bit_word_eqI; auto simp: bit_or_iff bit_and_iff bit_not_iff bit_1_iff)+
  then show "put_length (put_allocated w 0) k = hword (unat k) False"
    "put_length (put_allocated w 1) k = hword (unat k) True"
    unfolding len hword_def by simp_all
qed

lemma apart_header:
  assumes "apart c 12 d 12"
  shows "apart c 4 d 4" "apart c 4 (d + 4) 4" "apart c 4 (d + 8) 4"
    "apart (c + 4) 4 d 4" "apart (c + 4) 4 (d + 4) 4" "apart (c + 4) 4 (d + 8) 4"
    "apart (c + 8) 4 d 4" "apart (c + 8) 4 (d + 4) 4" "apart (c + 8) 4 (d + 8) 4"
  using apart_offset [OF assms, of 0 4 0 4] apart_offset [OF assms, of 0 4 4 4]
    apart_offset [OF assms, of 0 4 8 4] apart_offset [OF assms, of 4 4 0 4]
    apart_offset [OF assms, of 4 4 4 4] apart_offset [OF assms, of 4 4 8 4]
    apart_offset [OF assms, of 8 4 0 4] apart_offset [OF assms, of 8 4 4 4]
    apart_offset [OF assms, of 8 4 8 4]
  by simp_all

text \<open>The three words of one header are apart when the header does not wrap.\<close>

lemma apart_words:
  assumes "unat (c :: u32) + 12 \<le> 4294967296"
  shows "apart c 4 (c + 4) 4" "apart c 4 (c + 8) 4" "apart (c + 4) 4 (c + 8) 4"
    "apart (c + 4) 4 c 4" "apart (c + 8) 4 c 4" "apart (c + 8) 4 (c + 4) 4"
proof -
  have "unat (c + 4) = unat c + 4" "unat (c + 8) = unat c + 8"
    using assms by (simp_all add: unat_plus_small)
  then show "apart c 4 (c + 4) 4" "apart c 4 (c + 8) 4" "apart (c + 4) 4 (c + 8) 4"
    "apart (c + 4) 4 c 4" "apart (c + 8) 4 c 4" "apart (c + 8) 4 (c + 4) 4"
    using assms by (simp_all add: apart_def)
qed

lemma header_store:
  assumes "unat c + 12 \<le> 4294967296" and "header m c = (p, n, w)"
  shows "header (store32 m c v) c = (v, n, w)" "header (store32 m (c + 4) v) c = (p, v, w)"
    "header (store32 m (c + 8) v) c = (p, n, v)"
  using assms(2) apart_words [OF assms(1)] by (simp_all add: header_def load32_store32_apart)

lemma header_store_apart:
  assumes "apart c 12 d 12"
  shows "header (store32 m c v) d = header m d" "header (store32 m (c + 4) v) d = header m d"
    "header (store32 m (c + 8) v) d = header m d"
  using apart_header [OF assms] by (simp_all add: header_def load32_store32_apart)

lemma header_cong:
  assumes "\<And>i. i < 12 \<Longrightarrow> m (c + of_nat i) = m' (c + of_nat i)"
  shows "header m c = header m' c"
proof -
  have "load32 m (c + of_nat j) = load32 m' (c + of_nat j)" if "j + 4 \<le> 12" for j
  proof (rule load32_cong)
    show "m (c + of_nat j + of_nat i) = m' (c + of_nat j + of_nat i)" if "i < 4" for i
      using assms [of "j + i"] that \<open>j + 4 \<le> 12\<close> by (simp add: add.assoc)
  qed
  from this [of 0] this [of 4] this [of 8] show ?thesis by (simp add: header_def)
qed

text \<open>A header store changes no byte outside the header.\<close>

definition in_header :: "u32 \<Rightarrow> u32 \<Rightarrow> bool" where
  "in_header c x \<longleftrightarrow> unat c \<le> unat x \<and> unat x < unat c + 12"

lemma store32_outside:
  assumes "unat c + 12 \<le> 4294967296" and "\<not> in_header c x"
  shows "store32 m c v x = m x" "store32 m (c + 4) v x = m x" "store32 m (c + 8) v x = m x"
proof -
  have u: "unat (c + 4) = unat c + 4" "unat (c + 8) = unat c + 8"
    using assms by (simp_all add: unat_plus_small)
  have "apart c 4 x 1" "apart (c + 4) 4 x 1" "apart (c + 8) 4 x 1"
    using assms by (auto simp: apart_def in_header_def u)
  then show "store32 m c v x = m x" "store32 m (c + 4) v x = m x" "store32 m (c + 8) v x = m x"
    by (simp_all add: store32_byte_apart)
qed


section \<open>Blocks\<close>

type_synonym block = "nat \<times> bool \<times> u32"

fun total :: "block list \<Rightarrow> nat" where
  "total [] = 0"
| "total ((l, u, p) # bs) = l + total bs"

fun seg :: "bytes \<Rightarrow> u32 \<Rightarrow> block list \<Rightarrow> u32 \<Rightarrow> bool" where
  "seg m a [] e = True"
| "seg m a ((l, u, p) # bs) e =
     (header m a = (p, (if bs = [] then e else a + of_nat l), hword l u) \<and>
      seg m (a + of_nat l) bs e)"

text \<open>Blocks that hold at least their header and end below \<open>2\<^sup>3\<^sup>2\<close>.\<close>

definition blocks_ok :: "u32 \<Rightarrow> block list \<Rightarrow> bool" where
  "blocks_ok a bs \<longleftrightarrow> (\<forall>(l, u, p) \<in> set bs. 12 \<le> l \<and> l < 2147483648) \<and>
     unat a + total bs < 4294967296"

text \<open>The address after the blocks \<open>bs\<close>, and the address of the last of them (\<open>z\<close> if none).\<close>

definition past :: "u32 \<Rightarrow> block list \<Rightarrow> u32" where
  "past a bs = a + of_nat (total bs)"

fun last_addr :: "u32 \<Rightarrow> u32 \<Rightarrow> block list \<Rightarrow> u32" where
  "last_addr a z [] = z"
| "last_addr a z ((l, u, p) # bs) = last_addr (a + of_nat l) a bs"

text \<open>The blocks with the \<open>prev\<close> pointers a correct list has.\<close>

fun linked :: "u32 \<Rightarrow> u32 \<Rightarrow> (nat \<times> bool) list \<Rightarrow> block list" where
  "linked z a [] = []"
| "linked z a ((l, u) # bs) = (l, u, z) # linked a (a + of_nat l) bs"

definition plain :: "block list \<Rightarrow> (nat \<times> bool) list" where
  "plain bs = map (\<lambda>(l, u, p). (l, u)) bs"

lemma total_append [simp]: "total (xs @ ys) = total xs + total ys"
  by (induction xs rule: total.induct) auto

lemma past_simps [simp]:
  "past a [] = a" "past a ((l, u, p) # bs) = past (a + of_nat l) bs"
  "past a (xs @ ys) = past (past a xs) ys"
  by (simp_all add: past_def algebra_simps)

lemma blocks_ok_Cons [simp]:
  "blocks_ok a ((l, u, p) # bs) \<longleftrightarrow> 12 \<le> l \<and> l < 2147483648 \<and> unat a + l < 4294967296 \<and>
     blocks_ok (a + of_nat l) bs"
  unfolding blocks_ok_def by (auto simp: unat_plus_of_nat_small)

lemma blocks_ok_Nil [simp]: "blocks_ok a []"
  by (simp add: blocks_ok_def)

lemma unat_past: "blocks_ok a bs \<Longrightarrow> unat (past a bs) = unat a + total bs"
  by (simp add: blocks_ok_def past_def unat_plus_of_nat_small)

lemma blocks_ok_append [simp]:
  "blocks_ok a (xs @ ys) \<longleftrightarrow> blocks_ok a xs \<and> blocks_ok (past a xs) ys"
  by (induction xs arbitrary: a rule: total.induct) auto

lemma seg_append:
  "seg m a (xs @ ys) e \<longleftrightarrow> seg m a xs (if ys = [] then e else past a xs) \<and> seg m (past a xs) ys e"
  by (induction xs arbitrary: a rule: total.induct) auto

text \<open>A segment depends on the bytes it covers.\<close>

lemma seg_cong:
  assumes "blocks_ok a bs"
    and "\<And>x. unat a \<le> unat x \<Longrightarrow> unat x < unat a + total bs \<Longrightarrow> m x = m' x"
  shows "seg m a bs e = seg m' a bs e"
  using assms
proof (induction bs arbitrary: a rule: total.induct)
  case 1
  then show ?case by simp
next
  case (2 l u p bs)
  have l: "unat (a + of_nat l) = unat a + l" using 2(2) by (simp add: unat_plus_of_nat_small)
  have "header m a = header m' a"
  proof (rule header_cong)
    fix i :: nat
    assume i: "i < 12"
    then have "unat (a + of_nat i) = unat a + i"
      using 2(2) by (intro unat_plus_of_nat_small) simp
    then show "m (a + of_nat i) = m' (a + of_nat i)"
      using 2(2) i by (intro 2(3)) simp_all
  qed
  moreover have "seg m (a + of_nat l) bs e = seg m' (a + of_nat l) bs e"
    using 2(2,3) l by (intro 2(1)) simp_all
  ultimately show ?case by simp
qed

text \<open>The last pointer of a segment is the only one that depends on what follows.\<close>

lemma last_addr_append [simp]:
  "last_addr a z (xs @ (l, u, p) # ys) = last_addr (past a xs + of_nat l) (past a xs) ys"
  by (induction xs arbitrary: a z rule: total.induct) auto

lemma linked_append:
  "linked z a (xs @ ys) = linked z a xs @ linked (last_addr a z (linked z a xs)) (past a (linked z a xs)) ys"
  by (induction xs arbitrary: a z) auto

lemma plain_linked [simp]: "plain (linked z a bs) = bs"
  by (induction z a bs rule: linked.induct) (simp_all add: plain_def)

lemma linked_Nil_iff [simp]: "linked z a bs = [] \<longleftrightarrow> bs = []" "[] = linked z a bs \<longleftrightarrow> bs = []"
  by (cases bs; auto)+

lemma total_linked [simp]: "total (linked z a bs) = sum_list (map fst bs)"
  by (induction z a bs rule: linked.induct) simp_all


section \<open>Header accesses on mapped headers\<close>

lemma header_access:
  assumes "mapped st c 12"
  shows "hprev c st = Inr (fst (header (mem st) c))"
    and "hnext c st = Inr (fst (snd (header (mem st) c)))"
    and "read32 (c + 8) st = Inr (snd (snd (header (mem st) c)))"
    and "hallocated c st = Inr (get_allocated (snd (snd (header (mem st) c))))"
    and "hlength c st = Inr (get_length (snd (snd (header (mem st) c))))"
    and "set_hprev c v st = Inr (st\<lparr>mem := store32 (mem st) c v\<rparr>)"
    and "set_hnext c v st = Inr (st\<lparr>mem := store32 (mem st) (c + 4) v\<rparr>)"
    and "set_hallocated c v st = Inr (st\<lparr>mem := store32 (mem st) (c + 8)
      (put_allocated (snd (snd (header (mem st) c))) v)\<rparr>)"
    and "set_hlength c l st = Inr (st\<lparr>mem := store32 (mem st) (c + 8)
      (put_length (snd (snd (header (mem st) c))) l)\<rparr>)"
  using mapped_access [OF assms, of 0] mapped_access [OF assms, of 4] mapped_access [OF assms, of 8]
  by (simp_all add: hprev_def hnext_def hallocated_def hlength_def set_hprev_def set_hnext_def
      set_hallocated_def set_hlength_def header_def)

lemma header_stored:
  assumes "unat c + 12 \<le> 4294967296"
  shows "header (store32 m c v) c = (v, snd (header m c))"
    and "header (store32 m (c + 4) v) c = (fst (header m c), v, snd (snd (header m c)))"
    and "header (store32 m (c + 8) v) c = (fst (header m c), fst (snd (header m c)), v)"
  using header_store [OF assms, of m "fst (header m c)" "fst (snd (header m c))" "snd (snd (header m c))"]
  by simp_all

text \<open>The state after a run of stores, as the memory after them.\<close>

lemma mem_exI: "P m \<Longrightarrow> \<exists>m'. st\<lparr>mem := m\<rparr> = st\<lparr>mem := m'\<rparr> \<and> P m'"
  by blast

section \<open>The heap invariant\<close>

text \<open>
  \<open>heap_ok bs st\<close>: the memory from \<open>HEAP_START\<close> holds exactly the blocks \<open>bs\<close>, on as many pages
  as they need.
\<close>

definition heap_ok :: "block list \<Rightarrow> 'a heap_state_scheme \<Rightarrow> bool" where
  "heap_ok bs st \<longleftrightarrow> pages_ok (page_count (total bs)) st \<and> blocks_ok 0xE0000000 bs \<and>
     total bs \<le> 0x1FFFF000 \<and> heap_first st = (if bs = [] then 0 else HEAP_START) \<and>
     seg (mem st) 0xE0000000 bs 0"

text \<open>The bytes inside the allocated blocks, their headers left out.\<close>

fun in_use :: "u32 \<Rightarrow> block list \<Rightarrow> u32 \<Rightarrow> bool" where
  "in_use a [] x = False"
| "in_use a ((l, u, p) # bs) x =
     ((u \<and> unat a + 12 \<le> unat x \<and> unat x < unat a + l) \<or> in_use (a + of_nat l) bs x)"

lemma in_use_append [simp]:
  "in_use a (xs @ ys) x \<longleftrightarrow> in_use a xs x \<or> in_use (past a xs) ys x"
  by (induction xs arbitrary: a rule: total.induct) auto

lemma in_use_bounds:
  assumes "blocks_ok a bs" and "in_use a bs x"
  shows "unat a + 12 \<le> unat x \<and> unat x < unat a + total bs"
  using assms
proof (induction bs arbitrary: a rule: total.induct)
  case (2 l u p bs)
  then have "unat (a + of_nat l) = unat a + l" by (simp add: unat_plus_of_nat_small)
  with 2 show ?case by fastforce
qed simp

lemma block_mapped:
  assumes "heap_ok (xs @ (l, u, p) # ys) st"
  shows "mapped st (past 0xE0000000 xs) l"
    and "unat (past 0xE0000000 xs) = 0xE0000000 + total xs"
    and "12 \<le> l" and "total xs + l + total ys \<le> 0x1FFFF000"
    and "header (mem st) (past 0xE0000000 xs) =
      (p, if ys = [] then 0 else past 0xE0000000 xs + of_nat l, hword l u)"
proof -
  have b: "blocks_ok 0xE0000000 (xs @ (l, u, p) # ys)"
    and s: "seg (mem st) 0xE0000000 (xs @ (l, u, p) # ys) 0"
    and t: "total (xs @ (l, u, p) # ys) \<le> 0x1FFFF000"
    and pg: "pages_ok (page_count (total (xs @ (l, u, p) # ys))) st"
    using assms by (simp_all only: heap_ok_def)
  show u: "unat (past 0xE0000000 xs) = 0xE0000000 + total xs"
    using b unat_past [of "0xE0000000" xs] by simp
  show "12 \<le> l" and "total xs + l + total ys \<le> 0x1FFFF000" using b t by simp_all
  show "header (mem st) (past 0xE0000000 xs) =
      (p, if ys = [] then 0 else past 0xE0000000 xs + of_nat l, hword l u)"
    using s by (simp add: seg_append)
  have "total (xs @ (l, u, p) # ys) \<le> 4096 * page_count (total (xs @ (l, u, p) # ys))"
    using page_count_le_iff by blast
  then show "mapped st (past 0xE0000000 xs) l"
    using u by (intro pages_mapped [OF pg]) simp_all
qed

text \<open>Adjacent blocks have headers apart.\<close>

lemma apart_blocks:
  assumes "blocks_ok 0xE0000000 (xs @ b # ys @ c # zs)"
  shows "apart (past 0xE0000000 xs) 12 (past 0xE0000000 (xs @ b # ys)) 12"
proof -
  obtain l u p where b: "b = (l, u, p)" by (cases b)
  obtain k v q where c: "c = (k, v, q)" by (cases c)
  have "unat (past 0xE0000000 xs) = 0xE0000000 + total xs"
    using assms unat_past [of "0xE0000000" xs] by simp
  moreover have "unat (past 0xE0000000 (xs @ b # ys)) = 0xE0000000 + total (xs @ b # ys)"
    using assms unat_past [of "0xE0000000" "xs @ b # ys"] by (simp add: b)
  moreover have "12 \<le> l" "unat (past 0xE0000000 (xs @ b # ys)) + k < 4294967296" "12 \<le> k"
    using assms by (simp_all add: b c)
  ultimately show ?thesis by (simp add: apart_def b)
qed


text \<open>Replacing some blocks in the middle by others of the same extent.\<close>

lemma heap_ok_replace:
  assumes ok: "heap_ok (xs @ mid @ ys) st" and ne: "mid \<noteq> []" "mid' \<noteq> []"
    and t: "total mid' = total mid" and b: "blocks_ok (past 0xE0000000 xs) mid'"
    and s: "seg m' (past 0xE0000000 xs) mid' (if ys = [] then 0 else past (past 0xE0000000 xs) mid)"
    and out: "\<And>x. \<not> (0xE0000000 + total xs \<le> unat x \<and> unat x < 0xE0000000 + total xs + total mid) \<Longrightarrow>
      m' x = mem st x"
  shows "heap_ok (xs @ mid' @ ys) (st\<lparr>mem := m'\<rparr>)"
proof -
  have old: "blocks_ok 0xE0000000 xs" "blocks_ok (past 0xE0000000 xs) mid"
    "blocks_ok (past (past 0xE0000000 xs) mid) ys" "seg (mem st) 0xE0000000 (xs @ mid @ ys) 0"
    using ok by (simp_all add: heap_ok_def)
  have p: "past a mid' = past a mid" for a by (simp add: past_def t)
  have u: "unat (past 0xE0000000 xs) = 0xE0000000 + total xs"
    "unat (past (past 0xE0000000 xs) mid) = 0xE0000000 + total xs + total mid"
    using unat_past [OF old(1)] unat_past [OF old(2)] by simp_all
  have "seg m' 0xE0000000 xs e = seg (mem st) 0xE0000000 xs e" for e
    using old(1) by (intro seg_cong out) auto
  moreover have "seg m' (past (past 0xE0000000 xs) mid) ys e =
      seg (mem st) (past (past 0xE0000000 xs) mid) ys e" for e
    using old(3) u by (intro seg_cong out) auto
  ultimately have "seg m' 0xE0000000 (xs @ mid' @ ys) 0"
    using old(4) s ne by (cases "ys = []") (simp_all add: seg_append p)
  then show ?thesis
    using ok b old t ne by (simp add: heap_ok_def p)
qed


text \<open>What every heap operation leaves alone.\<close>

definition heap_frame :: "'a heap_state_scheme \<Rightarrow> 'a heap_state_scheme \<Rightarrow> bool" where
  "heap_frame st st' \<longleftrightarrow> cr3 st' = cr3 st \<and> pgd_kern st' = pgd_kern st \<and>
     pte_kern st' = pte_kern st \<and> phy_page_count st' = phy_page_count st \<and>
     heap_state.more st' = heap_state.more st \<and>
     (\<forall>x. unat x < 0xE0000000 \<longrightarrow> mem st' x = mem st x) \<and>
     (\<forall>x. unat x < 0xE0000000 \<longrightarrow> walk st' (pgd_kern st) x = walk st (pgd_kern st) x)"

lemma heap_frame_refl [simp]: "heap_frame st st"
  by (simp add: heap_frame_def)

lemma heap_frame_trans: "heap_frame s t \<Longrightarrow> heap_frame t u \<Longrightarrow> heap_frame s u"
  by (simp add: heap_frame_def)

lemma heap_frame_same: "heap_same n st st' \<Longrightarrow> heap_frame st st'"
  by (auto simp: heap_frame_def heap_same_def)

lemma heap_frame_mem:
  "(\<And>x. unat x < 0xE0000000 \<Longrightarrow> m x = mem st x) \<Longrightarrow> heap_frame st (st\<lparr>mem := m\<rparr>)"
  "heap_frame st (st\<lparr>heap_first := h\<rparr>)"
  by (auto simp: heap_frame_def walk_def)

end
