(* ===== verification/Heap_Alloc.thy ===== *)
theory Heap_Alloc
  imports Heap_Rep
begin

text \<open>
  \<^verbatim>\<open>kmalloc\<close> implements first fit on the list of blocks: \<open>heap_alloc\<close> is the specification,
  \<open>kmalloc_refines\<close> the refinement.
\<close>

section \<open>The specification\<close>

text \<open>The first free block of at least \<open>n\<close> bytes, with the blocks before and after it.\<close>

fun fit :: "nat \<Rightarrow> block list \<Rightarrow> (block list \<times> nat \<times> u32 \<times> block list) option" where
  "fit n [] = None"
| "fit n ((l, u, p) # bs) =
     (if \<not> u \<and> n \<le> l then Some ([], l, p, bs)
      else map_option (\<lambda>(xs, r). ((l, u, p) # xs, r)) (fit n bs))"

text \<open>The block at \<open>c\<close>, taken whole or split. The block behind it keeps its \<open>prev\<close> pointer.\<close>

definition occupy :: "nat \<Rightarrow> u32 \<Rightarrow> nat \<Rightarrow> u32 \<Rightarrow> block list" where
  "occupy n c l p = (if 12 < l - n then [(n, True, p), (l - n, False, c)] else [(l, True, p)])"

definition heap_alloc :: "nat \<Rightarrow> block list \<Rightarrow> u32 \<times> block list" where
  "heap_alloc n bs = (case fit n bs of
     Some (xs, l, p, ys) \<Rightarrow>
       (past HEAP_START xs, xs @ occupy n (past HEAP_START xs) l p @ ys)
   | None \<Rightarrow> (past HEAP_START bs, bs @ [(n, True, last_addr HEAP_START 0 bs)]))"

lemma fit_Some:
  "fit n bs = Some (xs, l, p, ys) \<Longrightarrow> bs = xs @ (l, False, p) # ys \<and> n \<le> l"
  by (induction bs arbitrary: xs rule: total.induct) (auto split: if_splits)

section \<open>The search\<close>

lemma kmalloc_find_seg:
  assumes "blocks_ok a bs" and "seg (mem st) a bs 0" and "mapped st a (total bs)" and "a \<noteq> 0"
  shows "kmalloc_find n (if bs = [] then 0 else a) z st = Some (Inr (case fit (unat n) bs of
      None \<Rightarrow> (0, last_addr a z bs)
    | Some (xs, l, p, ys) \<Rightarrow> (past a xs, last_addr a z xs)))"
  using assms
proof (induction bs arbitrary: a z rule: total.induct)
  case 1
  then show ?case by (subst kmalloc_find.simps) simp
next
  case (2 l u p bs)
  have l: "12 \<le> l" "l < 2147483648" "unat a + l < 4294967296" using 2(2) by simp_all
  then have m: "mapped st a 12"
    using 2(4) by (elim mapped_sub) simp_all
  have h: "header (mem st) a = (p, if bs = [] then 0 else a + of_nat l, hword l u)"
    using 2(3) by simp
  have le: "n \<le> of_nat l \<longleftrightarrow> unat n \<le> l"
    using l by (simp add: word_le_nat_alt unat_of_nat_u32)
  have ne: "a + of_nat l \<noteq> 0"
    using l unat_plus_of_nat_small [of a l] by (auto simp flip: unat_eq_0)
  have "mapped st (a + of_nat l) (total bs)"
    using 2(4) l(3) by (elim mapped_sub) (simp_all add: unat_plus_of_nat_small)
  note IH = 2(1) [OF _ _ this ne, of a]
  show ?case
  proof (cases "\<not> u \<and> unat n \<le> l")
    case True
    then show ?thesis
      using h le l \<open>a \<noteq> 0\<close> by (subst kmalloc_find.simps) (simp add: header_access [OF m])
  next
    case False
    have "kmalloc_find n a z st = kmalloc_find n (if bs = [] then 0 else a + of_nat l) a st"
      using h le l False \<open>a \<noteq> 0\<close>
      by (subst kmalloc_find.simps) (auto simp: header_access [OF m])
    then show ?thesis
      using IH 2(2,3) False by (auto simp: split: option.splits)
  qed
qed

section \<open>Taking a free block\<close>

lemma kmalloc_take_split:
  fixes st :: "'a heap_state_scheme"
  assumes m: "mapped st c 12" "mapped st d 12" and d: "c + n = d" "apart c 12 d 12"
    and h: "header (mem st) c = (p, nx, hword l False)" and n: "unat n < l" "12 < l - unat n"
    and l: "l < 2147483648"
  shows "\<exists>m'. kmalloc_take n c st = Inr (c + 12, st\<lparr>mem := m'\<rparr>) \<and>
    header m' c = (p, d, hword (unat n) True) \<and> header m' d = (c, nx, hword (l - unat n) False) \<and>
    (\<forall>x. \<not> in_header c x \<and> \<not> in_header d x \<longrightarrow> m' x = mem st x)"
proof -
  have nw: "unat c + 12 \<le> 4294967296" "unat d + 12 \<le> 4294967296"
    using m by (simp_all add: mapped_def)
  have dc: "apart d 12 c 12" using d(2) apart_sym by simp
  have len: "(of_nat l :: u32) - n = of_nat (l - unat n)"
    using n(1) by simp
  have ul: "unat (of_nat l - n) = l - unat n"
    using n(1) l by (subst unat_minus_small) (simp_all add: word_le_nat_alt unat_of_nat_u32)
  have "12 < of_nat l - n"
    using n(2) unfolding word_less_nat_alt ul by simp
  let ?m = "store32 (store32 (store32 (store32 (store32 (store32 (store32 (mem st) d c) (d + 4) nx)
      (d + 8) (put_allocated (snd (snd (header (mem st) d))) 0)) (d + 8) (hword (l - unat n) False))
      (c + 4) d) (c + 8) (hword (unat n) False)) (c + 8) (hword (unat n) True)"
  from \<open>12 < of_nat l - n\<close>
  have "kmalloc_take n c st = Inr (c + 12, st\<lparr>mem := m'\<rparr>) \<longleftrightarrow> st\<lparr>mem := ?m\<rparr> = st\<lparr>mem := m'\<rparr>"
    for m'
    using h l by (simp add: kmalloc_take_def split_chunk_def header_access m d(1) Let_def
        header_stored nw header_store_apart [OF d(2)] header_store_apart [OF dc] ul)
  moreover have "header ?m c = (p, d, hword (unat n) True) \<and>
      header ?m d = (c, nx, hword (l - unat n) False) \<and>
      (\<forall>x. \<not> in_header c x \<and> \<not> in_header d x \<longrightarrow> ?m x = mem st x)"
    using h by (simp add: header_stored nw header_store_apart [OF d(2)] header_store_apart [OF dc]
        store32_outside)
  ultimately show ?thesis using mem_exI by simp
qed

lemma kmalloc_take_whole:
  fixes st :: "'a heap_state_scheme"
  assumes m: "mapped st c 12" and h: "header (mem st) c = (p, nx, hword l False)"
    and n: "unat n \<le> l" "\<not> 12 < l - unat n" and l: "l < 2147483648"
  shows "\<exists>m'. kmalloc_take n c st = Inr (c + 12, st\<lparr>mem := m'\<rparr>) \<and>
    header m' c = (p, nx, hword l True) \<and> (\<forall>x. \<not> in_header c x \<longrightarrow> m' x = mem st x)"
proof -
  have nw: "unat c + 12 \<le> 4294967296" using m by (simp add: mapped_def)
  have ul: "unat (of_nat l - n) = l - unat n"
    using n(1) l by (subst unat_minus_small) (simp_all add: word_le_nat_alt unat_of_nat_u32)
  have "\<not> 12 < of_nat l - n"
    using n(2) unfolding word_less_nat_alt ul by simp
  then show ?thesis
    using h l by (simp add: kmalloc_take_def split_chunk_def header_access m)
      (intro mem_exI, simp add: header_stored nw store32_outside)
qed


lemma kmalloc_take_ok:
  fixes st :: "'a heap_state_scheme"
  assumes ok: "heap_ok (xs @ (l, False, p) # ys) st" and n: "12 \<le> unat n" "unat n \<le> l"
  shows "\<exists>m'. kmalloc_take n (past 0xE0000000 xs) st = Inr (past 0xE0000000 xs + 12, st\<lparr>mem := m'\<rparr>) \<and>
    heap_ok (xs @ occupy (unat n) (past 0xE0000000 xs) l p @ ys) (st\<lparr>mem := m'\<rparr>) \<and>
    heap_frame st (st\<lparr>mem := m'\<rparr>) \<and>
    (\<forall>x. in_use 0xE0000000 (xs @ (l, False, p) # ys) x \<longrightarrow> m' x = mem st x)"
proof -
  let ?c = "past 0xE0000000 xs" and ?nx = "if ys = [] then 0 else past 0xE0000000 xs + of_nat l"
  note B = block_mapped [OF ok]
  have l: "12 \<le> l" "l < 2147483648" "unat ?c + l < 4294967296" "total xs + l \<le> 0x1FFFF000"
    using B by simp_all
  have bx: "blocks_ok 0xE0000000 xs" "blocks_ok (?c + of_nat l) ys"
    using ok by (simp_all add: heap_ok_def)
  have uy: "unat (?c + of_nat l) = unat ?c + l" using l by (simp add: unat_plus_of_nat_small)
  have free: "unat x < unat ?c \<or> unat ?c + l + 12 \<le> unat x"
    if "in_use 0xE0000000 (xs @ (l, False, p) # ys) x" for x
    using that in_use_bounds [OF bx(1), of x] in_use_bounds [OF bx(2), of x] B(2) uy by auto
  have mc: "mapped st ?c 12" using B(1) l by (elim mapped_sub) simp_all
  have h: "header (mem st) ?c = (p, ?nx, hword l False)" by (rule B(5))
  have ok': "heap_ok (xs @ [(l, False, p)] @ ys) st" using ok by simp
  show ?thesis
  proof (cases "12 < l - unat n")
    case True
    let ?d = "?c + n"
    have lt: "unat n < l" using True by simp
    have d: "unat ?d = unat ?c + unat n" using n l by (intro unat_plus_small) simp
    have ap: "apart ?c 12 ?d 12" using n l True d by (simp add: apart_def)
    have md: "mapped st ?d 12" using B(1) True d by (elim mapped_sub) simp_all
    obtain m' where m': "kmalloc_take n ?c st = Inr (?c + 12, st\<lparr>mem := m'\<rparr>)"
      "header m' ?c = (p, ?d, hword (unat n) True)" "header m' ?d = (?c, ?nx, hword (l - unat n) False)"
      "\<And>x. \<not> in_header ?c x \<Longrightarrow> \<not> in_header ?d x \<Longrightarrow> m' x = mem st x"
      using kmalloc_take_split [OF mc md refl ap h lt True l(2)] by blast
    have e: "?d + of_nat (l - unat n) = ?c + of_nat l" using n by simp
    have "heap_ok (xs @ [(unat n, True, p), (l - unat n, False, ?c)] @ ys) (st\<lparr>mem := m'\<rparr>)"
    proof (rule heap_ok_replace [OF ok'])
      show "seg m' ?c [(unat n, True, p), (l - unat n, False, ?c)]
          (if ys = [] then 0 else past ?c [(l, False, p)])"
        using m'(2,3) by simp
      show "blocks_ok ?c [(unat n, True, p), (l - unat n, False, ?c)]"
        using n l True d by simp
      show "m' x = mem st x"
        if "\<not> (0xE0000000 + total xs \<le> unat x \<and> unat x < 0xE0000000 + total xs + total [(l, False, p)])"
        for x
        using that d n True B(2) l by (intro m'(4)) (auto simp: in_header_def)
    qed (use n in simp_all)
    moreover have "m' x = mem st x" if "in_use 0xE0000000 (xs @ (l, False, p) # ys) x" for x
      using free [OF that] d True l by (intro m'(4)) (auto simp: in_header_def)
    moreover have "heap_frame st (st\<lparr>mem := m'\<rparr>)"
      using B(2) d by (intro heap_frame_mem m'(4)) (auto simp: in_header_def)
    ultimately show ?thesis using m'(1) True by (auto simp: occupy_def)
  next
    case False
    obtain m' where m': "kmalloc_take n ?c st = Inr (?c + 12, st\<lparr>mem := m'\<rparr>)"
      "header m' ?c = (p, ?nx, hword l True)" "\<And>x. \<not> in_header ?c x \<Longrightarrow> m' x = mem st x"
      using kmalloc_take_whole [OF mc h n(2) False l(2)] by auto
    have "heap_ok (xs @ [(l, True, p)] @ ys) (st\<lparr>mem := m'\<rparr>)"
    proof (rule heap_ok_replace [OF ok'])
      show "m' x = mem st x"
        if "\<not> (0xE0000000 + total xs \<le> unat x \<and> unat x < 0xE0000000 + total xs + total [(l, False, p)])"
        for x
        using that B(2) l by (intro m'(3)) (auto simp: in_header_def)
    qed (use m'(2) l in simp_all)
    moreover have "m' x = mem st x" if "in_use 0xE0000000 (xs @ (l, False, p) # ys) x" for x
      using free [OF that] l by (intro m'(3)) (auto simp: in_header_def)
    moreover have "heap_frame st (st\<lparr>mem := m'\<rparr>)"
      using B(2) by (intro heap_frame_mem m'(3)) (auto simp: in_header_def)
    ultimately show ?thesis using m'(1) False by (auto simp: occupy_def)
  qed
qed

section \<open>Extending the heap\<close>

lemma hlength_last:
  assumes "heap_ok (xs @ [(l, u, p)]) st"
  shows "hlength (past 0xE0000000 xs) st = Inr (of_nat l)"
proof -
  note B = block_mapped [OF assms]
  have "mapped st (past 0xE0000000 xs) 12" using B(1,3) by (elim mapped_sub) simp_all
  then show ?thesis using B by (simp add: header_access)
qed

text \<open>The stores that make the new block, in a state whose pages are there already.\<close>

lemma new_block:
  fixes st :: "'a heap_state_scheme"
  assumes m: "mapped st c 12"
  shows "\<exists>m'. bindE (set_hprev c z st) (\<lambda>st. bindE (set_hnext c 0 st) (\<lambda>st.
      bindE (set_hallocated c 1 st) (set_hlength c n))) = Inr (st\<lparr>mem := m'\<rparr>) \<and>
    header m' c = (z, 0, hword (unat n) True) \<and> (\<forall>x. \<not> in_header c x \<longrightarrow> m' x = mem st x)"
proof -
  have nw: "unat c + 12 \<le> 4294967296" using m by (simp add: mapped_def)
  show ?thesis
    by (simp add: header_access m header_stored nw)
      (intro mem_exI, simp add: header_stored nw store32_outside)
qed


lemma kmalloc_extend_tail:
  fixes st :: "'a heap_state_scheme"
  assumes m: "mapped st c 12" and z: "z \<noteq> 0 \<Longrightarrow> mapped st z 12 \<and> apart z 12 c 12"
    and al: "alloc_chunk c n st0 = Inr st"
    and c: "if z = 0 then c = HEAP_START \<and> st0 = st1\<lparr>heap_first := HEAP_START\<rparr>
      else st0 = st1 \<and> (\<exists>l. hlength z st1 = Inr l \<and> c = z + l)"
  shows "\<exists>m'. kmalloc_extend n z st1 = Inr (c + 12, st\<lparr>mem := m'\<rparr>) \<and>
    header m' c = (z, 0, hword (unat n) True) \<and>
    (z \<noteq> 0 \<longrightarrow> header m' z = (fst (header (mem st) z), c, snd (snd (header (mem st) z)))) \<and>
    (\<forall>x. \<not> in_header c x \<longrightarrow> z = 0 \<or> \<not> in_header z x \<longrightarrow> m' x = mem st x)"
proof -
  obtain m1 where m1: "bindE (set_hprev c z st) (\<lambda>st. bindE (set_hnext c 0 st) (\<lambda>st.
      bindE (set_hallocated c 1 st) (set_hlength c n))) = Inr (st\<lparr>mem := m1\<rparr>)"
    "header m1 c = (z, 0, hword (unat n) True)" "\<And>x. \<not> in_header c x \<Longrightarrow> m1 x = mem st x"
    using new_block [OF m, of z n] by blast
  have e: "kmalloc_extend n z st1 =
      bindE (if z \<noteq> 0 then set_hnext z c (st\<lparr>mem := m1\<rparr>) else Inr (st\<lparr>mem := m1\<rparr>)) (\<lambda>st. Inr (c + 12, st))"
  proof -
    have "kmalloc_extend n z st1 = bindE (bindE (set_hprev c z st) (\<lambda>st. bindE (set_hnext c 0 st) (\<lambda>st.
        bindE (set_hallocated c 1 st) (set_hlength c n))))
        (\<lambda>st. bindE (if z \<noteq> 0 then set_hnext z c st else Inr st) (\<lambda>st. Inr (c + 12, st)))"
    proof -
      have "(if z \<noteq> 0 then bindE (hlength z st1) (\<lambda>l. Inr (z + l, st1))
            else Inr (HEAP_START, st1\<lparr>heap_first := HEAP_START\<rparr>)) = Inr (c, st0)"
        using c by (cases "z = 0") auto
      then show ?thesis
        by (simp only: kmalloc_extend_def bindE_simps prod.case al bindE_assoc HEADER_SIZE_def)
    qed
    then show ?thesis by (simp add: m1(1))
  qed
  show ?thesis
  proof (cases "z = 0")
    case True
    with e have "kmalloc_extend n z st1 = Inr (c + 12, st\<lparr>mem := m1\<rparr>)" by simp
    with m1(2,3) True show ?thesis by blast
  next
    case False
    note z = z [OF False]
    then have nw: "unat z + 12 \<le> 4294967296" by (simp add: mapped_def)
    have same: "header m1 z = header (mem st) z"
    proof (rule header_cong)
      fix i :: nat
      assume "i < 12"
      moreover from this have "unat (z + of_nat i) = unat z + i"
        using nw by (intro unat_plus_of_nat_small) simp
      ultimately show "m1 (z + of_nat i) = mem st (z + of_nat i)"
        using z by (intro m1(3)) (auto simp: in_header_def apart_def)
    qed
    let ?m = "store32 m1 (z + 4) c"
    have "set_hnext z c (st\<lparr>mem := m1\<rparr>) = Inr (st\<lparr>mem := ?m\<rparr>)"
      using z by (simp add: header_access)
    then have "kmalloc_extend n z st1 = Inr (c + 12, st\<lparr>mem := ?m\<rparr>)"
      using e False by simp
    moreover have "header ?m c = (z, 0, hword (unat n) True)"
      using header_store_apart(2) [OF conjunct2 [OF z], of m1 c] m1(2) by simp
    moreover have "header ?m z = (fst (header (mem st) z), c, snd (snd (header (mem st) z)))"
      by (simp add: header_stored nw same)
    moreover have "?m x = mem st x" if "\<not> in_header c x" "\<not> in_header z x" for x
      using that m1(3) by (simp add: store32_outside nw)
    ultimately show ?thesis using False by (intro exI [of _ ?m]) simp
  qed
qed


lemma kmalloc_extend_ok:
  fixes st :: "'a heap_state_scheme"
  assumes ok: "heap_ok bs st" and n: "12 \<le> unat n" "total bs + unat n \<le> 0x1FFFF000"
  defines "z \<equiv> last_addr 0xE0000000 0 bs"
  shows "(case kmalloc_extend n z st of
      Inl e \<Rightarrow> e = Panic ''out of memory'' \<and> length (free_pages st) <
        2 * (page_count (total bs + unat n) - page_count (total bs))
    | Inr (a, st') \<Rightarrow> a = past 0xE0000000 bs + 12 \<and> heap_ok (bs @ [(unat n, True, z)]) st' \<and>
        heap_frame st st' \<and>
        owned st' (page_count (total bs + unat n)) = owned st (page_count (total bs)) \<and>
        (\<forall>x. in_use 0xE0000000 bs x \<longrightarrow> mem st' x = mem st x))"
proof -
  let ?c = "past 0xE0000000 bs" and ?N = "page_count (total bs)"
  let ?M = "page_count (total bs + unat n)"
  define st0 where "st0 = (if bs = [] then st\<lparr>heap_first := HEAP_START\<rparr> else st)"
  have b: "blocks_ok 0xE0000000 bs" and pg: "pages_ok ?N st" and sg: "seg (mem st) 0xE0000000 bs 0"
    using ok by (simp_all add: heap_ok_def)
  have st0: "pages_ok ?N st0" "mem st0 = mem st" "owned st0 ?N = owned st ?N"
    "heap_frame st st0" "heap_first st0 = HEAP_START" "free_pages st0 = free_pages st"
    using pg ok by (auto simp: st0_def heap_frame_mem heap_ok_def free_pages_def)
  have uc: "unat ?c = 0xE0000000 + total bs" using unat_past [OF b] by simp
  have ucn: "unat (?c + n) = 0xE0000000 + (total bs + unat n)"
    using uc n by (subst unat_plus_small) simp_all
  have mx: "max ?N ?M = ?M" using page_count_mono by (simp add: max_def)
  note R = alloc_chunk_result [OF st0(1) ucn n(2), unfolded mx st0]
  have c: "if z = 0 then ?c = HEAP_START \<and> st0 = st\<lparr>heap_first := HEAP_START\<rparr>
      else st0 = st \<and> (\<exists>l. hlength z st = Inr l \<and> ?c = z + l)"
    and zb: "z \<noteq> 0 \<longleftrightarrow> bs \<noteq> []"
  proof -
    have "z \<noteq> 0 \<and> hlength z st = Inr (of_nat l) \<and> ?c = z + of_nat l" if "bs = xs @ [(l, u, p)]" for xs l u p
      using hlength_last [of xs l u p st] block_mapped(2) [of xs l u p "[]" st] ok that
      by (auto simp: z_def simp flip: unat_eq_0)
    then have *: "bs \<noteq> [] \<Longrightarrow> z \<noteq> 0 \<and> (\<exists>l. hlength z st = Inr l \<and> ?c = z + l)"
      by (cases bs rule: rev_cases) auto
    then show "z \<noteq> 0 \<longleftrightarrow> bs \<noteq> []" by (auto simp: z_def)
    show "if z = 0 then ?c = HEAP_START \<and> st0 = st\<lparr>heap_first := HEAP_START\<rparr>
      else st0 = st \<and> (\<exists>l. hlength z st = Inr l \<and> ?c = z + l)"
      using * by (cases "bs = []") (auto simp: st0_def z_def)
  qed
  show ?thesis
  proof (cases "alloc_chunk ?c n st0")
    case (Inl e)
    have "kmalloc_extend n z st = Inl e"
      using c Inl by (auto simp: kmalloc_extend_def split: if_splits)
    then show ?thesis using R Inl by simp
  next
    case (Inr st1)
    then have st1: "pages_ok ?M st1" "heap_same ?N st0 st1" "owned st1 ?M = owned st ?N"
      using R by simp_all
    have keep: "mem st1 x = mem st x" if "unat x < 0xE0000000 + 4096 * ?N" for x
      using st1(2) that st0(2) by (simp add: heap_same_def)
    have tot: "total bs \<le> 4096 * ?N" "total bs + unat n \<le> 4096 * ?M"
      using page_count_le_iff by blast+
    have mc: "mapped st1 ?c 12"
      using uc tot n by (intro pages_mapped [OF st1(1)]) simp_all
    have zc: "mapped st1 z 12 \<and> apart z 12 ?c 12 \<and> unat z < 0xE0000000 + total bs \<and> 0xE0000000 \<le> unat z"
      if nz: "z \<noteq> 0"
    proof -
      obtain xs l u p where bs: "bs = xs @ [(l, u, p)]"
        using nz zb by (cases bs rule: rev_cases) auto
      note B = block_mapped [of xs l u p "[]" st, folded bs, OF ok]
      have "unat z = 0xE0000000 + total xs" using B(2) by (simp add: z_def bs)
      then show ?thesis
        using B(3) uc tot n by (auto simp: bs apart_def intro!: pages_mapped [OF st1(1)])
    qed
    obtain m' where m': "kmalloc_extend n z st = Inr (?c + 12, st1\<lparr>mem := m'\<rparr>)"
      "header m' ?c = (z, 0, hword (unat n) True)"
      "z \<noteq> 0 \<Longrightarrow> header m' z = (fst (header (mem st1) z), ?c, snd (snd (header (mem st1) z)))"
      "\<And>x. \<not> in_header ?c x \<Longrightarrow> z = 0 \<or> \<not> in_header z x \<Longrightarrow> m' x = mem st1 x"
      using kmalloc_extend_tail [OF mc _ Inr c] zc by blast
    have out: "m' x = mem st x" if "unat x < unat ?c" "z = 0 \<or> \<not> in_header z x" for x
      using m'(4) [of x] that keep [of x] uc tot by (auto simp: in_header_def)
    have "seg m' 0xE0000000 bs ?c"
    proof (cases bs rule: rev_cases)
      case Nil
      then show ?thesis by simp
    next
      case (snoc xs y)
      obtain l u p where bs: "bs = xs @ [(l, u, p)]" using snoc by (cases y) auto
      note B = block_mapped [of xs l u p "[]" st, folded bs, OF ok]
      have z: "z = past 0xE0000000 xs" "z \<noteq> 0" using zb by (simp_all add: z_def bs)
      have "header (mem st1) z = header (mem st) z"
      proof (rule header_cong)
        fix i :: nat
        assume "i < 12"
        then show "mem st1 (z + of_nat i) = mem st (z + of_nat i)"
          using B(2,3) tot bs n by (intro keep) (simp add: z(1) unat_plus_of_nat_small)
      qed
      then have h: "header m' z = (p, ?c, hword l u)" using m'(3) [OF z(2)] B(5) z(1) by simp
      have "seg m' 0xE0000000 xs z = seg (mem st) 0xE0000000 xs z"
        using b B(2) uc z by (intro seg_cong out) (auto simp: bs in_header_def)
      moreover have "seg (mem st) 0xE0000000 xs z" using sg by (simp add: bs seg_append z(1))
      ultimately show ?thesis using h by (simp add: bs seg_append z(1))
    qed
    then have "seg m' 0xE0000000 (bs @ [(unat n, True, z)]) 0"
      using m'(2) by (simp add: seg_append)
    moreover have "heap_first st1 = HEAP_START" using st1(2) st0(5) by (simp add: heap_same_def)
    ultimately have "heap_ok (bs @ [(unat n, True, z)]) (st1\<lparr>mem := m'\<rparr>)"
      using st1(1) b n uc by (simp add: heap_ok_def)
    moreover have "heap_frame st (st1\<lparr>mem := m'\<rparr>)"
    proof -
      have "heap_frame st st1" using st0(4) heap_frame_same [OF st1(2)] heap_frame_trans by blast
      moreover have "heap_frame st1 (st1\<lparr>mem := m'\<rparr>)"
        using uc zc by (intro heap_frame_mem m'(4)) (auto simp: in_header_def)
      ultimately show ?thesis by (rule heap_frame_trans)
    qed
    moreover have "m' x = mem st x" if "in_use 0xE0000000 bs x" for x
    proof (rule out)
      show "unat x < unat ?c" using in_use_bounds [OF b that] uc by simp
      show "z = 0 \<or> \<not> in_header z x"
      proof (cases bs rule: rev_cases)
        case Nil
        then show ?thesis using that by simp
      next
        case (snoc xs y)
        obtain l u p where bs: "bs = xs @ [(l, u, p)]" using snoc by (cases y) auto
        have "blocks_ok 0xE0000000 xs" using b by (simp add: bs)
        from in_use_bounds [OF this, of x] unat_past [OF this] that
        show ?thesis by (auto simp: bs z_def in_header_def)
      qed
    qed
    ultimately show ?thesis using m'(1) st1(3) by simp
  qed
qed


section \<open>The refinement\<close>

lemma kmalloc_refines:
  fixes st :: "'a heap_state_scheme"
  assumes ok: "heap_ok bs st" and n: "unat n + 12 + total bs \<le> 0x1FFFF000"
  shows "(case kmalloc n st of None \<Rightarrow> False
    | Some (Inl e) \<Rightarrow> e = Panic ''out of memory'' \<and> fit (unat n + 12) bs = None \<and>
        length (free_pages st) <
          2 * (page_count (total bs + (unat n + 12)) - page_count (total bs))
    | Some (Inr (a, st')) \<Rightarrow> a = fst (heap_alloc (unat n + 12) bs) + 12 \<and>
        heap_ok (snd (heap_alloc (unat n + 12) bs)) st' \<and> heap_frame st st' \<and>
        owned st' (page_count (total (snd (heap_alloc (unat n + 12) bs)))) =
          owned st (page_count (total bs)) \<and>
        (\<forall>x. in_use 0xE0000000 bs x \<longrightarrow> mem st' x = mem st x))"
proof -
  have b: "blocks_ok 0xE0000000 bs" "pages_ok (page_count (total bs)) st"
    "seg (mem st) 0xE0000000 bs 0" "heap_first st = (if bs = [] then 0 else 0xE0000000)"
    using ok by (simp_all add: heap_ok_def)
  have un: "unat (n + 12) = unat n + 12" using n by (subst unat_plus_small) simp_all
  have "total bs \<le> 4096 * page_count (total bs)" using page_count_le_iff by blast
  then have m: "mapped st 0xE0000000 (total bs)"
    by (intro pages_mapped [OF b(2)]) simp_all
  have find: "kmalloc_find (n + 12) (heap_first st) 0 st = Some (Inr (case fit (unat n + 12) bs of
      None \<Rightarrow> (0, last_addr 0xE0000000 0 bs)
    | Some (xs, l, p, ys) \<Rightarrow> (past 0xE0000000 xs, last_addr 0xE0000000 0 xs)))"
    using kmalloc_find_seg [OF b(1,3) m, of "n + 12" 0] by (simp add: b(4) un)
  show ?thesis
  proof (cases "fit (unat n + 12) bs")
    case None
    then have k: "kmalloc n st = Some (kmalloc_extend (n + 12) (last_addr 0xE0000000 0 bs) st)"
      using find by (simp add: kmalloc_def Let_def)
    have "12 \<le> unat (n + 12)" "total bs + unat (n + 12) \<le> 0x1FFFF000" using n un by simp_all
    from kmalloc_extend_ok [OF ok this] None show ?thesis
      unfolding k un by (auto simp: heap_alloc_def split: sum.splits)
  next
    case (Some r)
    obtain xs l p ys where r: "fit (unat n + 12) bs = Some (xs, l, p, ys)"
      using Some by (cases r) auto
    have bs: "bs = xs @ (l, False, p) # ys" "unat n + 12 \<le> l" using fit_Some [OF r] by simp_all
    have "past 0xE0000000 xs \<noteq> 0"
      using block_mapped(2) [of xs l False p ys st] ok bs(1) by (auto simp flip: unat_eq_0)
    then have k: "kmalloc n st = Some (kmalloc_take (n + 12) (past 0xE0000000 xs) st)"
      using find r by (simp add: kmalloc_def Let_def)
    obtain m' where m': "kmalloc_take (n + 12) (past 0xE0000000 xs) st =
        Inr (past 0xE0000000 xs + 12, st\<lparr>mem := m'\<rparr>)"
      "heap_ok (xs @ occupy (unat n + 12) (past 0xE0000000 xs) l p @ ys) (st\<lparr>mem := m'\<rparr>)"
      "heap_frame st (st\<lparr>mem := m'\<rparr>)"
      "\<And>x. in_use 0xE0000000 (xs @ (l, False, p) # ys) x \<Longrightarrow> m' x = mem st x"
      using kmalloc_take_ok [of xs l p ys st "n + 12"] ok bs un by auto
    have t: "total (xs @ occupy (unat n + 12) (past 0xE0000000 xs) l p @ ys) = total bs"
      using bs by (simp add: occupy_def)
    show ?thesis
      unfolding k m'(1) using m'(2,3,4) t r bs(1) by (simp add: heap_alloc_def)
  qed
qed


text \<open>The bytes the allocation hands out were not in use and are in use afterwards.\<close>

lemma heap_alloc_fresh:
  assumes b: "blocks_ok 0xE0000000 bs" and n: "12 \<le> n" "n + total bs \<le> 0x1FFFF000"
    and x: "unat (fst (heap_alloc n bs)) + 12 \<le> unat x" "unat x < unat (fst (heap_alloc n bs)) + n"
  shows "\<not> in_use 0xE0000000 bs x \<and> in_use 0xE0000000 (snd (heap_alloc n bs)) x"
proof (cases "fit n bs")
  case None
  then have "fst (heap_alloc n bs) = past 0xE0000000 bs" by (simp add: heap_alloc_def)
  with x None in_use_bounds [OF b, of x] unat_past [OF b] show ?thesis
    by (auto simp: heap_alloc_def)
next
  case (Some r)
  obtain xs l p ys where r: "fit n bs = Some (xs, l, p, ys)"
    using Some by (cases r) auto
  have bs: "bs = xs @ (l, False, p) # ys" "n \<le> l" using fit_Some [OF r] by simp_all
  let ?c = "past 0xE0000000 xs"
  have h: "heap_alloc n bs = (?c, xs @ occupy n ?c l p @ ys)" using r by (simp add: heap_alloc_def)
  have bb: "blocks_ok 0xE0000000 xs" "blocks_ok (?c + of_nat l) ys" "unat ?c + l < 4294967296"
    using b by (simp_all add: bs)
  have u: "unat ?c = 0xE0000000 + total xs" "unat (?c + of_nat l) = unat ?c + l"
    using unat_past [OF bb(1)] bb(3) by (simp_all add: unat_plus_of_nat_small)
  have "\<not> in_use 0xE0000000 bs x"
    using in_use_bounds [OF bb(1), of x] in_use_bounds [OF bb(2), of x] x u bs(2) h
    by (auto simp: bs(1))
  moreover have "in_use ?c (occupy n ?c l p) x"
    using x bs(2) h by (auto simp: occupy_def)
  ultimately show ?thesis by (simp add: h)
qed

lemma heap_alloc_addr:
  assumes b: "blocks_ok 0xE0000000 bs"
  shows "unat (fst (heap_alloc n bs)) \<le> 0xE0000000 + total bs"
    and "0xE0000000 \<le> unat (fst (heap_alloc n bs))"
proof -
  have "unat (fst (heap_alloc n bs)) \<le> 0xE0000000 + total bs \<and> 0xE0000000 \<le> unat (fst (heap_alloc n bs))"
  proof (cases "fit n bs")
    case None
    then show ?thesis using unat_past [OF b] by (simp add: heap_alloc_def)
  next
    case (Some r)
    obtain xs l p ys where r: "fit n bs = Some (xs, l, p, ys)"
      using Some by (cases r) auto
    with fit_Some [OF r] b unat_past [of "0xE0000000" xs] show ?thesis by (simp add: heap_alloc_def)
  qed
  then show "unat (fst (heap_alloc n bs)) \<le> 0xE0000000 + total bs"
    and "0xE0000000 \<le> unat (fst (heap_alloc n bs))" by simp_all
qed

lemma kmalloc_fresh:
  fixes st :: "'a heap_state_scheme"
  assumes "heap_ok bs st" and "unat n + 12 + total bs \<le> 0x1FFFF000"
    and "kmalloc n st = Some (Inr (a, st'))"
    and "unat a \<le> unat x" and "unat x < unat a + unat n"
  shows "translate st' x \<noteq> None \<and> \<not> in_use 0xE0000000 bs x \<and>
    in_use 0xE0000000 (snd (heap_alloc (unat n + 12) bs)) x \<and> 0xE0000000 < unat x"
proof -
  let ?bs' = "snd (heap_alloc (unat n + 12) bs)" and ?c = "fst (heap_alloc (unat n + 12) bs)"
  have r: "a = ?c + 12" "heap_ok ?bs' st'"
    using kmalloc_refines [OF assms(1,2)] assms(3) by simp_all
  have b: "blocks_ok 0xE0000000 bs" using assms(1) by (simp add: heap_ok_def)
  have "unat ?c \<le> 0xE0000000 + total bs" by (rule heap_alloc_addr [OF b])
  then have "unat a = unat ?c + 12"
    using assms(2) unfolding r(1) by (subst unat_plus_small) simp_all
  then have f: "\<not> in_use 0xE0000000 bs x \<and> in_use 0xE0000000 ?bs' x"
    using assms(2,4,5) by (intro heap_alloc_fresh [OF b]) simp_all
  have ok': "blocks_ok 0xE0000000 ?bs'" "pages_ok (page_count (total ?bs')) st'"
    using r(2) by (simp_all add: heap_ok_def)
  have "total ?bs' \<le> 4096 * page_count (total ?bs')" using page_count_le_iff by blast
  moreover have x: "0xE0000000 + 12 \<le> unat x" "unat x < 0xE0000000 + total ?bs'"
    using in_use_bounds [OF ok'(1), of x] f by simp_all
  ultimately have "mapped st' 0xE0000000 (total ?bs')"
    by (intro pages_mapped [OF ok'(2)]) simp_all
  then have "translate st' x \<noteq> None" using x by (simp add: mapped_def)
  with f x show ?thesis by simp
qed

section \<open>Properties\<close>

text \<open>C5: \<open>kmalloc\<close> implements first fit. On a well-formed heap, for any request that keeps the
  heap below its last page, it returns (its loop over the list ends): either it panics because
  no block fits and the free pages run out, or the blocks afterwards are those of the
  specification \<open>heap_alloc\<close>, the pointer is 12 bytes into the chosen block, the heap is well
  formed on exactly the pages it needs, no page is lost, nothing outside the heap and no byte of
  an allocated block has changed.\<close>

theorem kmalloc_first_fit:
  fixes st :: "'a heap_state_scheme"
  assumes "heap_ok bs st" and "unat n + 12 + total bs \<le> 0x1FFFF000"
  shows "(case kmalloc n st of None \<Rightarrow> False
    | Some (Inl e) \<Rightarrow> e = Panic ''out of memory'' \<and> fit (unat n + 12) bs = None \<and>
        length (free_pages st) <
          2 * (page_count (total bs + (unat n + 12)) - page_count (total bs))
    | Some (Inr (a, st')) \<Rightarrow> a = fst (heap_alloc (unat n + 12) bs) + 12 \<and>
        heap_ok (snd (heap_alloc (unat n + 12) bs)) st' \<and> heap_frame st st' \<and>
        owned st' (page_count (total (snd (heap_alloc (unat n + 12) bs)))) =
          owned st (page_count (total bs)) \<and>
        (\<forall>x. in_use 0xE0000000 bs x \<longrightarrow> mem st' x = mem st x))"
  by (rule kmalloc_refines [OF assms])

text \<open>The heap before its first allocation, with three free pages.\<close>

definition heap0 :: heap_state where
  "heap0 = \<lparr>pmm_stack = pmm_stack pool3, pmm_stack_top = 3, phy_page_count = 3,
     pgd_kern = 0xC0110000, pte_kern = 0xC0120000, pgd = (\<lambda>_ _. 0), ptab = (\<lambda>_ _. 0),
     cr3 = 0x110000, mem = (\<lambda>_. 0), frame = (\<lambda>_. 0), heap_max = HEAP_START, heap_first = 0\<rparr>"

lemma heap0_ok: "heap_ok [] heap0" "free_pages heap0 = [0x3000, 0x2000, 0x1000]"
proof -
  show f: "free_pages heap0 = [0x3000, 0x2000, 0x1000]"
    using free_pages_pool3 by (simp add: free_pages_def heap0_def pool3_def)
  have "pgd heap0 = (\<lambda>_ _. 0)" "pmm_ok heap0" by (simp_all add: heap0_def pmm_ok_def)
  then have "vm_ok d heap0" for d by (intro vm_okI) (auto simp: f)
  moreover have "walk heap0 d x = None" for d x by (simp add: walk_def heap0_def)
  ultimately have "pages_ok 0 heap0"
    by (simp add: pages_ok_def heap_frames_def f) (simp add: heap0_def heap_page_def)
  then show "heap_ok [] heap0" by (simp add: heap_ok_def) (simp add: heap0_def)
qed

theorem kmalloc_first_fit_witness:
  "(case kmalloc 100 heap0 of None \<Rightarrow> False
    | Some (Inl e) \<Rightarrow> e = Panic ''out of memory'' \<and> fit (unat (100 :: u32) + 12) [] = None \<and>
        length (free_pages heap0) <
          2 * (page_count (total [] + (unat (100 :: u32) + 12)) - page_count (total []))
    | Some (Inr (a, st')) \<Rightarrow> a = fst (heap_alloc (unat (100 :: u32) + 12) []) + 12 \<and>
        heap_ok (snd (heap_alloc (unat (100 :: u32) + 12) [])) st' \<and> heap_frame heap0 st' \<and>
        owned st' (page_count (total (snd (heap_alloc (unat (100 :: u32) + 12) [])))) =
          owned heap0 (page_count (total [])) \<and>
        (\<forall>x. in_use 0xE0000000 [] x \<longrightarrow> mem st' x = mem heap0 x))"
  by (rule kmalloc_first_fit) (simp_all add: heap0_ok)

text \<open>C13: Memory handed out is fresh: every one of the \<open>n\<close> bytes from the pointer \<open>kmalloc\<close>
  returns is mapped, belonged to no allocated block before, belongs to one now, and lies
  above \<open>HEAP_START\<close>.\<close>

theorem kmalloc_memory_fresh:
  fixes st :: "'a heap_state_scheme"
  assumes "heap_ok bs st" and "unat n + 12 + total bs \<le> 0x1FFFF000"
    and "kmalloc n st = Some (Inr (a, st'))"
    and "unat a \<le> unat x" and "unat x < unat a + unat n"
  shows "translate st' x \<noteq> None \<and> \<not> in_use 0xE0000000 bs x \<and>
    in_use 0xE0000000 (snd (heap_alloc (unat n + 12) bs)) x \<and> 0xE0000000 < unat x"
  by (rule kmalloc_fresh [OF assms])

theorem kmalloc_memory_fresh_witness:
  "\<exists>a st'. kmalloc 100 heap0 = Some (Inr (a, st')) \<and>
    translate st' (a + 99) \<noteq> None \<and> \<not> in_use 0xE0000000 [] (a + 99) \<and>
    in_use 0xE0000000 (snd (heap_alloc (unat (100 :: u32) + 12) [])) (a + 99) \<and>
    0xE0000000 < unat (a + 99)"
proof -
  have "\<exists>st'. kmalloc 100 heap0 = Some (Inr (0xE000000C, st'))"
    using kmalloc_refines [OF heap0_ok(1), of 100]
    by (auto simp: heap0_ok page_count_def heap_alloc_def split: option.splits sum.splits)
  then obtain st' where k: "kmalloc 100 heap0 = Some (Inr (0xE000000C, st'))" ..
  have "unat (0xE000000C + 99 :: u32) = 0xE000006F" by simp
  with kmalloc_memory_fresh [OF heap0_ok(1) _ k, of "0xE000000C + 99"] k show ?thesis by auto
qed

end
