(* ===== verification/Heap_Free.thy ===== *)
theory Heap_Free
  imports Heap_Alloc
begin

text \<open>
  \<^verbatim>\<open>kfree\<close> on a heap whose \<open>prev\<close> pointers are right: the block is marked free, merged with free
  neighbours, and blocks at the end of the heap go back to the page allocator. The
  specification is \<open>coalesce\<close>, which merges every run of free blocks and drops the last one.
\<close>

section \<open>The specification\<close>

fun coalesce :: "(nat \<times> bool) list \<Rightarrow> (nat \<times> bool) list" where
  "coalesce [] = []"
| "coalesce ((l, u) # bs) =
     (if u then (l, u) # coalesce bs
      else case coalesce bs of [] \<Rightarrow> []
           | (k, v) # cs \<Rightarrow> if v then (l, False) # (k, v) # cs else (l + k, False) # cs)"

text \<open>No two free blocks are neighbours, and the last block is allocated.\<close>

fun normal :: "(nat \<times> bool) list \<Rightarrow> bool" where
  "normal [] = True"
| "normal ((l, u) # bs) = ((u \<or> (bs \<noteq> [] \<and> snd (hd bs))) \<and> normal bs)"

lemma coalesce_normal: "normal bs \<Longrightarrow> coalesce bs = bs"
  by (induction bs rule: coalesce.induct) (auto split: list.splits)

lemma normal_coalesce: "normal (coalesce bs)"
  by (induction bs rule: coalesce.induct) (auto split: list.splits)

lemma coalesce_append: "coalesce (xs @ ys) = coalesce (xs @ coalesce ys)"
  by (induction xs) (auto simp: coalesce_normal normal_coalesce)

lemma normal_append: "normal (xs @ ys) \<Longrightarrow> normal ys"
  by (induction xs rule: normal.induct) auto

text \<open>The blocks kept by \<open>coalesce\<close> are the allocated ones, in their places.\<close>

lemma coalesce_used:
  "filter snd (coalesce bs) = filter snd bs"
  by (induction bs rule: coalesce.induct) (auto split: list.splits)

lemma normal_append_used:
  "xs = [] \<or> snd (last xs) \<Longrightarrow> normal (xs @ ys) \<longleftrightarrow> normal xs \<and> normal ys"
proof (induction xs rule: normal.induct)
  case (2 l u bs)
  then show ?case by (cases bs) auto
qed simp

lemma normal_before_free:
  "normal (ws @ (j, False) # ys) \<Longrightarrow> (ws = [] \<or> snd (last ws)) \<and> ys \<noteq> [] \<and> snd (hd ys)"
proof (induction ws rule: normal.induct)
  case (2 l u bs)
  then show ?case by (cases bs) auto
qed auto

lemma coalesce_merge:
  "coalesce (xs @ (l, False) # (k, False) # zs) = coalesce (xs @ (l + k, False) # zs)"
proof -
  have "coalesce ((l, False) # (k, False) # zs) = coalesce ((l + k, False) # zs)"
    by (auto split: list.split)
  then show ?thesis by (metis coalesce_append)
qed

section \<open>Merging two free blocks\<close>

abbreviation blocks :: "(nat \<times> bool) list \<Rightarrow> block list" where
  "blocks bs \<equiv> linked 0 0xE0000000 bs"

text \<open>Where the block behind \<open>xs\<close> starts, and the block before it.\<close>

abbreviation place :: "(nat \<times> bool) list \<Rightarrow> u32" where
  "place xs \<equiv> past 0xE0000000 (blocks xs)"

abbreviation before :: "(nat \<times> bool) list \<Rightarrow> u32" where
  "before xs \<equiv> last_addr 0xE0000000 0 (blocks xs)"

lemma in_use_linked: "in_use a (linked z a bs) x = in_use a (linked z' a bs) x"
  by (cases "(z, a, bs)" rule: linked.cases) simp_all

lemma blocks_append:
  "blocks (xs @ (l, u) # ys) = blocks xs @ (l, u, before xs) # linked (place xs) (place xs + of_nat l) ys"
  by (simp add: linked_append)

lemma block_at:
  assumes "heap_ok (blocks (xs @ (l, u) # ys)) st"
  shows "mapped st (place xs) l" and "unat (place xs) = 0xE0000000 + total (blocks xs)"
    and "12 \<le> l" and "total (blocks xs) + l + sum_list (map fst ys) \<le> 0x1FFFF000"
    and "header (mem st) (place xs) =
      (before xs, if ys = [] then 0 else place xs + of_nat l, hword l u)"
  using block_mapped [OF assms [unfolded blocks_append]] by (simp_all del: total_linked add: total_linked [of "place xs"])

lemma place_snoc: "place (xs @ [(l, u)]) = place xs + of_nat l" "before (xs @ [(l, u)]) = place xs"
  by (simp_all add: linked_append)

lemma merge_ok:
  fixes st :: "'a heap_state_scheme"
  assumes ok: "heap_ok (blocks (xs @ (l, False) # (k, False) # zs)) st"
  defines "c \<equiv> place xs" and "e \<equiv> place xs + of_nat l + of_nat k"
  assumes h: "header m' c = (before xs, if zs = [] then 0 else e, hword (l + k) False)"
    and he: "zs \<noteq> [] \<Longrightarrow> header m' e = (c, snd (header (mem st) e))"
    and out: "\<And>x. \<not> in_header c x \<Longrightarrow> zs = [] \<or> \<not> in_header e x \<Longrightarrow> m' x = mem st x"
  shows "heap_ok (blocks (xs @ (l + k, False) # zs)) (st\<lparr>mem := m'\<rparr>)"
    and "heap_frame st (st\<lparr>mem := m'\<rparr>)"
    and "in_use 0xE0000000 (blocks (xs @ (l, False) # (k, False) # zs)) x =
      in_use 0xE0000000 (blocks (xs @ (l + k, False) # zs)) x"
    and "in_use 0xE0000000 (blocks (xs @ (l + k, False) # zs)) x \<Longrightarrow> m' x = mem st x"
proof -
  let ?X = "blocks xs" and ?d = "c + of_nat l"
  have old: "blocks (xs @ (l, False) # (k, False) # zs) =
      ?X @ (l, False, before xs) # (k, False, c) # linked ?d e zs"
    by (simp add: linked_append c_def e_def)
  have new: "blocks (xs @ (l + k, False) # zs) = ?X @ (l + k, False, before xs) # linked c e zs"
    by (simp add: linked_append c_def e_def add.assoc)
  note B = block_at [OF ok, folded c_def]
  have "heap_ok (blocks ((xs @ [(l, False)]) @ (k, False) # zs)) st" using ok by simp
  note B2 = block_at [OF this, unfolded place_snoc, folded c_def]
  have ud: "unat ?d = unat c + l" using B(2,4) by (subst unat_plus_of_nat_small) simp_all
  have ue: "unat e = unat c + l + k"
    using B(2,4) ud unfolding e_def c_def [symmetric] by (subst unat_plus_of_nat_small) simp_all
  have bx: "blocks_ok 0xE0000000 ?X" "blocks_ok e (linked ?d e zs)"
    using ok unfolding heap_ok_def old by (simp_all add: c_def e_def)
  show use: "in_use 0xE0000000 (blocks (xs @ (l, False) # (k, False) # zs)) x =
      in_use 0xE0000000 (blocks (xs @ (l + k, False) # zs)) x" for x
    unfolding old new using in_use_linked [of e ?d zs x c] by (simp add: c_def e_def add.assoc)
  show keep: "m' x = mem st x" if "in_use 0xE0000000 (blocks (xs @ (l + k, False) # zs)) x" for x
  proof -
    have "in_use 0xE0000000 ?X x \<or> in_use e (linked ?d e zs) x"
      using that in_use_linked [of e ?d zs x c] unfolding new by (simp add: c_def e_def add.assoc)
    then show ?thesis
      using in_use_bounds [OF bx(1), of x] in_use_bounds [OF bx(2), of x] B(2,3) B2(3) ue
      by (intro out) (auto simp: in_header_def)
  qed
  show "heap_frame st (st\<lparr>mem := m'\<rparr>)"
    using B(2) ue by (intro heap_frame_mem out) (auto simp: in_header_def)
  show "heap_ok (blocks (xs @ (l + k, False) # zs)) (st\<lparr>mem := m'\<rparr>)"
  proof (cases zs)
    case Nil
    have "heap_ok (?X @ [(l + k, False, before xs)] @ []) (st\<lparr>mem := m'\<rparr>)"
    proof (rule heap_ok_replace)
      show "heap_ok (?X @ [(l, False, before xs), (k, False, c)] @ []) st"
        using ok [unfolded old] Nil by simp
      show "m' x = mem st x" if "\<not> (0xE0000000 + total ?X \<le> unat x \<and>
          unat x < 0xE0000000 + total ?X + total [(l, False, before xs), (k, False, c)])" for x
        using that B(2,3) Nil by (intro out) (auto simp: in_header_def)
    qed (use h B(2,3,4) Nil in \<open>simp_all add: c_def\<close>)
    then show ?thesis using new Nil by simp
  next
    case (Cons b ws)
    obtain j v where b: "b = (j, v)" by (cases b)
    have "heap_ok (blocks ((xs @ [(l, False), (k, False)]) @ (j, v) # ws)) st"
      using ok Cons b by simp
    note B3 = block_at [OF this]
    have pe: "place (xs @ [(l, False), (k, False)]) = e" by (simp add: linked_append e_def)
    have "heap_ok (?X @ [(l + k, False, before xs), (j, v, c)] @ linked e (e + of_nat j) ws)
        (st\<lparr>mem := m'\<rparr>)"
    proof (rule heap_ok_replace)
      show "heap_ok (?X @ [(l, False, before xs), (k, False, c), (j, v, ?d)] @
          linked e (e + of_nat j) ws) st"
        using ok [unfolded old] Cons b by simp
      show "m' x = mem st x" if "\<not> (0xE0000000 + total ?X \<le> unat x \<and> unat x < 0xE0000000 + total ?X +
          total [(l, False, before xs), (k, False, c), (j, v, ?d)])" for x
        using that B(2,3) B3(3) ue Cons by (intro out) (auto simp: in_header_def)
      show "seg m' (past 0xE0000000 ?X) [(l + k, False, before xs), (j, v, c)]
          (if linked e (e + of_nat j) ws = [] then 0 else
            past (past 0xE0000000 ?X) [(l, False, before xs), (k, False, c), (j, v, ?d)])"
        using h he B3(5) Cons b unfolding pe by (simp add: c_def e_def add.assoc)
    qed (use B(2,3,4) B3(3) Cons b ue in \<open>simp_all add: c_def e_def add.assoc\<close>)
    then show ?thesis using new Cons b by simp
  qed
qed


section \<open>The two halves of \<open>glue_chunk\<close>\<close>

lemma hword_sum:
  assumes "l + k < 2147483648"
  shows "put_length (hword l u) (of_nat l + of_nat k) = hword (l + k) u"
proof -
  have "unat (of_nat l + of_nat k :: u32) = l + k"
    using assms by (subst unat_plus_small) (simp_all add: unat_of_nat_u32)
  then show ?thesis by simp
qed

lemma glue_next_eval:
  fixes st :: "'a heap_state_scheme"
  assumes m: "mapped st c 12" "mapped st d 12" and ap: "apart c 12 d 12" "d \<noteq> 0"
    and h: "header (mem st) c = (z, d, hword l False)" "header (mem st) d = (q, nx, hword k False)"
    and lk: "l + k < 2147483648"
    and nx: "nx \<noteq> 0 \<Longrightarrow> mapped st nx 12 \<and> apart c 12 nx 12 \<and> apart d 12 nx 12"
  shows "\<exists>m'. glue_next c st = Inr (st\<lparr>mem := m'\<rparr>) \<and>
    header m' c = (z, nx, hword (l + k) False) \<and>
    (nx \<noteq> 0 \<longrightarrow> header m' nx = (c, snd (header (mem st) nx))) \<and>
    (\<forall>x. \<not> in_header c x \<longrightarrow> nx = 0 \<or> \<not> in_header nx x \<longrightarrow> m' x = mem st x)"
proof -
  have nw: "unat c + 12 \<le> 4294967296" "unat d + 12 \<le> 4294967296"
    using m by (simp_all add: mapped_def)
  have l: "l < 2147483648" "k < 2147483648" using lk by simp_all
  note sum = hword_sum [OF lk, of False]
  show ?thesis
  proof (cases "nx = 0")
    case True
    then show ?thesis
      using h ap(2) l
      by (simp add: glue_next_def header_access m sum header_stored nw header_store_apart [OF ap(1)]
          del: put_hword(3))
        (intro mem_exI, simp add: header_stored nw store32_outside)
  next
    case False
    then have nw': "unat nx + 12 \<le> 4294967296" and m': "mapped st nx 12"
      and a: "apart c 12 nx 12" "apart d 12 nx 12" "apart nx 12 c 12" "apart nx 12 d 12"
      using nx apart_sym by (auto simp: mapped_def)
    show ?thesis
      using h ap(2) l False
      by (simp add: glue_next_def header_access m m' sum header_stored nw nw'
          header_store_apart [OF ap(1)] header_store_apart [OF a(1)] header_store_apart [OF a(3)]
          header_store_apart [OF a(4)] del: put_hword(3))
        (intro mem_exI, simp add: header_stored nw nw' store32_outside
          header_store_apart [OF a(1)] header_store_apart [OF a(3)])
  qed
qed

lemma glue_prev_eval:
  fixes st :: "'a heap_state_scheme"
  assumes m: "mapped st p 12" "mapped st c 12" and ap: "apart p 12 c 12" "p \<noteq> 0"
    and h: "header (mem st) p = (z, q, hword j False)" "header (mem st) c = (p, nx, hword l False)"
    and lk: "j + l < 2147483648"
    and nx: "nx \<noteq> 0 \<Longrightarrow> mapped st nx 12 \<and> apart p 12 nx 12 \<and> apart c 12 nx 12"
  shows "\<exists>m'. glue_prev c st = Inr (p, st\<lparr>mem := m'\<rparr>) \<and>
    header m' p = (z, nx, hword (j + l) False) \<and>
    (nx \<noteq> 0 \<longrightarrow> header m' nx = (p, snd (header (mem st) nx))) \<and>
    (\<forall>x. \<not> in_header p x \<longrightarrow> nx = 0 \<or> \<not> in_header nx x \<longrightarrow> m' x = mem st x)"
proof -
  have nw: "unat p + 12 \<le> 4294967296" "unat c + 12 \<le> 4294967296"
    using m by (simp_all add: mapped_def)
  have l: "j < 2147483648" "l < 2147483648" using lk by simp_all
  note sum = hword_sum [OF lk, of False]
  show ?thesis
  proof (cases "nx = 0")
    case True
    then show ?thesis
      using h ap(2) l
      by (simp add: glue_prev_def header_access m sum header_stored nw header_store_apart [OF ap(1)]
          del: put_hword(3))
        (intro mem_exI, simp add: header_stored nw store32_outside)
  next
    case False
    then have nw': "unat nx + 12 \<le> 4294967296" and m': "mapped st nx 12"
      and a: "apart p 12 nx 12" "apart c 12 nx 12" "apart nx 12 p 12" "apart nx 12 c 12"
      using nx apart_sym by (auto simp: mapped_def)
    show ?thesis
      using h ap(2) l False
      by (simp add: glue_prev_def header_access m m' sum header_stored nw nw'
          header_store_apart [OF ap(1)] header_store_apart [OF a(1)] header_store_apart [OF a(3)]
          header_store_apart [OF a(4)] del: put_hword(3))
        (intro mem_exI, simp add: header_stored nw nw' store32_outside
          header_store_apart [OF a(1)] header_store_apart [OF a(3)])
  qed
qed


section \<open>The steps on the list of blocks\<close>

lemma block_start:
  assumes "heap_ok (blocks (xs @ (l, u) # ys)) st"
  shows "mapped st (place xs) 12" and "place xs \<noteq> 0"
  using block_at(1,2,3) [OF assms] by (auto elim!: mapped_sub simp flip: unat_eq_0)

lemma next_block:
  assumes ok: "heap_ok (blocks (xs @ (l, u) # (k, v) # zs)) st"
  defines "c \<equiv> place xs" and "d \<equiv> place xs + of_nat l"
  shows "mapped st d 12" and "d \<noteq> 0" and "apart c 12 d 12" and "l + k < 2147483648"
    and "header (mem st) d = (c, if zs = [] then 0 else d + of_nat k, hword k v)"
    and "unat d = unat c + l"
proof -
  have ok': "heap_ok (blocks ((xs @ [(l, u)]) @ (k, v) # zs)) st" using ok by simp
  note B = block_at [OF ok, folded c_def] and B' = block_at [OF ok', unfolded place_snoc, folded d_def]
  show "mapped st d 12" "d \<noteq> 0" using block_start [OF ok', unfolded place_snoc] by (simp_all add: d_def)
  show u: "unat d = unat c + l"
    using B(2,4) unfolding d_def c_def [symmetric] by (subst unat_plus_of_nat_small) simp_all
  show "l + k < 2147483648" using B(4) by simp
  show "apart c 12 d 12" using B B'(3,4) u by (simp add: apart_def)
  show "header (mem st) d = (c, if zs = [] then 0 else d + of_nat k, hword k v)"
    using B'(5) by (simp add: c_def)
qed

lemma third_block:
  assumes ok: "heap_ok (blocks (xs @ (l, u) # (k, v) # zs)) st" and "zs \<noteq> []"
  defines "e \<equiv> place xs + of_nat l + of_nat k"
  shows "e \<noteq> 0" and "mapped st e 12" and "apart (place xs) 12 e 12"
    and "apart (place xs + of_nat l) 12 e 12"
proof -
  obtain j w ws where zs: "zs = (j, w) # ws" using assms(2) by (cases zs) auto
  have ok': "heap_ok (blocks ((xs @ [(l, u)]) @ (k, v) # (j, w) # ws)) st" using ok zs by simp
  note N = next_block [OF ok', unfolded place_snoc, folded e_def]
  show "e \<noteq> 0" "mapped st e 12" "apart (place xs + of_nat l) 12 e 12" by (rule N)+
  show "apart (place xs) 12 e 12"
    using next_block(3,6) [OF ok] N(3,6) by (simp add: apart_def)
qed

lemma glue_next_ok:
  fixes st :: "'a heap_state_scheme"
  assumes ok: "heap_ok (blocks (xs @ (l, False) # (k, False) # zs)) st"
  shows "\<exists>m'. glue_next (place xs) st = Inr (st\<lparr>mem := m'\<rparr>) \<and>
    heap_ok (blocks (xs @ (l + k, False) # zs)) (st\<lparr>mem := m'\<rparr>) \<and>
    heap_frame st (st\<lparr>mem := m'\<rparr>) \<and>
    (\<forall>x. in_use 0xE0000000 (blocks (xs @ (l + k, False) # zs)) x \<longrightarrow> m' x = mem st x)"
proof -
  let ?c = "place xs" and ?e = "place xs + of_nat l + of_nat k"
  note N = next_block [OF ok] and B = block_at [OF ok]
  have "(if zs = [] then 0 else ?e) \<noteq> 0 \<Longrightarrow> mapped st (if zs = [] then 0 else ?e) 12 \<and>
      apart ?c 12 (if zs = [] then 0 else ?e) 12 \<and>
      apart (?c + of_nat l) 12 (if zs = [] then 0 else ?e) 12"
    using third_block [OF ok] by (auto split: if_splits)
  from glue_next_eval [OF block_start(1) [OF ok] N(1,3,2) B(5) [simplified] N(5,4) this]
  obtain m' where m': "glue_next ?c st = Inr (st\<lparr>mem := m'\<rparr>)"
    "header m' ?c = (before xs, if zs = [] then 0 else ?e, hword (l + k) False)"
    "(if zs = [] then 0 else ?e) \<noteq> 0 \<longrightarrow> header m' (if zs = [] then 0 else ?e) =
      (?c, snd (header (mem st) (if zs = [] then 0 else ?e)))"
    "\<And>x. \<not> in_header ?c x \<Longrightarrow> (if zs = [] then 0 else ?e) = 0 \<or>
      \<not> in_header (if zs = [] then 0 else ?e) x \<Longrightarrow> m' x = mem st x"
    by auto
  have "zs \<noteq> [] \<Longrightarrow> header m' ?e = (?c, snd (header (mem st) ?e))"
    using m'(3) third_block(1) [OF ok] by simp
  moreover have "m' x = mem st x" if "\<not> in_header ?c x" "zs = [] \<or> \<not> in_header ?e x" for x
    using m'(4) [OF that(1)] that(2) by auto
  ultimately show ?thesis
    using m'(1) merge_ok [OF ok m'(2)] by blast
qed

lemma glue_prev_ok:
  fixes st :: "'a heap_state_scheme"
  assumes ok: "heap_ok (blocks (xs @ (l, False) # (k, False) # zs)) st"
  shows "\<exists>m'. glue_prev (place (xs @ [(l, False)])) st = Inr (place xs, st\<lparr>mem := m'\<rparr>) \<and>
    heap_ok (blocks (xs @ (l + k, False) # zs)) (st\<lparr>mem := m'\<rparr>) \<and>
    heap_frame st (st\<lparr>mem := m'\<rparr>) \<and>
    (\<forall>x. in_use 0xE0000000 (blocks (xs @ (l + k, False) # zs)) x \<longrightarrow> m' x = mem st x)"
proof -
  let ?c = "place xs" and ?e = "place xs + of_nat l + of_nat k"
  note N = next_block [OF ok] and B = block_at [OF ok]
  have "(if zs = [] then 0 else ?e) \<noteq> 0 \<Longrightarrow> mapped st (if zs = [] then 0 else ?e) 12 \<and>
      apart ?c 12 (if zs = [] then 0 else ?e) 12 \<and>
      apart (?c + of_nat l) 12 (if zs = [] then 0 else ?e) 12"
    using third_block [OF ok] by (auto split: if_splits)
  from glue_prev_eval [OF block_start(1) [OF ok] N(1,3) block_start(2) [OF ok] B(5) [simplified] N(5,4) this]
  obtain m' where m': "glue_prev (?c + of_nat l) st = Inr (?c, st\<lparr>mem := m'\<rparr>)"
    "header m' ?c = (before xs, if zs = [] then 0 else ?e, hword (l + k) False)"
    "(if zs = [] then 0 else ?e) \<noteq> 0 \<longrightarrow> header m' (if zs = [] then 0 else ?e) =
      (?c, snd (header (mem st) (if zs = [] then 0 else ?e)))"
    "\<And>x. \<not> in_header ?c x \<Longrightarrow> (if zs = [] then 0 else ?e) = 0 \<or>
      \<not> in_header (if zs = [] then 0 else ?e) x \<Longrightarrow> m' x = mem st x"
    by auto
  have "zs \<noteq> [] \<Longrightarrow> header m' ?e = (?c, snd (header (mem st) ?e))"
    using m'(3) third_block(1) [OF ok] by simp
  moreover have "m' x = mem st x" if "\<not> in_header ?c x" "zs = [] \<or> \<not> in_header ?e x" for x
    using m'(4) [OF that(1)] that(2) by auto
  ultimately show ?thesis
    using m'(1) merge_ok [OF ok m'(2)] unfolding place_snoc by blast
qed

lemma glue_next_skip:
  assumes ok: "heap_ok (blocks (xs @ (l, u) # ys)) st" and "ys = [] \<or> snd (hd ys)"
  shows "glue_next (place xs) st = Inr st"
proof (cases ys)
  case Nil
  then show ?thesis
    using block_at(5) [OF ok] by (simp add: glue_next_def header_access block_start [OF ok])
next
  case (Cons b zs)
  then obtain k where b: "b = (k, True)" using assms(2) by (cases b) auto
  have ok': "heap_ok (blocks (xs @ (l, u) # (k, True) # zs)) st" using ok Cons b by simp
  note N = next_block [OF ok']
  show ?thesis
    using block_at(5) [OF ok'] N(1,2,5)
    by (simp add: glue_next_def header_access block_start [OF ok'])
qed

lemma glue_prev_skip:
  assumes ok: "heap_ok (blocks (xs @ (l, u) # ys)) st" and "xs = [] \<or> snd (last xs)"
  shows "glue_prev (place xs) st = Inr (place xs, st)"
proof (cases xs rule: rev_cases)
  case Nil
  then show ?thesis
    using block_at(5) [OF ok] block_start [OF ok] by (simp add: glue_prev_def header_access)
next
  case (snoc ws b)
  then obtain k where b: "b = (k, True)" using assms(2) by (cases b) auto
  have ok': "heap_ok (blocks (ws @ (k, True) # (l, u) # ys)) st" using ok snoc b by simp
  have pl: "place xs = place ws + of_nat k" "before xs = place ws"
    unfolding snoc b by (rule place_snoc)+
  show ?thesis
    using block_at(5) [OF ok] block_at(5) [OF ok'] block_start [OF ok] block_start [OF ok'] pl(2)
    by (simp add: glue_prev_def header_access)
qed


text \<open>Dropping the last block, and the pages only it needed.\<close>

lemma free_chunk_ok:
  fixes st :: "'a heap_state_scheme"
  assumes ok: "heap_ok (blocks (xs @ [(l, u)])) st"
  shows "\<exists>st'. free_chunk (place xs) st = Inr st' \<and> heap_ok (blocks xs) st' \<and> heap_frame st st' \<and>
    owned st' (page_count (total (blocks xs))) = owned st (page_count (total (blocks (xs @ [(l, u)])))) \<and>
    (\<forall>x. in_use 0xE0000000 (blocks xs) x \<longrightarrow> mem st' x = mem st x)"
proof -
  let ?c = "place xs" and ?p = "before xs"
  let ?N = "page_count (total (blocks (xs @ [(l, u)])))" and ?M = "page_count (total (blocks xs))"
  note B = block_at [OF ok] and S = block_start [OF ok]
  have pg: "pages_ok ?N st" and bx: "blocks_ok 0xE0000000 (blocks xs)"
    and hf: "heap_first st = 0xE0000000" and sg: "seg (mem st) 0xE0000000 (blocks xs) ?c"
    using ok by (simp_all add: heap_ok_def linked_append seg_append)
  define st0 where "st0 = (if xs = [] then st\<lparr>heap_first := 0\<rparr>
    else st\<lparr>mem := store32 (mem st) (?p + 4) 0\<rparr>)"
  have first: "xs = [] \<and> ?p = 0 \<or> xs \<noteq> [] \<and> ?p \<noteq> 0 \<and> mapped st ?p 12 \<and>
      seg (store32 (mem st) (?p + 4) 0) 0xE0000000 (blocks xs) 0 \<and>
      (\<forall>x. \<not> in_header ?p x \<longrightarrow> store32 (mem st) (?p + 4) 0 x = mem st x) \<and>
      (\<forall>x. in_use 0xE0000000 (blocks xs) x \<longrightarrow> \<not> in_header ?p x) \<and> 0xE0000000 \<le> unat ?p"
  proof (cases xs rule: rev_cases)
    case (snoc ws b)
    obtain k v where b: "b = (k, v)" by (cases b)
    have ok': "heap_ok (blocks (ws @ (k, v) # [(l, u)])) st" using ok snoc b by simp
    note B' = block_at [OF ok'] and S' = block_start [OF ok']
    have p: "?p = place ws" unfolding snoc b by (rule place_snoc)
    have nw: "unat (place ws) + 12 \<le> 4294967296" using S'(1) by (simp add: mapped_def)
    have bw: "blocks_ok 0xE0000000 (blocks ws)" using bx snoc b by (simp add: linked_append)
    let ?m = "store32 (mem st) (place ws + 4) 0"
    have "seg (mem st) 0xE0000000 (blocks ws) (place ws)"
      using sg snoc b by (simp add: linked_append seg_append)
    moreover have "seg ?m 0xE0000000 (blocks ws) (place ws) = seg (mem st) 0xE0000000 (blocks ws) (place ws)"
      using bw B'(2) by (intro seg_cong store32_outside nw) (auto simp: in_header_def)
    moreover have "header ?m (place ws) = (before ws, 0, hword k v)"
      using B'(5) by (simp add: header_stored nw)
    ultimately have "seg ?m 0xE0000000 (blocks xs) 0"
      using snoc b by (simp add: linked_append seg_append)
    moreover have "\<not> in_header (place ws) x" if "in_use 0xE0000000 (blocks xs) x" for x
      using that in_use_bounds [OF bw, of x] B'(2) snoc b
      by (auto simp: linked_append in_header_def)
    ultimately show ?thesis
      using S' nw B'(2) p snoc by (simp add: store32_outside)
  qed simp
  then have fc: "free_chunk ?c st = release_pages ?c st0"
    using B(5) S by (auto simp: free_chunk_def header_access st0_def)
  have st0: "pages_ok ?N st0" "owned st0 ?N = owned st ?N" "heap_frame st st0"
    "seg (mem st0) 0xE0000000 (blocks xs) 0" "heap_first st0 = (if xs = [] then 0 else 0xE0000000)"
    "\<And>x. in_use 0xE0000000 (blocks xs) x \<Longrightarrow> mem st0 x = mem st x"
    using first pg hf by (auto simp: st0_def heap_frame_mem in_header_def intro!: heap_frame_mem(1))
  have "?M \<le> ?N" by (intro page_count_mono) simp
  from release_pages_result [OF st0(1) B(2) this]
  obtain st' where st': "release_pages ?c st0 = Inr st'" "pages_ok ?M st'" "heap_same ?M st0 st'"
    "owned st' ?M = owned st0 ?N" by blast
  have "total (blocks xs) \<le> 4096 * ?M" using page_count_le_iff by blast
  then have keep: "mem st' x = mem st0 x" if "unat x < 0xE0000000 + total (blocks xs)" for x
    using st'(3) that by (simp add: heap_same_def)
  have "seg (mem st') 0xE0000000 (blocks xs) 0 = seg (mem st0) 0xE0000000 (blocks xs) 0"
    using bx keep by (intro seg_cong) simp_all
  then have "heap_ok (blocks xs) st'"
    using st'(2,3) st0(4,5) bx B(4) by (simp add: heap_ok_def heap_same_def)
  moreover have "mem st' x = mem st x" if "in_use 0xE0000000 (blocks xs) x" for x
    using in_use_bounds [OF bx that] keep [of x] st0(6) [OF that] by simp
  ultimately show ?thesis
    using fc st' st0(2,3) heap_frame_trans [OF st0(3) heap_frame_same [OF st'(3)]] by auto
qed

text \<open>Clearing the flag.\<close>

lemma mark_free_ok:
  fixes st :: "'a heap_state_scheme"
  assumes ok: "heap_ok (blocks (xs @ (l, u) # ys)) st"
  shows "\<exists>m'. set_hallocated (place xs) 0 st = Inr (st\<lparr>mem := m'\<rparr>) \<and>
    heap_ok (blocks (xs @ (l, False) # ys)) (st\<lparr>mem := m'\<rparr>) \<and> heap_frame st (st\<lparr>mem := m'\<rparr>) \<and>
    (\<forall>x. in_use 0xE0000000 (blocks (xs @ (l, False) # ys)) x \<longrightarrow> m' x = mem st x)"
proof -
  let ?c = "place xs" and ?m = "store32 (mem st) (place xs + 8) (hword l False)"
  note B = block_at [OF ok] and S = block_start [OF ok]
  have nw: "unat ?c + 12 \<le> 4294967296" using S(1) by (simp add: mapped_def)
  have "set_hallocated ?c 0 st = Inr (st\<lparr>mem := ?m\<rparr>)"
    using B(5) by (simp add: header_access S)
  moreover have "heap_ok (blocks xs @ [(l, False, before xs)] @ linked ?c (?c + of_nat l) ys) (st\<lparr>mem := ?m\<rparr>)"
  proof (rule heap_ok_replace)
    show "heap_ok (blocks xs @ [(l, u, before xs)] @ linked ?c (?c + of_nat l) ys) st"
      using ok by (simp add: linked_append)
    show "?m x = mem st x" if "\<not> (0xE0000000 + total (blocks xs) \<le> unat x \<and>
        unat x < 0xE0000000 + total (blocks xs) + total [(l, u, before xs)])" for x
      using that B(2,3) by (intro store32_outside nw) (auto simp: in_header_def)
  qed (use B nw in \<open>simp_all add: header_stored\<close>)
  moreover have "heap_frame st (st\<lparr>mem := ?m\<rparr>)"
    using B(2) by (intro heap_frame_mem store32_outside nw) (auto simp: in_header_def)
  moreover have "?m x = mem st x" if "in_use 0xE0000000 (blocks (xs @ (l, False) # ys)) x" for x
  proof -
    have b: "blocks_ok 0xE0000000 (blocks xs)" "blocks_ok (?c + of_nat l) (linked ?c (?c + of_nat l) ys)"
      using ok by (simp_all add: heap_ok_def linked_append)
    have "unat (?c + of_nat l) = unat ?c + l"
      using B(2,4) by (subst unat_plus_of_nat_small) simp_all
    then show ?thesis
      using that in_use_bounds [OF b(1), of x] in_use_bounds [OF b(2), of x] B(2,3)
      by (intro store32_outside nw) (auto simp: in_header_def linked_append)
  qed
  ultimately show ?thesis by (auto simp: linked_append)
qed


section \<open>The refinement\<close>

lemma in_use_coalesce: "in_use a (linked z a (coalesce bs)) x = in_use a (linked z a bs) x"
proof (induction bs arbitrary: z a rule: coalesce.induct)
  case (2 l u bs)
  show ?case
  proof (cases "u \<or> coalesce bs = []")
    case True
    then show ?thesis using 2(1) 2(2) [of "a + of_nat l" a] by (cases u) auto
  next
    case False
    then obtain k v cs where cs: "coalesce bs = (k, v) # cs" by (cases "coalesce bs") auto
    have IH: "in_use (a + of_nat l) (linked a (a + of_nat l) bs) x =
        in_use (a + of_nat l) (linked a (a + of_nat l) ((k, v) # cs)) x"
      using 2(2) [of "a + of_nat l" a] False cs by simp
    show ?thesis
      using False cs IH in_use_linked [of "a + of_nat l + of_nat k" "a + of_nat l" cs x a]
      by (simp add: add.assoc)
  qed
qed simp

lemma kfree_refines:
  fixes st :: "'a heap_state_scheme"
  assumes ok: "heap_ok (blocks (xs @ (l, True) # ys)) st" and nrm: "normal (xs @ (l, True) # ys)"
  defines "rest \<equiv> coalesce (xs @ (l, False) # ys)"
  shows "\<exists>st'. kfree (place xs + 12) st = Inr st' \<and> heap_ok (blocks rest) st' \<and> heap_frame st st' \<and>
    owned st' (page_count (total (blocks rest))) =
      owned st (page_count (total (blocks (xs @ (l, True) # ys)))) \<and>
    (\<forall>x. in_use 0xE0000000 (blocks rest) x \<longrightarrow> mem st' x = mem st x)"
proof -
  let ?U = "\<lambda>bs x. in_use 0xE0000000 (blocks bs) x"
  have U: "?U (coalesce bs) x = ?U bs x" for bs x by (rule in_use_coalesce)
  obtain m1 where m1: "set_hallocated (place xs) 0 st = Inr (st\<lparr>mem := m1\<rparr>)"
    "heap_ok (blocks (xs @ (l, False) # ys)) (st\<lparr>mem := m1\<rparr>)" "heap_frame st (st\<lparr>mem := m1\<rparr>)"
    "\<And>x. ?U (xs @ (l, False) # ys) x \<Longrightarrow> m1 x = mem st x"
    using mark_free_ok [OF ok] by blast
  have ny: "normal ys" using normal_append [of xs "(l, True) # ys"] nrm by simp
  obtain l1 ys1 m2 where m2: "glue_next (place xs) (st\<lparr>mem := m1\<rparr>) = Inr (st\<lparr>mem := m2\<rparr>)"
    "heap_ok (blocks (xs @ (l1, False) # ys1)) (st\<lparr>mem := m2\<rparr>)" "heap_frame st (st\<lparr>mem := m2\<rparr>)"
    "\<And>x. ?U (xs @ (l1, False) # ys1) x \<Longrightarrow> m2 x = mem st x"
    "rest = coalesce (xs @ (l1, False) # ys1)" "ys1 = [] \<or> snd (hd ys1)" "normal ys1"
    "l1 + sum_list (map fst ys1) = l + sum_list (map fst ys)"
  proof (cases "ys = [] \<or> snd (hd ys)")
    case True
    then show ?thesis
      using that [of m1 l ys] glue_next_skip [OF m1(2) True] m1 ny by (simp add: rest_def)
  next
    case False
    then obtain k zs where ys: "ys = (k, False) # zs" by (cases ys) auto
    have r: "rest = coalesce (xs @ (l + k, False) # zs)"
      by (simp add: rest_def ys coalesce_merge)
    have U': "?U (xs @ (l, False) # ys) x = ?U (xs @ (l + k, False) # zs) x" for x
      by (metis U coalesce_merge ys)
    obtain m2 where "glue_next (place xs) (st\<lparr>mem := m1\<rparr>) = Inr (st\<lparr>mem := m2\<rparr>)"
      "heap_ok (blocks (xs @ (l + k, False) # zs)) (st\<lparr>mem := m2\<rparr>)"
      "heap_frame (st\<lparr>mem := m1\<rparr>) (st\<lparr>mem := m2\<rparr>)"
      "\<And>x. ?U (xs @ (l + k, False) # zs) x \<Longrightarrow> m2 x = m1 x"
      using glue_next_ok [OF m1(2) [unfolded ys]] by auto
    then show ?thesis
      using that [of m2 "l + k" zs] m1(4) heap_frame_trans [OF m1(3)] r ny ys U' by auto
  qed
  obtain xs2 l2 m3 where m3: "glue_prev (place xs) (st\<lparr>mem := m2\<rparr>) = Inr (place xs2, st\<lparr>mem := m3\<rparr>)"
    "heap_ok (blocks (xs2 @ (l2, False) # ys1)) (st\<lparr>mem := m3\<rparr>)" "heap_frame st (st\<lparr>mem := m3\<rparr>)"
    "\<And>x. ?U (xs2 @ (l2, False) # ys1) x \<Longrightarrow> m3 x = mem st x"
    "rest = coalesce (xs2 @ (l2, False) # ys1)" "xs2 = [] \<or> snd (last xs2)" "normal xs2"
    "sum_list (map fst xs2) + l2 = sum_list (map fst xs) + l1"
  proof (cases "xs = [] \<or> snd (last xs)")
    case True
    then show ?thesis
      using that [of xs m2 l1] glue_prev_skip [OF m2(2) True] m2 nrm normal_append_used [OF True]
      by simp
  next
    case False
    then obtain ws j where xs: "xs = ws @ [(j, False)]" by (cases xs rule: rev_cases) auto
    have w: "ws = [] \<or> snd (last ws)" "normal ws"
      using normal_before_free [of ws j "(l, True) # ys"] nrm normal_append_used [of ws] xs by auto
    have r: "rest = coalesce (ws @ (j + l1, False) # ys1)"
      using m2(5) by (simp add: xs coalesce_merge)
    have U': "?U (xs @ (l1, False) # ys1) x = ?U (ws @ (j + l1, False) # ys1) x" for x
      using U [of "ws @ (j, False) # (l1, False) # ys1" x] U [of "ws @ (j + l1, False) # ys1" x]
      by (simp add: coalesce_merge xs)
    have ok2: "heap_ok (blocks (ws @ (j, False) # (l1, False) # ys1)) (st\<lparr>mem := m2\<rparr>)"
      using m2(2) xs by simp
    obtain m3 where "glue_prev (place xs) (st\<lparr>mem := m2\<rparr>) = Inr (place ws, st\<lparr>mem := m3\<rparr>)"
      "heap_ok (blocks (ws @ (j + l1, False) # ys1)) (st\<lparr>mem := m3\<rparr>)"
      "heap_frame (st\<lparr>mem := m2\<rparr>) (st\<lparr>mem := m3\<rparr>)"
      "\<And>x. ?U (ws @ (j + l1, False) # ys1) x \<Longrightarrow> m3 x = m2 x"
      using glue_prev_ok [OF ok2] xs by auto
    then show ?thesis
      using that [of ws m3 "j + l1"] m2(4) heap_frame_trans [OF m2(3)] r w U' xs by auto
  qed
  have hn: "hnext (place xs2) (st\<lparr>mem := m3\<rparr>) =
      Inr (if ys1 = [] then 0 else place xs2 + of_nat l2)"
    using block_at(5) [OF m3(2)] block_start [OF m3(2)] by (simp add: header_access)
  have k: "kfree (place xs + 12) st = bindE (hnext (place xs2) (st\<lparr>mem := m3\<rparr>))
      (\<lambda>n. if n = 0 then free_chunk (place xs2) (st\<lparr>mem := m3\<rparr>) else Inr (st\<lparr>mem := m3\<rparr>))"
    using m1(1) m2(1) m3(1) by (simp add: kfree_def glue_chunk_def)
  have tot: "total (blocks (xs2 @ (l2, False) # ys1)) = total (blocks (xs @ (l, True) # ys))"
    using m2(8) m3(8) by simp
  show ?thesis
  proof (cases "ys1 = []")
    case True
    have "rest = xs2"
      using m3(5,7) True coalesce_append [of xs2 "[(l2, False)]"] coalesce_normal by simp
    moreover obtain st' where "free_chunk (place xs2) (st\<lparr>mem := m3\<rparr>) = Inr st'"
      "heap_ok (blocks xs2) st'" "heap_frame (st\<lparr>mem := m3\<rparr>) st'"
      "owned st' (page_count (total (blocks xs2))) =
        owned st (page_count (total (blocks (xs2 @ [(l2, False)]))))"
      "\<And>x. ?U xs2 x \<Longrightarrow> mem st' x = m3 x"
      using free_chunk_ok [of xs2 l2 False "st\<lparr>mem := m3\<rparr>"] m3(2) True by auto
    moreover have "?U xs2 x \<Longrightarrow> m3 x = mem st x" for x
      using m3(4) [of x] U [of "xs2 @ [(l2, False)]" x] True \<open>rest = xs2\<close> m3(5) by simp
    ultimately show ?thesis
      using hn k True tot heap_frame_trans [OF m3(3)] by auto
  next
    case False
    then have "place xs2 + of_nat l2 \<noteq> 0"
      using next_block(2) [of xs2 l2 False] m3(2) by (cases ys1) auto
    moreover have "rest = xs2 @ (l2, False) # ys1"
      using m3(5,6,7) m2(6,7) False normal_append_used [OF m3(6)] coalesce_normal by simp
    ultimately show ?thesis
      using hn k False m3(2,3,4) tot by simp
  qed
qed


lemma normal_last: "normal bs \<Longrightarrow> bs = [] \<or> snd (last bs)"
proof (induction bs rule: normal.induct)
  case (2 l u bs)
  then show ?case by (cases bs) auto
qed simp

section \<open>Properties\<close>

text \<open>C6: \<open>kfree\<close> implements its specification. On a well-formed heap whose \<open>prev\<close> pointers are
  right and in which no two neighbours are free, freeing the block behind \<open>xs\<close> returns without
  a fault; the blocks afterwards are the old ones with that block free, runs of free blocks
  merged and a free end dropped. The heap again takes exactly the pages it needs, no page is
  lost, the other allocated blocks are still there with every byte unchanged, and nothing
  outside the heap has changed.\<close>

theorem kfree_coalesces:
  fixes st :: "'a heap_state_scheme"
  assumes "heap_ok (blocks (xs @ (l, True) # ys)) st" and "normal (xs @ (l, True) # ys)"
  shows "\<exists>st'. kfree (place xs + HEADER_SIZE) st = Inr st' \<and>
    heap_ok (blocks (coalesce (xs @ (l, False) # ys))) st' \<and>
    normal (coalesce (xs @ (l, False) # ys)) \<and> heap_frame st st' \<and>
    owned st' (page_count (total (blocks (coalesce (xs @ (l, False) # ys))))) =
      owned st (page_count (total (blocks (xs @ (l, True) # ys)))) \<and>
    filter snd (coalesce (xs @ (l, False) # ys)) = filter snd xs @ filter snd ys \<and>
    (\<forall>x. in_use HEAP_START (blocks (xs @ (l, False) # ys)) x \<longrightarrow> mem st' x = mem st x)"
  using kfree_refines [OF assms] normal_coalesce in_use_coalesce
  by (simp add: coalesce_used)

lemma one_block: "\<exists>st. kmalloc 100 heap0 = Some (Inr (0xE000000C, st)) \<and> heap_ok (blocks [(112, True)]) st"
  using kmalloc_refines [OF heap0_ok(1), of 100]
  by (auto simp: heap0_ok page_count_def heap_alloc_def split: option.splits sum.splits)

theorem kfree_coalesces_witness:
  "\<exists>st. kmalloc 100 heap0 = Some (Inr (0xE000000C, st)) \<and>
    (\<exists>st'. kfree (place [] + HEADER_SIZE) st = Inr st' \<and>
      heap_ok (blocks (coalesce ([] @ (112, False) # []))) st' \<and>
      normal (coalesce ([] @ (112, False) # [])) \<and> heap_frame st st' \<and>
      owned st' (page_count (total (blocks (coalesce ([] @ (112, False) # []))))) =
        owned st (page_count (total (blocks ([] @ (112, True) # [])))) \<and>
      filter snd (coalesce ([] @ (112, False) # [])) = filter snd [] @ filter snd [] \<and>
      (\<forall>x. in_use HEAP_START (blocks ([] @ (112, False) # [])) x \<longrightarrow> mem st' x = mem st x))"
proof -
  obtain st where st: "kmalloc 100 heap0 = Some (Inr (0xE000000C, st))"
    "heap_ok (blocks [(112, True)]) st"
    using one_block by blast
  have "heap_ok (blocks ([] @ (112, True) # [])) st" "normal ([] @ (112, True) # [])"
    using st(2) by simp_all
  from kfree_coalesces [OF this] st(1) show ?thesis by blast
qed

text \<open>C21: Round trip. When no free block fits, allocating and then freeing the pointer returned
  gives back the heap as it was: the same blocks, the same pages owned, and every byte of the
  allocated blocks as before.\<close>

theorem kmalloc_kfree_roundtrip:
  fixes st :: "'a heap_state_scheme"
  assumes "heap_ok (blocks bs) st" and "normal bs" and "fit (unat n + 12) (blocks bs) = None"
    and "unat n + 12 + total (blocks bs) \<le> 0x1FFFF000"
    and "kmalloc n st = Some (Inr (a, st'))"
  shows "\<exists>st''. kfree a st' = Inr st'' \<and> heap_ok (blocks bs) st'' \<and> heap_frame st st'' \<and>
    owned st'' (page_count (total (blocks bs))) = owned st (page_count (total (blocks bs))) \<and>
    (\<forall>x. in_use HEAP_START (blocks bs) x \<longrightarrow> mem st'' x = mem st x)"
proof -
  let ?bs' = "bs @ [(unat n + 12, True)]"
  have al: "heap_alloc (unat n + 12) (blocks bs) = (place bs, blocks ?bs')"
    using assms(3) by (simp add: heap_alloc_def linked_append)
  have m: "a = place bs + 12" "heap_ok (blocks ?bs') st'" "heap_frame st st'"
    "owned st' (page_count (total (blocks ?bs'))) = owned st (page_count (total (blocks bs)))"
    "\<And>x. in_use 0xE0000000 (blocks bs) x \<Longrightarrow> mem st' x = mem st x"
    using kmalloc_refines [OF assms(1,4)] assms(5) al by simp_all
  have nrm: "normal ?bs'" using assms(2) normal_last normal_append_used by auto
  have co: "coalesce (bs @ [(unat n + 12, False)]) = bs"
    using assms(2) coalesce_append [of bs "[(unat n + 12, False)]"] coalesce_normal by simp
  obtain st'' where "kfree (place bs + 12) st' = Inr st''" "heap_ok (blocks bs) st''"
    "heap_frame st' st''"
    "owned st'' (page_count (total (blocks bs))) = owned st' (page_count (total (blocks ?bs')))"
    "\<And>x. in_use 0xE0000000 (blocks bs) x \<Longrightarrow> mem st'' x = mem st' x"
    using kfree_refines [OF m(2) nrm] co by auto
  with m heap_frame_trans [OF m(3)] show ?thesis by auto
qed

theorem kmalloc_kfree_roundtrip_witness:
  "\<exists>a st'. kmalloc 100 heap0 = Some (Inr (a, st')) \<and>
    (\<exists>st''. kfree a st' = Inr st'' \<and> heap_ok (blocks []) st'' \<and> heap_frame heap0 st'' \<and>
      owned st'' (page_count (total (blocks []))) = owned heap0 (page_count (total (blocks []))) \<and>
      (\<forall>x. in_use HEAP_START (blocks []) x \<longrightarrow> mem st'' x = mem heap0 x))"
proof -
  obtain st where st: "kmalloc 100 heap0 = Some (Inr (0xE000000C, st))"
    using one_block by blast
  have "heap_ok (blocks []) heap0" using heap0_ok(1) by simp
  from kmalloc_kfree_roundtrip [OF this _ _ _ st] st show ?thesis by auto
qed

end
