(* ===== verification/Heap_Flaws.thy ===== *)
theory Heap_Flaws
  imports Heap_Free
begin

text \<open>
  The heap as a whole: the properties of \<^verbatim>\<open>kfree\<close>, the round trip of an allocation and its
  release, and two behaviours the code does not intend. \<^verbatim>\<open>split_chunk\<close> leaves the \<open>prev\<close>
  pointer of the block behind the split unchanged, so a later \<^verbatim>\<open>kfree\<close> can cut a live block
  out of the list and \<^verbatim>\<open>kmalloc\<close> hands its memory out again; and a request near the top of the
  32-bit range wraps in \<^verbatim>\<open>start + len\<close>, so no page is mapped for it.
\<close>

section \<open>Requests on small heaps\<close>

text \<open>One request on a heap inside its first page.\<close>

lemma small_request:
  fixes st :: "'a heap_state_scheme"
  assumes ok: "heap_ok bs st" and n: "unat n + 12 + total bs \<le> 4096"
    and room: "fit (unat n + 12) bs \<noteq> None \<or> bs \<noteq> [] \<or> 2 \<le> length (free_pages st)"
  shows "\<exists>st'. kmalloc n st = Some (Inr (fst (heap_alloc (unat n + 12) bs) + 12, st')) \<and>
    heap_ok (snd (heap_alloc (unat n + 12) bs)) st'"
proof -
  have "unat n + 12 + total bs \<le> 0x1FFFF000" using n by simp
  note R = kmalloc_refines [OF ok this]
  have "page_count (total bs + (unat n + 12)) \<le> 1"
    using n page_count_le_iff [of _ 1] by simp
  moreover have "bs \<noteq> [] \<Longrightarrow> 1 \<le> page_count (total bs)"
  proof -
    assume "bs \<noteq> []"
    then have "\<not> total bs \<le> 4096 * 0"
      using ok by (cases bs rule: total.cases) (auto simp: heap_ok_def)
    then show "1 \<le> page_count (total bs)" using page_count_le_iff [of "total bs" 0] by linarith
  qed
  ultimately have "\<not> (fit (unat n + 12) bs = None \<and> length (free_pages st) <
      2 * (page_count (total bs + (unat n + 12)) - page_count (total bs)))"
    using room by (cases "bs = []") auto
  with R show ?thesis by (auto split: option.splits sum.splits)
qed


text \<open>
  Freeing the last block of the list when its \<open>prev\<close> pointer leads to an allocated block:
  whatever lies between the two is no longer in the list.
\<close>

lemma kfree_cut:
  fixes st :: "'a heap_state_scheme"
  assumes m: "mapped st c 12" "mapped st z 12" and ap: "apart z 12 c 12" "z \<noteq> 0"
    and h: "header (mem st) c = (z, 0, hword l True)" "header (mem st) z = (q, nx, hword j True)"
  shows "\<exists>m'. kfree (c + 12) st = release_pages c (st\<lparr>mem := m'\<rparr>) \<and>
    header m' z = (q, 0, hword j True)"
proof -
  have nw: "unat c + 12 \<le> 4294967296" "unat z + 12 \<le> 4294967296"
    using m by (simp_all add: mapped_def)
  have ap': "apart c 12 z 12" using ap(1) apart_sym by simp
  show ?thesis
    using h ap(2)
    by (simp add: kfree_def glue_chunk_def glue_next_def glue_prev_def free_chunk_def header_access m
        header_stored nw header_store_apart [OF ap(1)] header_store_apart [OF ap'])
      (intro exI conjI, rule refl, simp add: header_stored nw header_store_apart [OF ap'])
qed

lemma release_none:
  assumes "pages_ok 1 st" and "0xE0000000 < unat c"
  shows "release_pages c st = Inr st"
proof -
  have "heap_max st = 0xE0001000"
    using pages_okD(4) [OF assms(1)] by (simp add: heap_page_def)
  with assms(2) show ?thesis
    by (subst release_pages_unfold) (simp add: word_le_nat_alt)
qed

lemma double_allocation:
  fixes st :: "'a heap_state_scheme"
  assumes ok: "heap_ok [] st" and room: "2 \<le> length (free_pages st)"
  shows "\<exists>s1 s2 s3 s4 s5 s6 s7.
    kmalloc 100 st = Some (Inr (0xE000000C, s1)) \<and>
    kmalloc 20 s1 = Some (Inr (0xE000007C, s2)) \<and>
    kfree 0xE000000C s2 = Inr s3 \<and>
    kmalloc 30 s3 = Some (Inr (0xE000000C, s4)) \<and>
    kmalloc 58 s4 = Some (Inr (0xE0000036, s5)) \<and>
    kfree 0xE000007C s5 = Inr s6 \<and>
    kmalloc 10 s6 = Some (Inr (0xE0000036, s7))"
proof -
  obtain s1 where s1: "kmalloc 100 st = Some (Inr (0xE000000C, s1))" "heap_ok [(112, True, 0)] s1"
    using small_request [OF ok, of 100] room by (auto simp: heap_alloc_def)
  obtain s2 where s2: "kmalloc 20 s1 = Some (Inr (0xE000007C, s2))"
    "heap_ok [(112, True, 0), (32, True, 0xE0000000)] s2"
    using small_request [OF s1(2), of 20] by (auto simp: heap_alloc_def)
  obtain s3 where s3: "kfree 0xE000000C s2 = Inr s3"
    "heap_ok [(112, False, 0), (32, True, 0xE0000000)] s3"
    using kfree_refines [of "[]" 112 "[(32, True)]" s2] s2(2) by auto
  obtain s4 where s4: "kmalloc 30 s3 = Some (Inr (0xE000000C, s4))"
    "heap_ok [(42, True, 0), (70, False, 0xE0000000), (32, True, 0xE0000000)] s4"
    using small_request [OF s3(2), of 30] by (auto simp: heap_alloc_def occupy_def)
  obtain s5 where s5: "kmalloc 58 s4 = Some (Inr (0xE0000036, s5))"
    "heap_ok [(42, True, 0), (70, True, 0xE0000000), (32, True, 0xE0000000)] s5"
    using small_request [OF s4(2), of 58] by (auto simp: heap_alloc_def occupy_def)
  have pg: "pages_ok 1 s5" and seg5: "seg (mem s5) 0xE0000000
      [(42, True, 0), (70, True, 0xE0000000), (32, True, 0xE0000000)] 0"
    using s5(2) by (simp_all add: heap_ok_def page_count_def)
  have m: "mapped s5 0xE0000070 12" "mapped s5 0xE0000000 12"
    by (rule pages_mapped [OF pg]; simp)+
  have "apart 0xE0000000 12 0xE0000070 12" by (simp add: apart_def)
  from kfree_cut [OF m this, of 32 0 "0xE000002A" 42] seg5
  obtain m' where m': "kfree (0xE0000070 + 12) s5 = release_pages 0xE0000070 (s5\<lparr>mem := m'\<rparr>)"
    "header m' 0xE0000000 = (0, 0, hword 42 True)"
    by auto
  define s6 where "s6 = s5\<lparr>mem := m'\<rparr>"
  have "release_pages 0xE0000070 s6 = Inr s6"
    using pg by (intro release_none) (simp_all add: s6_def)
  then have k6: "kfree 0xE000007C s5 = Inr s6" using m'(1) by (simp add: s6_def)
  have "heap_ok [(42, True, 0)] s6"
    using s5(2) m'(2) by (simp add: heap_ok_def s6_def page_count_def)
  from small_request [OF this, of 10]
  obtain s7 where "kmalloc 10 s6 = Some (Inr (0xE0000036, s7))" by (auto simp: heap_alloc_def)
  with s1(1) s2(1) s3(1) s4(1) s5(1) k6 show ?thesis by blast
qed

section \<open>Wrapping requests\<close>

lemma kmalloc_wraps:
  fixes st :: "'a heap_state_scheme"
  assumes ok: "heap_ok [] st" and n: "0x1FFFFFF4 \<le> n" "n \<le> 0xFFFFFFF4"
  shows "kmalloc n st = Some (Inl (PageFault 0xE0000000))"
proof -
  have pg: "pages_ok 0 st" "heap_first st = 0" using ok by (simp_all add: heap_ok_def)
  then have hm: "heap_max st = 0xE0000000" using pages_okD(4) [OF pg(1)] by (simp add: heap_page_def)
  have "0xE0000000 + (n + 12) = n - 0x1FFFFFF4" by simp
  moreover have "unat (n - 0x1FFFFFF4) = unat n - 0x1FFFFFF4"
    using n(1) by (simp add: unat_minus_small)
  moreover have "unat n \<le> 0xFFFFFFF4" using n(2) by (simp add: word_le_nat_alt)
  ultimately have "\<not> 0xE0000000 < 0xE0000000 + (n + 12)"
    unfolding word_less_nat_alt by (simp only:) simp
  then have al: "alloc_chunk 0xE0000000 (n + 12) (st\<lparr>heap_first := 0xE0000000\<rparr>) =
      Inr (st\<lparr>heap_first := 0xE0000000\<rparr>)"
    using hm by (subst alloc_chunk_unfold) simp
  have "translate (st\<lparr>heap_first := 0xE0000000\<rparr>) 0xE0000000 = None"
    using pg(1) by (intro pages_unmapped) simp_all
  then have "kmalloc_extend (n + 12) 0 st = Inl (PageFault 0xE0000000)"
    using al by (simp add: kmalloc_extend_def set_hprev_def write32_def)
  moreover have "kmalloc_find (n + 12) 0 0 st = Some (Inr (0, 0))"
    by (subst kmalloc_find.simps) simp
  ultimately show ?thesis by (simp add: kmalloc_def pg(2))
qed


text \<open>The 11 topmost requests wrap in \<open>len\<close> to less than the size of a header.\<close>

lemma wrapped_length:
  assumes "0xFFFFFFF4 < (n :: u32)"
  shows "0 < unat (n + 12)" and "unat (n + 12) < 12"
proof -
  define d where "d = unat n - 0xFFFFFFF4"
  have "0xFFFFFFF4 < unat n" "unat n < 4294967296" using assms by (simp_all add: word_less_nat_alt)
  then have d: "unat n + 12 = 4294967296 + d" "0 < d" "d < 12" unfolding d_def by linarith+
  have "unat (n + 12) = (unat n + unat (12 :: u32)) mod 2 ^ LENGTH(32)" by (rule unat_word_ariths(1))
  also have "\<dots> = (unat n + 12) mod 4294967296" by simp
  also have "\<dots> = d" using d(3) unfolding d(1) by simp
  finally show "0 < unat (n + 12)" "unat (n + 12) < 12" using d(2,3) by simp_all
qed

lemma extend_below_header:
  fixes st :: "'a heap_state_scheme"
  assumes pg: "pages_ok 0 st" and u: "0 < unat len" "unat len < 12"
  shows "case kmalloc_extend len 0 st of
      Inl e \<Rightarrow> e = Panic ''out of memory'' \<and> length (free_pages st) < 2
    | Inr (a, st') \<Rightarrow> a = 0xE000000C \<and> header (mem st') 0xE0000000 = (0, 0, hword (unat len) True) \<and>
        mapped st' 0xE0000000 4096 \<and> translate st' 0xE0001000 = None"
proof -
  let ?st0 = "st\<lparr>heap_first := 0xE0000000\<rparr>"
  have l: "unat (0xE0000000 + len) = 0xE0000000 + unat len" using u(2) by (subst unat_plus_small) simp_all
  have c1: "page_count (unat len) = 1" using u by (simp add: page_count_def)
  have "pages_ok 0 ?st0" using pg by simp
  note R = alloc_chunk_result [OF this l, unfolded c1]
  have fp: "free_pages ?st0 = free_pages st" by (simp add: free_pages_def)
  show ?thesis
  proof (cases "alloc_chunk 0xE0000000 len ?st0")
    case (Inl e)
    then have "kmalloc_extend len 0 st = Inl e" by (simp add: kmalloc_extend_def)
    then show ?thesis using R u(2) Inl fp by simp
  next
    case (Inr st1)
    then have p: "pages_ok 1 st1" using R u(2) by simp
    have m: "mapped st1 0xE0000000 12" "mapped st1 0xE0000000 4096" by (rule pages_mapped [OF p], simp_all)+
    have "if (0 :: u32) = 0 then 0xE0000000 = HEAP_START \<and> ?st0 = st\<lparr>heap_first := HEAP_START\<rparr>
        else ?st0 = st \<and> (\<exists>l. hlength 0 st = Inr l \<and> 0xE0000000 = 0 + l)" by simp
    from kmalloc_extend_tail [OF m(1) _ Inr this] obtain m' where
      e: "kmalloc_extend len 0 st = Inr (0xE0000000 + 12, st1\<lparr>mem := m'\<rparr>)" "header m' 0xE0000000 = (0, 0, hword (unat len) True)"
      by blast
    have "translate st1 0xE0001000 = None" by (rule pages_unmapped [OF p]) simp
    then show ?thesis using e m(2) by simp
  qed
qed

lemma kmalloc_wraps_below_header:
  fixes st :: "'a heap_state_scheme"
  assumes ok: "heap_ok [] st" and n: "0xFFFFFFF4 < n"
  shows "case kmalloc n st of None \<Rightarrow> False
    | Some (Inl e) \<Rightarrow> e = Panic ''out of memory'' \<and> length (free_pages st) < 2
    | Some (Inr (a, st')) \<Rightarrow> a = 0xE000000C \<and> header (mem st') 0xE0000000 = (0, 0, hword (unat (n + 12)) True) \<and>
        unat (n + 12) < 12 \<and> mapped st' 0xE0000000 4096 \<and> translate st' 0xE0001000 = None"
proof -
  have pg: "pages_ok 0 st" "heap_first st = 0" using ok by (simp_all add: heap_ok_def)
  define len where "len = n + 12"
  have u: "0 < unat len" "unat len < 12" unfolding len_def by (rule wrapped_length [OF n])+
  have "kmalloc_find len 0 0 st = Some (Inr (0, 0))" by (subst kmalloc_find.simps) simp
  then have "kmalloc n st = Some (kmalloc_extend len 0 st)" by (simp add: kmalloc_def pg(2) flip: len_def)
  with extend_below_header [OF pg(1) u] u(2) show ?thesis by (auto simp flip: len_def split: sum.splits)
qed

section \<open>The kernel's own test\<close>

text \<open>
  As long as no page is lost, the free pages can only have gone into the heap and into page
  tables, of which there are at most 1024.
\<close>

lemma entries_card: "card {..<1024 :: u32} \<le> 1024"
proof -
  have "card {..<1024 :: u32} \<le> card {..<1024 :: nat}"
    by (rule card_inj_on_le [of unat]) (auto simp: inj_on_def word_unat_eq_iff word_less_nat_alt)
  then show ?thesis by simp
qed

lemma free_lower:
  fixes st st' :: "'a heap_state_scheme"
  assumes ok: "heap_ok bs st" and own: "owned st' n = owned st (page_count (total bs))"
  shows "length (free_pages st) \<le> length (free_pages st') + n + 1024"
proof -
  have v: "vm_ok (pgd_kern st) st" using ok by (auto simp: heap_ok_def dest: pages_okD(1))
  have "distinct (free_pages st)" using v by (simp add: vm_ok_def)
  then have "length (free_pages st) = card (set (free_pages st))" by (simp add: distinct_card)
  also have "set (free_pages st) \<subseteq> owned st' n" unfolding own using vm_okD(5) [OF v] by (auto simp: owned_def)
  also have "owned st' n \<subseteq> set (free_pages st') \<union> set (heap_frames st' n) \<union> table st' (pgd_kern st') ` {..<1024}"
    by (auto simp: owned_def)
  finally have "length (free_pages st) \<le>
      card (set (free_pages st') \<union> set (heap_frames st' n) \<union> table st' (pgd_kern st') ` {..<1024})"
    by (simp add: card_mono)
  also have "\<dots> \<le> card (set (free_pages st')) + card (set (heap_frames st' n)) + card (table st' (pgd_kern st') ` {..<1024})"
    by (rule order_trans [OF card_Un_le]) (simp add: card_Un_le)
  also have "\<dots> \<le> length (free_pages st') + n + 1024"
  proof (intro add_mono)
    show "card (set (heap_frames st' n)) \<le> n" using card_length [of "heap_frames st' n"] by (simp add: heap_frames_def)
    show "card (table st' (pgd_kern st') ` {..<1024}) \<le> 1024"
      by (rule order_trans [OF card_image_le entries_card]) simp
  qed (rule card_length)
  finally show ?thesis .
qed

lemma alloc_last:
  fixes st st0 :: "'a heap_state_scheme"
  assumes ok: "heap_ok (blocks bs) st" and u: "\<forall>b \<in> set bs. snd b"
    and ok0: "heap_ok [] st0" and own: "owned st (page_count (total (blocks bs))) = owned st0 0"
    and n: "unat n + 12 + total (blocks bs) \<le> 0x100000"
  shows "kmalloc n st = Some (Inl (Panic ''out of memory'')) \<and> length (free_pages st0) < 2048 \<or>
    (\<exists>st'. kmalloc n st = Some (Inr (place bs + 12, st')) \<and>
      heap_ok (blocks (bs @ [(unat n + 12, True)])) st' \<and>
      owned st' (page_count (total (blocks (bs @ [(unat n + 12, True)])))) = owned st0 0 \<and> heap_frame st st')"
proof -
  have fit: "fit k (linked z a bs) = None" for k z a
    using u by (induction bs arbitrary: z a) auto
  have n': "unat n + 12 + total (blocks bs) \<le> 0x1FFFF000" using n by simp
  have "page_count (total (blocks bs)) \<le> 256" "page_count (total (blocks bs) + (unat n + 12)) \<le> 256"
    using n by (simp_all add: page_count_le_iff)
  moreover have "length (free_pages st0) \<le> length (free_pages st) + page_count (total (blocks bs)) + 1024"
    using free_lower [OF ok0, of st "page_count (total (blocks bs))"] own by simp
  ultimately have "length (free_pages st0) < 2048"
    if "length (free_pages st) < 2 * (page_count (total (blocks bs) + (unat n + 12)) - page_count (total (blocks bs)))"
    using that by linarith
  then show ?thesis
    using kmalloc_refines [OF ok n'] fit own
    by (auto simp: heap_alloc_def linked_append split: option.splits sum.splits)
qed

lemma test_heap_result:
  fixes st :: "'a heap_state_scheme"
  assumes ok: "heap_ok [] st"
  shows "test_heap st = Some (Inl (Panic ''out of memory'')) \<and> length (free_pages st) < 2048 \<or>
    (\<exists>st'. test_heap st = Some (Inr ([0xE000000C, 0xE000004A, 0xE000024A, 0xE00015DE,
        0xE000000C, 0xE000004A, 0xE000024A, 0xE00015DE], st')) \<and>
      heap_ok [] st' \<and> owned st' 0 = owned st 0 \<and> heap_frame st st')"
proof -
  let ?oom = "Some (Inl (Panic ''out of memory''))"
  have "heap_ok (blocks []) st" using ok by simp
  from alloc_last [OF this _ ok, of 50]
  consider "kmalloc 50 st = ?oom" "length (free_pages st) < 2048" | s1 where "kmalloc 50 st = Some (Inr (0xE000000C, s1))"
    "heap_ok (blocks [(62, True)]) s1"
    "owned s1 (page_count (total (blocks [(62, True)]))) = owned st 0" "heap_frame st s1" by auto
  then show ?thesis
  proof cases
    case 1
    then show ?thesis by (simp add: test_heap_def)
  next
    case s1: 2
    from alloc_last [OF s1(2) _ ok s1(3), of 500]
    consider "kmalloc 500 s1 = ?oom" "length (free_pages st) < 2048" | s2 where "kmalloc 500 s1 = Some (Inr (0xE000004A, s2))"
      "heap_ok (blocks [(62, True), (512, True)]) s2"
      "owned s2 (page_count (total (blocks [(62, True), (512, True)]))) = owned st 0" "heap_frame st s2"
      using s1(3) heap_frame_trans [OF s1(4)] by auto
    then show ?thesis
    proof cases
      case 1
      then show ?thesis using s1 by (simp add: test_heap_def)
    next
      case s2: 2
      from alloc_last [OF s2(2) _ ok s2(3), of 5000]
      consider "kmalloc 5000 s2 = ?oom" "length (free_pages st) < 2048" | s3 where "kmalloc 5000 s2 = Some (Inr (0xE000024A, s3))"
        "heap_ok (blocks [(62, True), (512, True), (5012, True)]) s3"
        "owned s3 (page_count (total (blocks [(62, True), (512, True), (5012, True)]))) = owned st 0" "heap_frame st s3"
        using s2(3) heap_frame_trans [OF s2(4)] by auto
      then show ?thesis
      proof cases
        case 1
        then show ?thesis using s1 s2 by (simp add: test_heap_def)
      next
        case s3: 2
        let ?bs = "[(62, True), (512, True), (5012, True), (50012, True)]"
        from alloc_last [OF s3(2) _ ok s3(3), of 50000]
        consider "kmalloc 50000 s3 = ?oom" "length (free_pages st) < 2048" | s4 where "kmalloc 50000 s3 = Some (Inr (0xE00015DE, s4))"
          "heap_ok (blocks ?bs) s4" "owned s4 (page_count (total (blocks ?bs))) = owned st 0" "heap_frame st s4"
          using s3(3) heap_frame_trans [OF s3(4)] by auto
        then show ?thesis
        proof cases
          case 1
          then show ?thesis using s1 s2 s3 by (simp add: test_heap_def)
        next
          case s4: 2
          obtain s5 where s5: "kfree 0xE000000C s4 = Inr s5"
            "heap_ok (blocks [(62, False), (512, True), (5012, True), (50012, True)]) s5"
            "owned s5 (page_count (total (blocks ?bs))) = owned st 0" "heap_frame st s5"
            using kfree_refines [of "[]" 62 "[(512, True), (5012, True), (50012, True)]" s4] s4 heap_frame_trans [OF s4(4)] by auto
          obtain s6 where s6: "kfree 0xE000004A s5 = Inr s6"
            "heap_ok (blocks [(574, False), (5012, True), (50012, True)]) s6"
            "owned s6 (page_count (total (blocks ?bs))) = owned st 0" "heap_frame st s6"
            using kfree_refines [of "[(62, False)]" 512 "[(5012, True), (50012, True)]" s5] s5 heap_frame_trans [OF s5(4)] by auto
          obtain s7 where s7: "kfree 0xE000024A s6 = Inr s7"
            "heap_ok (blocks [(5586, False), (50012, True)]) s7"
            "owned s7 (page_count (total (blocks ?bs))) = owned st 0" "heap_frame st s7"
            using kfree_refines [of "[(574, False)]" 5012 "[(50012, True)]" s6] s6 heap_frame_trans [OF s6(4)] by auto
          obtain s8 where s8: "kfree 0xE00015DE s7 = Inr s8" "heap_ok [] s8" "owned s8 0 = owned st 0"
            "heap_frame st s8"
            using kfree_refines [of "[(5586, False)]" 50012 "[]" s7] s7 heap_frame_trans [OF s7(4)] by auto
          have "test_heap st = Some (Inr ([0xE000000C, 0xE000004A, 0xE000024A, 0xE00015DE,
              0xE000000C, 0xE000004A, 0xE000024A, 0xE00015DE], s8))"
            using s1(1) s2(1) s3(1) s4(1) s5(1) s6(1) s7(1) s8(1) by (simp add: test_heap_def)
          with s8 show ?thesis by blast
        qed
      qed
    qed
  qed
qed

section \<open>Properties\<close>

text \<open>C20: \<open>split_chunk\<close> does not repair the \<open>prev\<close> pointer of the block behind the new one, so
  five requests and two releases, all of them correct uses of the interface, end with the
  same memory handed out twice: starting from an empty heap with two free pages, the block
  \<open>0xE0000036\<close> returned by the fourth request is still allocated when the fifth one returns it
  again.\<close>

theorem kmalloc_double_allocation:
  fixes st :: "'a heap_state_scheme"
  assumes "heap_ok [] st" and "2 \<le> length (free_pages st)"
  shows "\<exists>s1 s2 s3 s4 s5 s6 s7.
    kmalloc 100 st = Some (Inr (0xE000000C, s1)) \<and>
    kmalloc 20 s1 = Some (Inr (0xE000007C, s2)) \<and>
    kfree 0xE000000C s2 = Inr s3 \<and>
    kmalloc 30 s3 = Some (Inr (0xE000000C, s4)) \<and>
    kmalloc 58 s4 = Some (Inr (0xE0000036, s5)) \<and>
    kfree 0xE000007C s5 = Inr s6 \<and>
    kmalloc 10 s6 = Some (Inr (0xE0000036, s7))"
  by (rule double_allocation [OF assms])

theorem kmalloc_double_allocation_witness:
  "\<exists>s1 s2 s3 s4 s5 s6 s7.
    kmalloc 100 heap0 = Some (Inr (0xE000000C, s1)) \<and>
    kmalloc 20 s1 = Some (Inr (0xE000007C, s2)) \<and>
    kfree 0xE000000C s2 = Inr s3 \<and>
    kmalloc 30 s3 = Some (Inr (0xE000000C, s4)) \<and>
    kmalloc 58 s4 = Some (Inr (0xE0000036, s5)) \<and>
    kfree 0xE000007C s5 = Inr s6 \<and>
    kmalloc 10 s6 = Some (Inr (0xE0000036, s7))"
  by (rule kmalloc_double_allocation) (simp_all add: heap0_ok)

text \<open>C36: On an empty heap, no request from 512 MB less 12 bytes up ends in the panic for a lack of
  memory, as it should, if two pages are free. Up to \<open>0xFFFFFFF4\<close> bytes \<open>start + len\<close> wraps (or \<open>len\<close>
  becomes 0): no page is mapped, and the store to the header faults at \<open>HEAP_START\<close>. For the 11 requests
  above, \<open>len\<close> itself wraps to at most 11: one page is mapped, and \<open>kmalloc\<close> returns a pointer into it as
  if it had the nearly 4 GB, to a block whose whole length is less than that of its own header.\<close>

theorem kmalloc_request_wraps:
  fixes st :: "'a heap_state_scheme"
  assumes "heap_ok [] st" and "0x1FFFFFF4 \<le> n"
  shows "if n \<le> 0xFFFFFFF4 then kmalloc n st = Some (Inl (PageFault HEAP_START))
    else case kmalloc n st of None \<Rightarrow> False
      | Some (Inl e) \<Rightarrow> e = Panic ''out of memory'' \<and> length (free_pages st) < 2
      | Some (Inr (a, st')) \<Rightarrow> a = HEAP_START + 12 \<and>
          header (mem st') HEAP_START = (0, 0, hword (unat (n + 12)) True) \<and> unat (n + 12) < 12 \<and>
          mapped st' HEAP_START 4096 \<and> translate st' (HEAP_START + 4096) = None"
  using kmalloc_wraps [OF assms] kmalloc_wraps_below_header [OF assms(1), of n]
  by (auto simp: not_le split: option.splits sum.splits)

theorem kmalloc_request_wraps_witness:
  "kmalloc 0x20000000 heap0 = Some (Inl (PageFault HEAP_START)) \<and>
   (\<exists>st'. kmalloc 0xFFFFFFFF heap0 = Some (Inr (0xE000000C, st')) \<and>
     header (mem st') 0xE0000000 = (0, 0, hword 11 True))"
proof -
  have "\<not> length (free_pages heap0) < 2" by (simp add: heap0_ok)
  then show ?thesis
    using kmalloc_request_wraps [OF heap0_ok(1), of "0x20000000"] kmalloc_request_wraps [OF heap0_ok(1), of "0xFFFFFFFF"]
    by (simp split: option.splits sum.splits prod.splits)
qed


text \<open>C32: \<open>test_heap\<close> on an empty heap: it panics when the pages run out, which
  they cannot with 2048 free pages, and otherwise prints
  the four pointers that first fit from an empty heap gives, each twice, and ends with the heap
  empty and every page owned as before. It never faults.\<close>

theorem test_heap_restores_heap:
  fixes st :: "'a heap_state_scheme"
  assumes "heap_ok [] st"
  shows "(case test_heap st of None \<Rightarrow> False
    | Some (Inl e) \<Rightarrow> e = Panic ''out of memory'' \<and> length (free_pages st) < 2048
    | Some (Inr (ps, st')) \<Rightarrow> ps = [0xE000000C, 0xE000004A, 0xE000024A, 0xE00015DE,
          0xE000000C, 0xE000004A, 0xE000024A, 0xE00015DE] \<and>
        heap_ok [] st' \<and> owned st' 0 = owned st 0)"
  using test_heap_result [OF assms] by auto

theorem test_heap_restores_heap_witness:
  "(case test_heap heap0 of None \<Rightarrow> False
    | Some (Inl e) \<Rightarrow> e = Panic ''out of memory'' \<and> length (free_pages heap0) < 2048
    | Some (Inr (ps, st')) \<Rightarrow> ps = [0xE000000C, 0xE000004A, 0xE000024A, 0xE00015DE,
          0xE000000C, 0xE000004A, 0xE000024A, 0xE00015DE] \<and>
        heap_ok [] st' \<and> owned st' 0 = owned heap0 0)"
  by (rule test_heap_restores_heap) (rule heap0_ok)

end
