(* ===== verification/Ports.thy ===== *)
theory Ports
  imports Prelude
begin

text \<open>
  Port access: \<^verbatim>\<open>libs/common.c\<close>. A write to a port is an event; the devices are outside the
  program, so the state keeps the sequence of writes. What a device answers to a read is a
  parameter.
\<close>

record port_state =
  port_log :: "(u16 \<times> u8) list"    \<comment> \<open>the writes so far, the oldest first\<close>
  intr_enabled :: bool               \<comment> \<open>the interrupt flag of the processor\<close>

definition outb :: "u16 \<Rightarrow> u8 \<Rightarrow> 'a port_state_scheme \<Rightarrow> 'a port_state_scheme" where
  "outb port value st = st\<lparr>port_log := port_log st @ [(port, value)]\<rparr>"

definition inb :: "(u16 \<Rightarrow> u8) \<Rightarrow> u16 \<Rightarrow> u8" where
  "inb device port = device port"

text \<open>
  \<^verbatim>\<open>inw\<close> runs the instruction \<^verbatim>\<open>inb\<close>, which sets the low byte of the register \<^verbatim>\<open>ax\<close> only: the
  high byte of the result is what the register held before.
\<close>

definition inw :: "(u16 \<Rightarrow> u8) \<Rightarrow> u16 \<Rightarrow> u16 \<Rightarrow> u16" where
  "inw device ax port = (ax AND 0xff00) OR ucast (device port)"

definition enable_intr :: "'a port_state_scheme \<Rightarrow> 'a port_state_scheme" where
  "enable_intr st = st\<lparr>intr_enabled := True\<rparr>"

definition disable_intr :: "'a port_state_scheme \<Rightarrow> 'a port_state_scheme" where
  "disable_intr st = st\<lparr>intr_enabled := False\<rparr>"

text \<open>A run of writes.\<close>

definition outbs :: "(u16 \<times> u8) list \<Rightarrow> 'a port_state_scheme \<Rightarrow> 'a port_state_scheme" where
  "outbs ws st = st\<lparr>port_log := port_log st @ ws\<rparr>"

lemma outbs_Nil [simp]: "outbs [] st = st"
  by (simp add: outbs_def)

lemma outb_outbs: "outb p v (outbs ws st) = outbs (ws @ [(p, v)]) st" "outb p v st = outbs [(p, v)] st"
  by (simp_all add: outb_def outbs_def)

lemma port_log_outbs [simp]: "port_log (outbs ws st) = port_log st @ ws"
  by (simp add: outbs_def)

end
