(* ===== verification/Console.thy ===== *)
theory Console
  imports Ports
begin

text \<open>
  The text console: \<^verbatim>\<open>drivers/console.c\<close> and \<^verbatim>\<open>include/console.h\<close>. The video memory is an
  array of 16-bit cells; its first 2000 are the screen of 25 rows of 80. The cursor is kept in
  two bytes and sent to the display controller through the ports \<open>0x3D4\<close> and \<open>0x3D5\<close>.
\<close>

section \<open>State and operations\<close>

datatype real_color =
    rc_black | rc_blue | rc_green | rc_cyan | rc_red | rc_magenta | rc_brown | rc_light_grey
  | rc_dark_grey | rc_light_blue | rc_light_green | rc_light_cyan | rc_light_red
  | rc_light_magenta | rc_light_brown | rc_white

fun color_code :: "real_color \<Rightarrow> u8" where
  "color_code rc_black = 0" | "color_code rc_blue = 1" | "color_code rc_green = 2"
| "color_code rc_cyan = 3" | "color_code rc_red = 4" | "color_code rc_magenta = 5"
| "color_code rc_brown = 6" | "color_code rc_light_grey = 7" | "color_code rc_dark_grey = 8"
| "color_code rc_light_blue = 9" | "color_code rc_light_green = 10"
| "color_code rc_light_cyan = 11" | "color_code rc_light_red = 12"
| "color_code rc_light_magenta = 13" | "color_code rc_light_brown = 14" | "color_code rc_white = 15"

record console_state = port_state +
  video_memory :: "nat \<Rightarrow> u16"
  cursor_x :: u8
  cursor_y :: u8

definition cursor_location :: "'a console_state_scheme \<Rightarrow> u16" where
  "cursor_location st = ucast (cursor_y st) * 80 + ucast (cursor_x st)"

definition move_cursor :: "'a console_state_scheme \<Rightarrow> 'a console_state_scheme" where
  "move_cursor st =
     (let location = cursor_location st
      in outb 0x3D5 (ucast location) (outb 0x3D4 15
           (outb 0x3D5 (ucast (drop_bit 8 location)) (outb 0x3D4 14 st))))"

text \<open>The attribute and the blank cell of \<^verbatim>\<open>console_clear\<close> and \<^verbatim>\<open>scroll\<close>: white on black.\<close>

definition blank :: u16 where
  "blank = 0x20 OR push_bit 8 (ucast ((push_bit 4 0 OR (15 AND 0x0F)) :: u8))"

definition set_cell :: "nat \<Rightarrow> u16 \<Rightarrow> 'a console_state_scheme \<Rightarrow> 'a console_state_scheme" where
  "set_cell i v st = st\<lparr>video_memory := (video_memory st)(i := v)\<rparr>"

definition console_clear :: "'a console_state_scheme \<Rightarrow> 'a console_state_scheme" where
  "console_clear st =
     move_cursor ((fold (\<lambda>i. set_cell i blank) [0..<80 * 25] st)\<lparr>cursor_x := 0, cursor_y := 0\<rparr>)"

definition scroll :: "'a console_state_scheme \<Rightarrow> 'a console_state_scheme" where
  "scroll st =
     (if 25 \<le> cursor_y st
      then let st = fold (\<lambda>i st. set_cell i (video_memory st (i + 80)) st) [0..<24 * 80] st;
               st = fold (\<lambda>i. set_cell i blank) [24 * 80..<25 * 80] st
           in st\<lparr>cursor_y := 24\<rparr>
      else st)"

definition attribute_byte :: "real_color \<Rightarrow> real_color \<Rightarrow> u8" where
  "attribute_byte back fore = push_bit 4 (color_code back) OR (color_code fore AND 0x0F)"

text \<open>The cell for a character; \<^verbatim>\<open>char\<close> is signed, so a negative one would extend its sign.\<close>

definition char_cell :: "u8 \<Rightarrow> real_color \<Rightarrow> real_color \<Rightarrow> u16" where
  "char_cell c back fore = scast c OR push_bit 8 (ucast (attribute_byte back fore))"

text \<open>The branches of \<^verbatim>\<open>console_putc_color\<close>. \<open>\<le>s\<close> is the comparison of signed characters.\<close>

definition putc_char :: "u8 \<Rightarrow> real_color \<Rightarrow> real_color \<Rightarrow> 'a console_state_scheme \<Rightarrow> 'a console_state_scheme" where
  "putc_char c back fore st =
     (if c = 0x08 \<and> cursor_x st \<noteq> 0 then st\<lparr>cursor_x := cursor_x st - 1\<rparr>
      else if c = 0x09 then st\<lparr>cursor_x := (cursor_x st + 8) AND NOT (8 - 1)\<rparr>
      else if c = 0x0D then st\<lparr>cursor_x := 0\<rparr>
      else if c = 0x0A then st\<lparr>cursor_x := 0, cursor_y := cursor_y st + 1\<rparr>
      else if 0x20 \<le>s c
      then (set_cell (unat (cursor_y st) * 80 + unat (cursor_x st)) (char_cell c back fore) st)
             \<lparr>cursor_x := cursor_x st + 1\<rparr>
      else st)"

definition putc_wrap :: "'a console_state_scheme \<Rightarrow> 'a console_state_scheme" where
  "putc_wrap st =
     (if 80 \<le> cursor_x st then st\<lparr>cursor_x := 0, cursor_y := cursor_y st + 1\<rparr> else st)"

definition console_putc_color ::
  "u8 \<Rightarrow> real_color \<Rightarrow> real_color \<Rightarrow> 'a console_state_scheme \<Rightarrow> 'a console_state_scheme" where
  "console_putc_color c back fore st = move_cursor (scroll (putc_wrap (putc_char c back fore st)))"

text \<open>A C string is the list of its bytes up to the terminating zero.\<close>

fun console_write_color ::
  "u8 list \<Rightarrow> real_color \<Rightarrow> real_color \<Rightarrow> 'a console_state_scheme \<Rightarrow> 'a console_state_scheme" where
  "console_write_color [] back fore st = st"
| "console_write_color (c # cs) back fore st =
     (if c = 0 then st
      else console_write_color cs back fore (console_putc_color c back fore st))"

definition console_write :: "u8 list \<Rightarrow> 'a console_state_scheme \<Rightarrow> 'a console_state_scheme" where
  "console_write cs st = console_write_color cs rc_black rc_white st"


section \<open>The loops\<close>

lemma fold_set_cell:
  "fold (\<lambda>i. set_cell i v) is st =
     st\<lparr>video_memory := (\<lambda>i. if i \<in> set is then v else video_memory st i)\<rparr>"
  by (induction "is" arbitrary: st) (auto simp: set_cell_def fun_eq_iff)

text \<open>Copying upwards reads every cell before it is overwritten.\<close>

lemma fold_copy:
  "fold (\<lambda>i st. set_cell i (video_memory st (i + 80)) st) [0..<n] st =
     st\<lparr>video_memory := (\<lambda>i. if i < n then video_memory st (i + 80) else video_memory st i)\<rparr>"
proof (induction n)
  case 0
  then show ?case by simp
next
  case (Suc n)
  then show ?case by (auto simp: set_cell_def fun_eq_iff less_Suc_eq)
qed

lemma scroll_eq:
  "scroll st = (if 25 \<le> cursor_y st
     then st\<lparr>video_memory := (\<lambda>i. if i < 1920 then video_memory st (i + 80)
         else if i < 2000 then blank else video_memory st i), cursor_y := 24\<rparr>
     else st)"
proof -
  have *: "fold (\<lambda>i. set_cell i blank) [1920..<2000] t =
      t\<lparr>video_memory := (\<lambda>i. if 1920 \<le> i \<and> i < 2000 then blank else video_memory t i)\<rparr>" for t :: "'a console_state_scheme"
    unfolding fold_set_cell by (simp add: fun_eq_iff del: upt_conv_Cons upt_rec_numeral)
  have **: "fold (\<lambda>i st. set_cell i (video_memory st (i + 80)) st) [0..<1920] t =
     t\<lparr>video_memory := (\<lambda>i. if i < 1920 then video_memory t (i + 80) else video_memory t i)\<rparr>" for t :: "'a console_state_scheme"
    by (rule fold_copy)
  show ?thesis
    unfolding scroll_def by (simp add: * ** fun_eq_iff del: upt_conv_Cons upt_rec_numeral)
qed

lemma cursor_port_simps [simp]:
  "video_memory (outb p v st) = video_memory st" "cursor_x (outb p v st) = cursor_x st"
  "cursor_y (outb p v st) = cursor_y st" "port_log (outb p v st) = port_log st @ [(p, v)]"
  by (simp_all add: outb_def)

lemma move_cursor_simps [simp]:
  "video_memory (move_cursor st) = video_memory st" "cursor_x (move_cursor st) = cursor_x st"
  "cursor_y (move_cursor st) = cursor_y st"
  by (simp_all add: move_cursor_def Let_def)

section \<open>The screen as rows of cells\<close>

definition rows :: "'a console_state_scheme \<Rightarrow> u16 list list" where
  "rows st = map (\<lambda>r. map (\<lambda>c. video_memory st (80 * r + c)) [0..<80]) [0..<25]"

definition console_ok :: "'a console_state_scheme \<Rightarrow> bool" where
  "console_ok st \<longleftrightarrow> cursor_x st < 80 \<and> cursor_y st < 25"

text \<open>The specification of \<^verbatim>\<open>console_putc_color\<close> on the rows and the cursor.\<close>

type_synonym screen = "u16 list list \<times> nat \<times> nat"

definition screen_of :: "'a console_state_scheme \<Rightarrow> screen" where
  "screen_of st = (rows st, unat (cursor_x st), unat (cursor_y st))"

definition screen_char :: "u8 \<Rightarrow> u16 \<Rightarrow> screen \<Rightarrow> screen" where
  "screen_char c cell s = (case s of (rs, x, y) \<Rightarrow>
     if c = 8 \<and> x \<noteq> 0 then (rs, x - 1, y)
     else if c = 9 then (rs, 8 * (x div 8 + 1), y)
     else if c = 13 then (rs, 0, y)
     else if c = 10 then (rs, 0, y + 1)
     else if 32 \<le> c \<and> c < 128 then (rs[y := (rs ! y)[x := cell]], x + 1, y)
     else (rs, x, y))"

definition screen_fit :: "screen \<Rightarrow> screen" where
  "screen_fit s = (case s of (rs, x, y) \<Rightarrow>
     let (x, y) = (if 80 \<le> x then (0, y + 1) else (x, y))
     in if 25 \<le> y then (tl rs @ [replicate 80 blank], x, 24) else (rs, x, y))"

lemma length_rows [simp]: "length (rows st) = 25"
  by (simp add: rows_def del: upt_conv_Cons upt_rec_numeral)

lemma rows_nth: "r < 25 \<Longrightarrow> rows st ! r = map (\<lambda>c. video_memory st (80 * r + c)) [0..<80]"
  by (simp add: rows_def del: upt_conv_Cons upt_rec_numeral)

lemma rows_set_cell:
  assumes "x < 80" and "y < 25"
  shows "rows (set_cell (y * 80 + x) v st) = (rows st)[y := (rows st ! y)[x := v]]"
proof (rule nth_equalityI)
  fix r
  assume "r < length (rows (set_cell (y * 80 + x) v st))"
  then have r: "r < 25" by simp
  have cell: "80 * r + c = y * 80 + x \<longleftrightarrow> r = y \<and> c = x" if "c < 80" for c
  proof -
    have "(80 * r + c) div 80 = r" "(80 * r + c) mod 80 = c"
      "(y * 80 + x) div 80 = y" "(y * 80 + x) mod 80 = x"
      using that assms(1) by simp_all
    then show ?thesis by (metis mult.commute)
  qed
  have "map (\<lambda>c. video_memory (set_cell (y * 80 + x) v st) (80 * r + c)) [0..<80] =
      (if r = y then (map (\<lambda>c. video_memory st (80 * r + c)) [0..<80])[x := v]
       else map (\<lambda>c. video_memory st (80 * r + c)) [0..<80])"
    by (rule nth_equalityI)
      (auto simp: set_cell_def cell nth_list_update simp del: upt_conv_Cons upt_rec_numeral)
  then show "rows (set_cell (y * 80 + x) v st) ! r = (rows st)[y := (rows st ! y)[x := v]] ! r"
    using r assms(2) by (simp add: rows_nth nth_list_update del: upt_conv_Cons upt_rec_numeral)
qed simp

lemma rows_scroll:
  "rows (st\<lparr>video_memory := (\<lambda>i. if i < 1920 then video_memory st (i + 80)
     else if i < 2000 then blank else video_memory st i)\<rparr>) = tl (rows st) @ [replicate 80 blank]"
proof (rule nth_equalityI)
  fix r
  assume "r < length (rows (st\<lparr>video_memory := (\<lambda>i. if i < 1920 then video_memory st (i + 80)
     else if i < 2000 then blank else video_memory st i)\<rparr>))"
  then have r: "r < 25" by simp
  show "rows (st\<lparr>video_memory := (\<lambda>i. if i < 1920 then video_memory st (i + 80)
     else if i < 2000 then blank else video_memory st i)\<rparr>) ! r
     = (tl (rows st) @ [replicate 80 blank]) ! r"
  proof (cases "r < 24")
    case True
    then show ?thesis
      by (auto simp: rows_nth nth_append nth_tl algebra_simps simp del: upt_conv_Cons upt_rec_numeral
          intro!: map_cong)
  next
    case False
    with r have "r = 24" by simp
    then show ?thesis
      by (auto simp: rows_nth nth_append simp del: upt_conv_Cons upt_rec_numeral
          intro!: nth_equalityI)
  qed
qed simp


section \<open>The refinement\<close>

lemma printable_iff: "0x20 \<le>s (c :: u8) \<longleftrightarrow> 32 \<le> c \<and> c < 128"
proof -
  have "sint (0x20 :: u8) = 32" by simp
  then show ?thesis
    unfolding word_sle_eq sint_u8 [of c]
    using unsigned_less [where w = c and 'a = int]
    by (auto simp: word_le_def word_less_def uint_lt_0)
qed

lemma console_okD:
  assumes "console_ok st"
  shows "unat (cursor_x st) < 80" and "unat (cursor_y st) < 25"
  using assms by (simp_all add: console_ok_def word_less_nat_alt)

lemma unat_u8_plus: "unat (x :: u8) + unat y < 256 \<Longrightarrow> unat (x + y) = unat x + unat y"
  by (simp add: unat_word_ariths)

lemma putc_char_refines:
  assumes "console_ok st"
  shows "screen_of (putc_char c back fore st) = screen_char c (char_cell c back fore) (screen_of st)"
    and "unat (cursor_x (putc_char c back fore st)) \<le> 80"
    and "unat (cursor_y (putc_char c back fore st)) \<le> 25"
    and "unat (cursor_x (putc_char c back fore st)) = 80 \<longrightarrow>
      unat (cursor_y (putc_char c back fore st)) < 25"
proof -
  note D = console_okD [OF assms]
  have x1: "unat (cursor_x st + 1) = Suc (unat (cursor_x st))"
    using D(1) unat_u8_plus [of "cursor_x st" 1] by simp
  have y1: "unat (cursor_y st + 1) = Suc (unat (cursor_y st))"
    using D(2) unat_u8_plus [of "cursor_y st" 1] by simp
  have xm: "cursor_x st \<noteq> 0 \<Longrightarrow> unat (cursor_x st - 1) = unat (cursor_x st) - 1"
    by (simp add: unat_minus_one)
  have "unat (cursor_x st + 8) = unat (cursor_x st) + 8"
    using D(1) unat_u8_plus [of "cursor_x st" 8] by simp
  then have tab: "unat ((cursor_x st + 8) AND NOT 7) = 8 * (unat (cursor_x st) div 8 + 1)"
    by (simp only: unat_mask3) (simp add: div_add_self2 [of 8 "unat (cursor_x st)", simplified])
  have z: "cursor_x st \<noteq> 0 \<longleftrightarrow> unat (cursor_x st) \<noteq> 0" by (simp add: unat_eq_0)
  have tab80: "8 * (unat (cursor_x st) div 8 + 1) \<le> 80" using D(1) by simp
  have rw: "rows (st\<lparr>cursor_x := a\<rparr>) = rows st" "rows (st\<lparr>cursor_x := a, cursor_y := b\<rparr>) = rows st"
    for st :: "'b console_state_scheme" and a b by (simp_all add: rows_def)
  have m7: "(8 - 1 :: u8) = 7" by simp
  have sc: "cursor_x (set_cell i v st) = cursor_x st" "cursor_y (set_cell i v st) = cursor_y st" for i v
    by (simp_all add: set_cell_def)
  show "screen_of (putc_char c back fore st) = screen_char c (char_cell c back fore) (screen_of st)"
    unfolding putc_char_def printable_iff m7
    using xm tab x1 y1 z rows_set_cell [OF D, where st = st]
    by (simp add: screen_of_def screen_char_def rw sc)
  show "unat (cursor_x (putc_char c back fore st)) \<le> 80"
    unfolding putc_char_def printable_iff m7
    using D(1) xm tab tab80 x1 by (auto simp: sc)
  show "unat (cursor_y (putc_char c back fore st)) \<le> 25"
    unfolding putc_char_def printable_iff m7
    using D(2) y1 by (auto simp: sc)
  show "unat (cursor_x (putc_char c back fore st)) = 80 \<longrightarrow>
      unat (cursor_y (putc_char c back fore st)) < 25"
    unfolding putc_char_def printable_iff m7
    using D(2) by (auto simp: sc)
qed

lemma rows_cong: "video_memory s = video_memory t \<Longrightarrow> rows s = rows t"
  by (simp add: rows_def)

lemma scroll_simps:
  "rows (scroll st) = (if 25 \<le> cursor_y st then tl (rows st) @ [replicate 80 blank] else rows st)"
  "cursor_x (scroll st) = cursor_x st"
  "cursor_y (scroll st) = (if 25 \<le> cursor_y st then 24 else cursor_y st)"
proof -
  show "rows (scroll st) = (if 25 \<le> cursor_y st then tl (rows st) @ [replicate 80 blank] else rows st)"
    unfolding rows_scroll [symmetric] by (auto simp: scroll_eq intro: rows_cong)
qed (simp_all add: scroll_eq)

lemma putc_wrap_simps:
  "rows (putc_wrap st) = rows st"
  "cursor_x (putc_wrap st) = (if 80 \<le> cursor_x st then 0 else cursor_x st)"
  "cursor_y (putc_wrap st) = (if 80 \<le> cursor_x st then cursor_y st + 1 else cursor_y st)"
  by (auto simp: putc_wrap_def intro: rows_cong)

lemma fit_refines:
  assumes x: "unat (cursor_x st) \<le> 80" and y: "unat (cursor_y st) \<le> 25"
    and xy: "unat (cursor_x st) = 80 \<longrightarrow> unat (cursor_y st) < 25"
  shows "screen_of (scroll (putc_wrap st)) = screen_fit (screen_of st)"
    and "console_ok (scroll (putc_wrap st))"
proof -
  have y1: "unat (cursor_y st + 1) = Suc (unat (cursor_y st))"
    using y unat_u8_plus [of "cursor_y st" 1] by simp
  have le: "80 \<le> cursor_x st \<longleftrightarrow> 80 \<le> unat (cursor_x st)" "25 \<le> cursor_y st \<longleftrightarrow> 25 \<le> unat (cursor_y st)"
    "25 \<le> cursor_y st + 1 \<longleftrightarrow> 25 \<le> Suc (unat (cursor_y st))"
    by (simp_all add: word_le_nat_alt y1)
  show "screen_of (scroll (putc_wrap st)) = screen_fit (screen_of st)"
    by (simp add: scroll_simps putc_wrap_simps screen_of_def screen_fit_def le y1)
  show "console_ok (scroll (putc_wrap st))"
    using x y xy by (auto simp: console_ok_def putc_wrap_simps scroll_simps le y1 word_less_nat_alt)
qed


lemma cursor_bytes:
  assumes "console_ok st"
  shows "256 * unat (ucast (drop_bit 8 (cursor_location st)) :: u8) +
    unat (ucast (cursor_location st) :: u8) = 80 * unat (cursor_y st) + unat (cursor_x st)"
proof -
  have le: "unat (cursor_y st) * 80 + unat (cursor_x st) < 2000"
    using console_okD [OF assms] by simp
  have loc: "unat (cursor_location st) = unat (cursor_y st) * 80 + unat (cursor_x st)"
    using le by (simp add: cursor_location_def unat_word_ariths unsigned_ucast_eq take_bit_eq_mod)
  have "unat (ucast (drop_bit 8 (cursor_location st)) :: u8) = unat (cursor_location st) div 256 mod 256"
    by (simp add: unsigned_ucast_eq take_bit_eq_mod drop_bit_eq_div unat_div)
  moreover have "unat (ucast (cursor_location st) :: u8) = unat (cursor_location st) mod 256"
    by (simp add: unsigned_ucast_eq take_bit_eq_mod)
  moreover have "unat (cursor_location st) div 256 < 256" using le loc by simp
  ultimately show ?thesis
    using loc mult_div_mod_eq [of 256 "unat (cursor_location st)"] by simp
qed

lemma video_outside:
  assumes "console_ok st" and "2000 \<le> i"
  shows "video_memory (console_putc_color c back fore st) i = video_memory st i"
proof -
  have "unat (cursor_y st) * 80 + unat (cursor_x st) < 2000"
    using console_okD [OF assms(1)] by simp
  then show ?thesis
    using assms(2)
    by (auto simp: console_putc_color_def scroll_eq putc_wrap_def putc_char_def set_cell_def)
qed

lemma putc_refines:
  assumes "console_ok st"
  shows "screen_of (console_putc_color c back fore st) =
      screen_fit (screen_char c (char_cell c back fore) (screen_of st))"
    and "console_ok (console_putc_color c back fore st)"
proof -
  note P = putc_char_refines [OF assms, of c "back" fore]
  note F = fit_refines [OF P(2,3,4)]
  have m: "screen_of (move_cursor t) = screen_of t" for t :: "'a console_state_scheme"
    by (simp add: screen_of_def) (rule rows_cong, simp)
  show "screen_of (console_putc_color c back fore st) =
      screen_fit (screen_char c (char_cell c back fore) (screen_of st))"
    unfolding console_putc_color_def m F(1) P(1) ..
  show "console_ok (console_putc_color c back fore st)"
    using F(2) by (simp add: console_putc_color_def console_ok_def)
qed

text \<open>What every write keeps.\<close>

lemma step_ports:
  "port_log (scroll st) = port_log st \<and> intr_enabled (scroll st) = intr_enabled st"
  "port_log (putc_wrap st) = port_log st \<and> intr_enabled (putc_wrap st) = intr_enabled st"
  "port_log (putc_char c back fore st) = port_log st \<and> intr_enabled (putc_char c back fore st) = intr_enabled st"
  by (simp_all add: scroll_eq putc_wrap_def putc_char_def set_cell_def)

lemma putc_ports:
  "\<exists>ps. port_log (console_putc_color c back fore st) = port_log st @ ps \<and> fst ` set ps \<subseteq> {0x3D4, 0x3D5}"
  "intr_enabled (console_putc_color c back fore st) = intr_enabled st"
  by (simp_all add: console_putc_color_def move_cursor_def Let_def step_ports) (simp add: outb_def step_ports)

lemma console_write_keeps:
  "console_ok st \<Longrightarrow> console_ok (console_write_color cs back fore st) \<and>
    (\<forall>i. video_memory (console_write_color cs back fore st) (2000 + i) = video_memory st (2000 + i)) \<and>
    (\<exists>ps. port_log (console_write_color cs back fore st) = port_log st @ ps \<and> fst ` set ps \<subseteq> {0x3D4, 0x3D5}) \<and>
    intr_enabled (console_write_color cs back fore st) = intr_enabled st"
proof (induction cs arbitrary: st)
  case (Cons c cs)
  let ?t = "console_putc_color c back fore st"
  note IH = Cons.IH [OF putc_refines(2) [OF Cons.prems], of c "back" fore]
  obtain ps where ps: "port_log ?t = port_log st @ ps" "fst ` set ps \<subseteq> {0x3D4, 0x3D5}"
    using putc_ports(1) by blast
  obtain qs where qs: "port_log (console_write_color cs back fore ?t) = port_log ?t @ qs" "fst ` set qs \<subseteq> {0x3D4, 0x3D5}"
    using IH by blast
  have p: "port_log (console_write_color cs back fore ?t) = port_log st @ (ps @ qs) \<and> fst ` set (ps @ qs) \<subseteq> {0x3D4, 0x3D5}"
    using ps qs by (simp add: image_Un)
  show ?case
  proof (cases "c = 0")
    case True
    then show ?thesis using Cons.prems by simp
  next
    case False
    then have e: "console_write_color (c # cs) back fore st = console_write_color cs back fore ?t" by simp
    show ?thesis
      unfolding e using IH video_outside [OF Cons.prems] putc_ports(2) [of c "back" fore st]
      by (intro conjI exI [of _ "ps @ qs"] p) simp_all
  qed
qed simp

lemma clear_ok: "console_ok (console_clear st)"
  by (simp add: console_clear_def console_ok_def)

section \<open>Text on one line\<close>

definition printable :: "u8 \<Rightarrow> bool" where
  "printable c \<longleftrightarrow> 32 \<le> c \<and> c < 128"

lemma putc_printable:
  assumes "console_ok st" and "printable c" and "unat (cursor_x st) + 1 < 80"
  shows "screen_of (console_putc_color c back fore st) =
    ((rows st)[unat (cursor_y st) := (rows st ! unat (cursor_y st))
        [unat (cursor_x st) := char_cell c back fore]], unat (cursor_x st) + 1, unat (cursor_y st))"
proof -
  have "c \<noteq> 8 \<and> c \<noteq> 9 \<and> c \<noteq> 10 \<and> c \<noteq> 13"
    using assms(2) by (auto simp: printable_def)
  then show ?thesis
    using assms console_okD(2) [OF assms(1)] unfolding putc_refines(1) [OF assms(1)]
    by (simp add: screen_of_def screen_char_def screen_fit_def printable_def)
qed

lemma write_line:
  assumes "console_ok st" and "\<forall>c \<in> set cs. printable c" and "unat (cursor_x st) + length cs < 80"
  shows "screen_of (console_write_color cs back fore st) =
    ((rows st)[unat (cursor_y st) := take (unat (cursor_x st)) (rows st ! unat (cursor_y st)) @
        map (\<lambda>c. char_cell c back fore) cs @
        drop (unat (cursor_x st) + length cs) (rows st ! unat (cursor_y st))],
     unat (cursor_x st) + length cs, unat (cursor_y st)) \<and>
    console_ok (console_write_color cs back fore st)"
  using assms
proof (induction cs arbitrary: st)
  case Nil
  then show ?case by (simp add: screen_of_def)
next
  case (Cons c cs)
  let ?st = "console_putc_color c back fore st"
  let ?y = "unat (cursor_y st)" and ?x = "unat (cursor_x st)"
  have c: "printable c" "c \<noteq> 0" using Cons.prems(2) by (auto simp: printable_def)
  have s: "rows ?st = (rows st)[?y := (rows st ! ?y)[?x := char_cell c back fore]]"
    "unat (cursor_x ?st) = ?x + 1" "unat (cursor_y ?st) = ?y"
    using putc_printable [OF Cons.prems(1) c(1), of "back" fore] Cons.prems(3)
    by (simp_all add: screen_of_def)
  have y: "?y < 25" "?x < 80" using console_okD [OF Cons.prems(1)] by simp_all
  have len: "length (rows st ! ?y) = 80"
    using y by (simp add: rows_nth del: upt_conv_Cons upt_rec_numeral)
  have "take (Suc ?x) ((rows st ! ?y)[?x := char_cell c back fore]) =
      take ?x (rows st ! ?y) @ [char_cell c back fore]"
    using y len by (simp add: take_Suc_conv_app_nth)
  then show ?case
    using Cons.IH [OF putc_refines(2) [OF Cons.prems(1)], of c "back" fore] Cons.prems y len c(2)
    by (simp add: s screen_of_def)
qed

section \<open>The bits of a cell\<close>

lemma color_bits: "bit (color_code f) n \<Longrightarrow> n < 4"
proof -
  have "color_code f = take_bit 4 (color_code f)" by (cases f) simp_all
  moreover assume "bit (color_code f) n"
  ultimately show "n < 4" by (metis bit_take_bit_iff)
qed

lemma ascii_bits: "printable c \<Longrightarrow> bit c n \<Longrightarrow> n < 7"
proof -
  assume "printable c"
  then have "c = take_bit 7 c"
    by (simp add: printable_def word_unat_eq_iff unsigned_take_bit_eq take_bit_eq_mod word_less_nat_alt unat_mod)
  moreover assume "bit c n"
  ultimately show "n < 7" by (metis bit_take_bit_iff)
qed

lemma bit_char_cell:
  assumes "printable c"
  shows "bit (char_cell c bk fo) n \<longleftrightarrow>
    (if n < 8 then bit c n else if n < 12 then bit (color_code fo) (n - 8) else bit (color_code bk) (n - 12))"
proof -
  have f: "(0x0F :: u8) = mask 4" by (simp add: mask_eq_exp_minus_1)
  have "\<not> bit c 7" using ascii_bits [OF assms, of 7] by auto
  then have "bit (scast c :: u16) n \<longleftrightarrow> bit c n"
    using bit_imp_le_length [of c n] ascii_bits [OF assms, of n]
    by (auto simp: bit_signed_iff bit_word_def [symmetric] min_def) 
  then show ?thesis
    using ascii_bits [OF assms, of n] color_bits [of fo "n - 8"] color_bits [of bk "n - 12"]
    by (auto simp: char_cell_def attribute_byte_def f bit_or_iff bit_push_bit_iff bit_and_iff
        bit_mask_iff bit_unsigned_iff)
qed

section \<open>Properties\<close>

text \<open>C15: \<open>console_putc_color\<close> implements its specification for every byte: the screen of 25
  rows and the cursor change as \<open>screen_char\<close> and \<open>screen_fit\<close> say (printing, backspace, tab,
  carriage return, line feed, wrapping at column 80, scrolling at row 25), the cursor stays on
  the screen, no cell outside the 2000 of the screen is written, and the last two bytes sent to
  the display controller are the position of the cursor.\<close>

theorem console_putc_refines_screen:
  assumes "console_ok st"
  shows "(let st' = console_putc_color c back fore st in
    screen_of st' = screen_fit (screen_char c (char_cell c back fore) (screen_of st)) \<and>
    console_ok st' \<and> (\<forall>i. i \<ge> 2000 \<longrightarrow> video_memory st' i = video_memory st i) \<and>
    (\<exists>hi lo. port_log st' = port_log st @ [(0x3D4, 14), (0x3D5, hi), (0x3D4, 15), (0x3D5, lo)] \<and>
      256 * unat hi + unat lo = 80 * unat (cursor_y st') + unat (cursor_x st')))"
proof -
  let ?t = "scroll (putc_wrap (putc_char c back fore st))"
  have t: "console_ok ?t"
    using fit_refines(2) [OF putc_char_refines(2,3,4) [OF assms]] .
  have "port_log ?t = port_log st"
    by (simp add: scroll_eq putc_wrap_def putc_char_def set_cell_def)
  then have "port_log (console_putc_color c back fore st) = port_log st @ [(0x3D4, 14),
      (0x3D5, ucast (drop_bit 8 (cursor_location ?t))), (0x3D4, 15), (0x3D5, ucast (cursor_location ?t))]"
    by (simp add: console_putc_color_def move_cursor_def Let_def)
  moreover have "cursor_x (console_putc_color c back fore st) = cursor_x ?t"
    "cursor_y (console_putc_color c back fore st) = cursor_y ?t"
    by (simp_all add: console_putc_color_def)
  ultimately show ?thesis
    using putc_refines [OF assms] video_outside [OF assms] cursor_bytes [OF t]
    unfolding Let_def by auto
qed

definition console0 :: console_state where
  "console0 = \<lparr>port_log = [], intr_enabled = False, video_memory = (\<lambda>_. 0x741),
     cursor_x = 79, cursor_y = 24\<rparr>"

theorem console_putc_refines_screen_witness:
  "(let st' = console_putc_color 0x42 rc_black rc_white console0 in
    screen_of st' = screen_fit (screen_char 0x42 (char_cell 0x42 rc_black rc_white) (screen_of console0)) \<and>
    console_ok st' \<and> (\<forall>i. i \<ge> 2000 \<longrightarrow> video_memory st' i = video_memory console0 i) \<and>
    (\<exists>hi lo. port_log st' = port_log console0 @ [(0x3D4, 14), (0x3D5, hi), (0x3D4, 15), (0x3D5, lo)] \<and>
      256 * unat hi + unat lo = 80 * unat (cursor_y st') + unat (cursor_x st')))"
  by (rule console_putc_refines_screen) (simp add: console_ok_def console0_def)

text \<open>Writing a string of printable characters that fits on the rest of the line replaces
  exactly the cells from the cursor on by the characters in their colours and moves the cursor
  behind them.\<close>

theorem console_write_line:
  assumes "console_ok st" and "\<forall>c \<in> set cs. printable c" and "unat (cursor_x st) + length cs < 80"
  shows "screen_of (console_write_color cs back fore st) =
    ((rows st)[unat (cursor_y st) := take (unat (cursor_x st)) (rows st ! unat (cursor_y st)) @
        map (\<lambda>c. char_cell c back fore) cs @
        drop (unat (cursor_x st) + length cs) (rows st ! unat (cursor_y st))],
     unat (cursor_x st) + length cs, unat (cursor_y st))"
  using write_line [OF assms] by simp

theorem console_write_line_witness:
  "screen_of (console_write_color [0x4F, 0x53] rc_black rc_green (console0\<lparr>cursor_x := 3\<rparr>)) =
    ((rows (console0\<lparr>cursor_x := 3\<rparr>))[unat (cursor_y (console0\<lparr>cursor_x := 3\<rparr>)) :=
        take (unat (cursor_x (console0\<lparr>cursor_x := 3\<rparr>)))
          (rows (console0\<lparr>cursor_x := 3\<rparr>) ! unat (cursor_y (console0\<lparr>cursor_x := 3\<rparr>))) @
        map (\<lambda>c. char_cell c rc_black rc_green) [0x4F, 0x53] @
        drop (unat (cursor_x (console0\<lparr>cursor_x := 3\<rparr>)) + length [0x4F :: u8, 0x53])
          (rows (console0\<lparr>cursor_x := 3\<rparr>) ! unat (cursor_y (console0\<lparr>cursor_x := 3\<rparr>)))],
     unat (cursor_x (console0\<lparr>cursor_x := 3\<rparr>)) + length [0x4F :: u8, 0x53],
     unat (cursor_y (console0\<lparr>cursor_x := 3\<rparr>)))"
  by (rule console_write_line) (simp_all add: console_ok_def console0_def printable_def)


text \<open>\<open>console_clear\<close> works from any state, also one whose cursor is off the screen: every
  row is 80 white-on-black spaces, the cursor is at the top left, the state is the well-formed
  one the other operations start from, and nothing outside the screen is written.\<close>

theorem console_clear_screen:
  "screen_of (console_clear st) = (replicate 25 (replicate 80 0x0F20), 0, 0) \<and>
   console_ok (console_clear st) \<and>
   (\<forall>i. video_memory (console_clear st) (2000 + i) = video_memory st (2000 + i))"
proof -
  have b: "blank = 0x0F20" by (simp add: blank_def)
  have f: "fold (\<lambda>i. set_cell i blank) [0..<2000] st =
      st\<lparr>video_memory := (\<lambda>i. if i < 2000 then blank else video_memory st i)\<rparr>"
    unfolding fold_set_cell by (simp add: fun_eq_iff)
  have v: "video_memory (console_clear st) = (\<lambda>i. if i < 2000 then 0x0F20 else video_memory st i)"
    "cursor_x (console_clear st) = 0" "cursor_y (console_clear st) = 0"
    by (simp_all add: console_clear_def f [unfolded b] b del: upt_conv_Cons upt_rec_numeral)
  have "rows (console_clear st) = replicate 25 (replicate 80 0x0F20)"
    by (rule nth_equalityI)
      (auto simp: rows_nth v map_replicate_const simp del: upt_conv_Cons upt_rec_numeral
        intro!: nth_equalityI)
  with v show ?thesis by (simp add: screen_of_def console_ok_def)
qed

text \<open>The layout of a cell: the character is in bits 0 to 7, the foreground in bits 8 to 11
  and the background in bits 12 to 15, and these three fields give back what was written. (The
  comment at the head of \<^verbatim>\<open>console.c\<close> has the character in bits 8 to 15, the foreground in bits
  4 to 7 and the background in bits 0 to 3.)\<close>

theorem console_cell_layout:
  assumes "printable c"
  shows "char_cell c bk fo AND 0xff = ucast c \<and>
    drop_bit 8 (char_cell c bk fo) AND 0xf = ucast (color_code fo) \<and>
    drop_bit 12 (char_cell c bk fo) = ucast (color_code bk)"
proof -
  have m: "(0xff :: u16) = mask 8" "(0xf :: u16) = mask 4" by (simp_all add: mask_eq_exp_minus_1)
  show ?thesis
    unfolding m
    by (intro conjI; rule bit_word_eqI)
      (auto simp: bit_and_iff bit_mask_iff bit_drop_bit_eq bit_char_cell [OF assms] bit_unsigned_iff
        dest: color_bits ascii_bits [OF assms])
qed

theorem console_cell_layout_witness:
  "char_cell 0x41 rc_blue rc_red AND 0xff = ucast (0x41 :: u8) \<and>
    drop_bit 8 (char_cell 0x41 rc_blue rc_red) AND 0xf = ucast (color_code rc_red) \<and>
    drop_bit 12 (char_cell 0x41 rc_blue rc_red) = ucast (color_code rc_blue)"
  by (rule console_cell_layout) (simp add: printable_def)

end
