(* ===== verification/Printk.thy ===== *)
theory Printk
  imports Console
begin

text \<open>
  Formatted output: \<^verbatim>\<open>kernel/debug/printk.c\<close> and \<^verbatim>\<open>include/vargs.h\<close>. Strings are lists of
  characters without the terminating zero. The functions that write behind a pointer \<open>str\<close>
  return the text they write. The variable arguments are a list; reading one that is not there,
  or that has another type, is undefined in C and an error here. So is overflowing an \<^verbatim>\<open>int\<close>.
\<close>

section \<open>Flags and helpers\<close>

definition ZEROPAD :: u32 where [simp]: "ZEROPAD = 1"
definition SIGN :: u32 where [simp]: "SIGN = 2"
definition PLUS :: u32 where [simp]: "PLUS = 4"
definition SPACE :: u32 where [simp]: "SPACE = 8"
definition LEFT :: u32 where [simp]: "LEFT = 16"
definition SPECIAL :: u32 where [simp]: "SPECIAL = 32"
definition SMALL :: u32 where [simp]: "SMALL = 64"

definition flag :: "u32 \<Rightarrow> u32 \<Rightarrow> bool" where
  "flag type f \<longleftrightarrow> type AND f \<noteq> 0"

definition is_digit :: "char \<Rightarrow> bool" where
  "is_digit c \<longleftrightarrow> 48 \<le> (of_char c :: nat) \<and> (of_char c :: nat) \<le> 57"

text \<open>The number at the head of a string and the rest of the string.\<close>

fun skip_atoi :: "int \<Rightarrow> string \<Rightarrow> (int \<times> string) res" where
  "skip_atoi i [] = Inr (i, [])"
| "skip_atoi i (c # cs) =
     (if is_digit c
      then if 2147483647 < i * 10 + of_char c then Inl (Undefined ''int overflow'')
           else skip_atoi (i * 10 + of_char c - 48) cs
      else Inr (i, c # cs))"

text \<open>The values of an \<^verbatim>\<open>int\<close>, and the result of an operation on them.\<close>

definition is_int :: "int \<Rightarrow> bool" where
  "is_int n \<longleftrightarrow> -2147483648 \<le> n \<and> n \<le> 2147483647"

definition c_int :: "int \<Rightarrow> int res" where
  "c_int n = (if is_int n then Inr n else Inl (Undefined ''int overflow''))"

text \<open>
  A loop \<^verbatim>\<open>while (n-- > 0) *str++ = c\<close>: the text it writes and the final value of \<open>n\<close>. The test that
  ends the loop decrements once more, so a loop from the least \<^verbatim>\<open>int\<close> overflows.
\<close>

definition pad :: "int \<Rightarrow> char \<Rightarrow> string" where
  "pad n c = replicate (nat n) c"

definition drain :: "int \<Rightarrow> int" where
  "drain n = (if 0 < n then -1 else n - 1)"

definition pad_loop :: "int \<Rightarrow> char \<Rightarrow> (string \<times> int) res" where
  "pad_loop n c = bindE (c_int (drain n)) (\<lambda>m. Inr (pad n c, m))"

section \<open>\<open>number\<close>\<close>

definition big_digits :: string where
  "big_digits = ''0123456789ABCDEFGHIJKLMNOPQRSTUVWXYZ''"

definition small_digits :: string where
  "small_digits = ''0123456789abcdefghijklmnopqrstuvwxyz''"

text \<open>
  The loop that fills \<^verbatim>\<open>tmp\<close>, the lowest digit first. \<^verbatim>\<open>do_div\<close> is the unsigned division; the
  caller has checked the base, without that check the loop would not end for base 1.
\<close>

function tmp_digits :: "string \<Rightarrow> u32 \<Rightarrow> u32 \<Rightarrow> string" where
  "tmp_digits digits base num =
     (if num = 0 \<or> base < 2 then []
      else digits ! unat (num mod base) # tmp_digits digits base (num div base))"
  by pat_completeness auto
termination
proof (relation "measure (\<lambda>(d, b, n). unat n)", goal_cases)
  case (2 digits base num)
  then have "2 \<le> unat base" "0 < unat num" by (auto simp: word_less_nat_alt unat_gt_0)
  then show ?case by (simp add: unat_div)
qed simp

declare tmp_digits.simps [simp del]

text \<open>
  The negation of the least \<^verbatim>\<open>int\<close> overflows, and so can every step that makes \<open>size\<close> smaller.
  The loop over \<open>precision\<close> and the one over \<open>i\<close> end at \<open>i - 1\<close> and \<open>-1\<close>. \<open>None\<close> is the null pointer.
\<close>

definition number :: "u32 \<Rightarrow> u32 \<Rightarrow> int \<Rightarrow> int \<Rightarrow> u32 \<Rightarrow> string option res" where
  "number num base sz precision type =
     (let digits = (if flag type SMALL then small_digits else big_digits);
          type = (if flag type LEFT then type AND NOT ZEROPAD else type)
      in if base < 2 \<or> 36 < base then Inr None
      else let c = (if flag type ZEROPAD then CHR ''0'' else CHR '' '') in
        bindE (if flag type SIGN \<and> num <s 0
               then bindE (c_int (- sint num)) (\<lambda>n. Inr (''-'', word_of_int n))
               else Inr (if flag type PLUS then ''+'' else if flag type SPACE then '' '' else [], num)) (\<lambda>(sign, num).
        bindE (if sign \<noteq> [] then c_int (sz - 1) else Inr sz) (\<lambda>sz.
        bindE (if flag type SPECIAL
               then if base = 16 then c_int (sz - 2) else if base = 8 then c_int (sz - 1) else Inr sz
               else Inr sz) (\<lambda>sz.
        let tmp = (if num = 0 then ''0'' else tmp_digits digits base num);
            i = int (length tmp);
            precision = (if precision < i then i else precision) in
        bindE (c_int (sz - precision)) (\<lambda>sz.
        bindE (if \<not> flag type (ZEROPAD + LEFT) then pad_loop sz CHR '' '' else Inr ([], sz)) (\<lambda>(left, sz).
        let prefix = (if flag type SPECIAL
                      then if base = 8 then ''0'' else if base = 16 then ''0'' @ [digits ! 33] else []
                      else []) in
        bindE (if \<not> flag type LEFT then pad_loop sz c else Inr ([], sz)) (\<lambda>(fill, sz).
        let zeros = pad (precision - i) CHR ''0'' in
        bindE (pad_loop sz CHR '' '') (\<lambda>(right, sz).
          Inr (Some (left @ sign @ prefix @ fill @ zeros @ rev tmp @ right))))))))))"

section \<open>\<open>vsprintf\<close>\<close>

text \<open>An argument: a number or pointer, or a pointer to a string.\<close>

datatype varg = Num u32 | Str string

definition arg_num :: "varg list \<Rightarrow> (u32 \<times> varg list) res" where
  "arg_num args = (case args of Num w # as \<Rightarrow> Inr (w, as) | _ \<Rightarrow> Inl (Undefined ''va_arg''))"

definition arg_str :: "varg list \<Rightarrow> (string \<times> varg list) res" where
  "arg_str args = (case args of Str s # as \<Rightarrow> Inr (s, as) | _ \<Rightarrow> Inl (Undefined ''va_arg''))"

text \<open>The first \<^verbatim>\<open>switch\<close>: the flags behind \<^verbatim>\<open>%\<close>.\<close>

fun parse_flags :: "string \<Rightarrow> u32 \<Rightarrow> u32 \<times> string" where
  "parse_flags [] flags = (flags, [])"
| "parse_flags (c # cs) flags =
     (if c = CHR ''-'' then parse_flags cs (flags OR LEFT)
      else if c = CHR ''+'' then parse_flags cs (flags OR PLUS)
      else if c = CHR '' '' then parse_flags cs (flags OR SPACE)
      else if c = CHR ''#'' then parse_flags cs (flags OR SPECIAL)
      else if c = CHR ''0'' then parse_flags cs (flags OR ZEROPAD)
      else (flags, c # cs))"

text \<open>The field width. After \<^verbatim>\<open>*\<close> the format pointer is not advanced.\<close>

definition parse_width :: "string \<Rightarrow> varg list \<Rightarrow> u32 \<Rightarrow> (int \<times> u32 \<times> string \<times> varg list) res" where
  "parse_width format args flags = (case format of [] \<Rightarrow> Inr (-1, flags, [], args)
   | c # cs \<Rightarrow>
       if is_digit c then bindE (skip_atoi 0 format) (\<lambda>(w, rest). Inr (w, flags, rest, args))
       else if c = CHR ''*'' then bindE (arg_num args) (\<lambda>(a, args).
         if sint a = -2147483648 then Inl (Undefined ''int overflow'')
         else if sint a < 0 then Inr (- sint a, flags OR LEFT, format, args)
         else Inr (sint a, flags, format, args))
       else Inr (-1, flags, format, args))"

definition parse_precision :: "string \<Rightarrow> varg list \<Rightarrow> (int \<times> string \<times> varg list) res" where
  "parse_precision format args = (case format of [] \<Rightarrow> Inr (-1, [], args)
   | c # cs \<Rightarrow>
       if c = CHR ''.''
       then bindE (case cs of [] \<Rightarrow> Inr (-1, [], args)
            | d # ds \<Rightarrow>
                if is_digit d then bindE (skip_atoi 0 cs) (\<lambda>(p, rest). Inr (p, rest, args))
                else if d = CHR ''*'' then bindE (arg_num args) (\<lambda>(a, args). Inr (sint a, cs, args))
                else Inr (-1, cs, args))
            (\<lambda>(p, rest, args). Inr (if p < 0 then 0 else p, rest, args))
       else Inr (-1, format, args))"

definition skip_qualifier :: "string \<Rightarrow> string" where
  "skip_qualifier format = (case format of [] \<Rightarrow> []
   | c # cs \<Rightarrow> if c = CHR ''h'' \<or> c = CHR ''l'' \<or> c = CHR ''L'' then cs else format)"

text \<open>
  The loops of \<^verbatim>\<open>%c\<close> and \<^verbatim>\<open>%s\<close> count \<open>field_width\<close> down by \<^verbatim>\<open>--field_width > 0\<close> and
  \<^verbatim>\<open>len < field_width--\<close>; a width is at least \<open>-1\<close> (\<open>width_is_int\<close> below), so they never overflow. The results are the text, the remaining arguments and the stores
  made through \<^verbatim>\<open>%n\<close>.
\<close>

definition convert_char :: "u32 \<Rightarrow> int \<Rightarrow> u32 \<Rightarrow> string" where
  "convert_char flags width a =
     (let (left, width) = (if \<not> flag flags LEFT
                           then (pad (width - 1) CHR '' '', if 0 < width then 0 else width - 1)
                           else ([], width))
      in left @ [char_of (unat a)] @ pad (width - 1) CHR '' '')"

definition convert_string :: "u32 \<Rightarrow> int \<Rightarrow> int \<Rightarrow> string \<Rightarrow> string" where
  "convert_string flags width precision s =
     (let len = (if precision < 0 then int (length s)
                 else if precision < int (length s) then precision else int (length s));
          (left, width) = (if \<not> flag flags LEFT
                           then (pad (width - len) CHR '' '', if len < width then len - 1 else width - 1)
                           else ([], width))
      in left @ take (nat len) s @ pad (width - len) CHR '' '')"

definition convert_number ::
  "varg list \<Rightarrow> u32 \<Rightarrow> int \<Rightarrow> int \<Rightarrow> u32 \<Rightarrow> (string \<times> varg list \<times> (u32 \<times> u32) list) res" where
  "convert_number args base width precision flags =
     bindE (arg_num args) (\<lambda>(a, args).
     bindE (number a base width precision flags) (\<lambda>r. case r of
         None \<Rightarrow> Inl (Undefined ''str'')
       | Some s \<Rightarrow> Inr (s, args, [])))"

text \<open>The second \<^verbatim>\<open>switch\<close>; \<open>done\<close> is the number of characters written before.\<close>

definition convert ::
  "string \<Rightarrow> u32 \<Rightarrow> int \<Rightarrow> int \<Rightarrow> varg list \<Rightarrow> nat \<Rightarrow> (string \<times> varg list \<times> (u32 \<times> u32) list) res"
where
  "convert format flags width precision args written = (case format of
     [] \<Rightarrow> Inr (''%'', args, [])
   | c # cs \<Rightarrow>
       if c = CHR ''c''
       then bindE (arg_num args) (\<lambda>(a, args). Inr (convert_char flags width a, args, []))
       else if c = CHR ''s''
       then bindE (arg_str args) (\<lambda>(s, args). Inr (convert_string flags width precision s, args, []))
       else if c = CHR ''o'' then convert_number args 8 width precision flags
       else if c = CHR ''p''
       then if width = -1 then convert_number args 16 8 precision (flags OR ZEROPAD)
            else convert_number args 16 width precision flags
       else if c = CHR ''x'' then convert_number args 16 width precision (flags OR SMALL)
       else if c = CHR ''X'' then convert_number args 16 width precision flags
       else if c = CHR ''d'' \<or> c = CHR ''i'' then convert_number args 10 width precision (flags OR SIGN)
       else if c = CHR ''u'' then convert_number args 10 width precision flags
       else if c = CHR ''b'' then convert_number args 2 width precision flags
       else if c = CHR ''n''
       then bindE (arg_num args) (\<lambda>(p, args). Inr ([], args, [(p, of_nat written)]))
       else Inr ((if c \<noteq> CHR ''%'' then ''%'' else []) @ [c], args, []))"

lemma skip_atoi_length: "skip_atoi i s = Inr (w, rest) \<Longrightarrow> length rest \<le> length s"
  by (induction i s rule: skip_atoi.induct) (auto split: if_splits)

lemma parse_flags_length: "length (snd (parse_flags s f)) \<le> length s"
  by (induction s f rule: parse_flags.induct) auto

lemma parse_width_length:
  "parse_width s args f = Inr (w, f', rest, args') \<Longrightarrow> length rest \<le> length s"
  by (auto simp: parse_width_def split: list.splits if_splits dest!: skip_atoi_length)

lemma parse_precision_length:
  "parse_precision s args = Inr (p, rest, args') \<Longrightarrow> length rest \<le> length s"
  by (auto simp: parse_precision_def split: list.splits if_splits dest!: skip_atoi_length)

lemma skip_qualifier_length: "length (skip_qualifier s) \<le> length s"
  by (simp add: skip_qualifier_def split: list.split)

text \<open>The \<^verbatim>\<open>for\<close> loop. \<open>out\<close> is the text so far.\<close>

function vsprintf_loop ::
  "string \<Rightarrow> varg list \<Rightarrow> string \<Rightarrow> (u32 \<times> u32) list \<Rightarrow> (string \<times> (u32 \<times> u32) list) res" where
  "vsprintf_loop [] args out stores = Inr (out, stores)"
| "vsprintf_loop (c # cs) args out stores =
     (if c \<noteq> CHR ''%'' then vsprintf_loop cs args (out @ [c]) stores
      else bindE (parse_width (snd (parse_flags cs 0)) args (fst (parse_flags cs 0)))
        (\<lambda>(width, flags, f1, args).
         bindE (parse_precision f1 args) (\<lambda>(precision, f2, args).
         bindE (convert (skip_qualifier f2) flags width precision args (length out))
           (\<lambda>(text, args, st).
             vsprintf_loop (tl (skip_qualifier f2)) args (out @ text) (stores @ st)))))"
  by pat_completeness auto
termination
proof (relation "measure (\<lambda>(f, a, out, st). length f)", goal_cases)
  case (3 c cs args out stores r1 width r2 flags r3 f1 args1 r4 precision r5 f2 args2 r6 t6 r7 args3 st)
  then have "length f1 \<le> length (snd (parse_flags cs 0))" "length f2 \<le> length f1"
    by (auto dest!: parse_width_length parse_precision_length)
  with parse_flags_length [of cs 0] skip_qualifier_length [of f2]
  show ?case by (simp add: le_imp_less_Suc) 
qed simp_all

definition vsprintf :: "string \<Rightarrow> varg list \<Rightarrow> (string \<times> (u32 \<times> u32) list) res" where
  "vsprintf format args = vsprintf_loop format args [] []"

section \<open>\<open>printk\<close>\<close>

text \<open>
  The text goes through a static buffer of 1024 characters, which neither \<^verbatim>\<open>vsprintf\<close> nor
  \<^verbatim>\<open>printk\<close> checks: with its terminating zero, a longer text is written past the end.
\<close>

definition printk_text :: "string \<Rightarrow> varg list \<Rightarrow> (u8 list \<times> (u32 \<times> u32) list) res" where
  "printk_text format args =
     bindE (vsprintf format args) (\<lambda>(s, stores).
       if length s < 1024 then Inr (map of_char s, stores) else Inl (Undefined ''buff''))"

text \<open>
  The stores of \<^verbatim>\<open>%n\<close> are made on the whole state, in the order of the format, and before the text
  is written to the screen. What a store through a pointer does to the state is the parameter
  \<open>poke\<close>; a store that changes the format or the arguments themselves is not modelled. No format of the
  kernel has a \<^verbatim>\<open>%n\<close>: \<open>printk\<close> and \<open>printk_color\<close> are the calls in which such a store is an error.
\<close>

fun store_counts :: "(u32 \<Rightarrow> u32 \<Rightarrow> 's \<Rightarrow> 's res) \<Rightarrow> (u32 \<times> u32) list \<Rightarrow> 's \<Rightarrow> 's res" where
  "store_counts poke [] st = Inr st"
| "store_counts poke ((ip, n) # stores) st = bindE (poke ip n st) (store_counts poke stores)"

definition printk_with :: "(u32 \<Rightarrow> u32 \<Rightarrow> 'a console_state_scheme \<Rightarrow> 'a console_state_scheme res) \<Rightarrow>
    string \<Rightarrow> varg list \<Rightarrow> 'a console_state_scheme \<Rightarrow> 'a console_state_scheme res" where
  "printk_with poke format args st =
     bindE (printk_text format args) (\<lambda>(s, stores).
     bindE (store_counts poke stores st) (\<lambda>st. Inr (console_write s st)))"

definition printk_color_with :: "(u32 \<Rightarrow> u32 \<Rightarrow> 'a console_state_scheme \<Rightarrow> 'a console_state_scheme res) \<Rightarrow>
    real_color \<Rightarrow> real_color \<Rightarrow> string \<Rightarrow> varg list \<Rightarrow> 'a console_state_scheme \<Rightarrow> 'a console_state_scheme res" where
  "printk_color_with poke back fore format args st =
     bindE (printk_text format args) (\<lambda>(s, stores).
     bindE (store_counts poke stores st) (\<lambda>st. Inr (console_write_color s back fore st)))"

definition no_poke :: "u32 \<Rightarrow> u32 \<Rightarrow> 's \<Rightarrow> 's res" where
  "no_poke ip n st = Inl (Undefined ''%n'')"

definition printk :: "string \<Rightarrow> varg list \<Rightarrow> 'a console_state_scheme \<Rightarrow> 'a console_state_scheme res" where
  "printk format args st = printk_with no_poke format args st"

definition printk_color :: "real_color \<Rightarrow> real_color \<Rightarrow> string \<Rightarrow> varg list \<Rightarrow>
    'a console_state_scheme \<Rightarrow> 'a console_state_scheme res" where
  "printk_color back fore format args st = printk_color_with no_poke back fore format args st"

text \<open>What the callers need: the text is fixed by the format and the arguments.\<close>

lemma printk_eq:
  "printk_text f args = Inr (s, []) \<Longrightarrow> printk f args st = Inr (console_write s st)"
  "printk_text f args = Inr (s, []) \<Longrightarrow> printk_color b c f args st = Inr (console_write_color s b c st)"
  by (simp_all add: printk_def printk_color_def printk_with_def printk_color_with_def)

lemma printk_text_eq:
  "vsprintf f args = Inr (s, []) \<Longrightarrow> length s < 1024 \<Longrightarrow> printk_text f args = Inr (map of_char s, [])"
  by (simp add: printk_text_def)

section \<open>Digits and their value\<close>

definition digit_val :: "char \<Rightarrow> nat" where
  "digit_val c = (let n = of_char c in if n < 58 then n - 48 else if n < 91 then n - 55 else n - 87)"

definition number_val :: "nat \<Rightarrow> string \<Rightarrow> nat" where
  "number_val base s = foldl (\<lambda>v c. base * v + digit_val c) 0 s"

lemma number_val_snoc [simp]: "number_val b (s @ [c]) = b * number_val b s + digit_val c"
  by (simp add: number_val_def)

lemma number_val_Nil [simp]: "number_val b [] = 0"
  by (simp add: number_val_def)

lemma number_val_zeros: "number_val b (replicate n CHR ''0'' @ s) = number_val b s"
proof -
  have "foldl (\<lambda>v c. b * v + digit_val c) 0 (replicate n CHR ''0'') = 0"
    by (induction n) (simp_all add: digit_val_def)
  then show ?thesis by (simp add: number_val_def)
qed

lemma digits_val:
  assumes "digits = big_digits \<or> digits = small_digits" and "k < 36"
  shows "digit_val (digits ! k) = k"
proof -
  have "list_all (\<lambda>k. digit_val (big_digits ! k) = k \<and> digit_val (small_digits ! k) = k) [0..<36]"
    by code_simp
  then show ?thesis using assms by (auto simp: list_all_iff)
qed

lemma tmp_digits_eq:
  "2 \<le> base \<Longrightarrow> num \<noteq> 0 \<Longrightarrow>
   tmp_digits digits base num = digits ! unat (num mod base) # tmp_digits digits base (num div base)"
  by (subst tmp_digits.simps) simp

lemma tmp_digits_0 [simp]: "tmp_digits digits base 0 = []"
  by (subst tmp_digits.simps) simp

text \<open>Induction over the divisions of the loop.\<close>

lemma div_induct [consumes 1, case_names zero div]:
  fixes n base :: u32
  assumes "2 \<le> base" and "P 0" and "\<And>num. num \<noteq> 0 \<Longrightarrow> P (num div base) \<Longrightarrow> P num"
  shows "P n"
proof (induction n rule: measure_induct_rule [of unat])
  case (less n)
  have "2 \<le> unat base" using assms(1) by (simp add: word_le_nat_alt)
  then have "n \<noteq> 0 \<Longrightarrow> unat (n div base) < unat n"
    by (simp add: unat_div unat_gt_0)
  then show ?case using less assms(2) assms(3) [of n] by (cases "n = 0") simp_all
qed

lemma digit_index:
  fixes num base :: u32
  assumes "2 \<le> base" and "base \<le> 36"
  shows "unat (num mod base) < unat base" and "unat (num mod base) < 36"
proof -
  have "0 < unat base" "unat base \<le> 36" using assms by (simp_all add: word_le_nat_alt)
  then show "unat (num mod base) < unat base" by (simp add: unat_mod)
  with \<open>unat base \<le> 36\<close> show "unat (num mod base) < 36" by simp
qed

lemma tmp_digits_val:
  assumes "digits = big_digits \<or> digits = small_digits" and "2 \<le> base" and "base \<le> 36"
  shows "number_val (unat base) (rev (tmp_digits digits base num)) = unat num"
  using assms(2)
proof (induction num rule: div_induct)
  case (div num)
  have "digit_val (digits ! unat (num mod base)) = unat (num mod base)"
    using digit_index(2) [OF assms(2,3)] by (rule digits_val [OF assms(1)])
  then show ?case
    using div assms(2) by (simp add: tmp_digits_eq unat_div unat_mod)
qed simp

lemma tmp_digits_last:
  assumes "digits = big_digits \<or> digits = small_digits" and "2 \<le> base" and "base \<le> 36"
    and "num \<noteq> 0"
  shows "tmp_digits digits base num \<noteq> [] \<and> digit_val (last (tmp_digits digits base num)) \<noteq> 0"
proof -
  have "num \<noteq> 0 \<longrightarrow> tmp_digits digits base num \<noteq> [] \<and> digit_val (last (tmp_digits digits base num)) \<noteq> 0"
    using assms(2)
  proof (induction num rule: div_induct)
    case (div num)
    show ?case
    proof (cases "num div base = 0")
      case True
      have "unat (num div base) = 0" using True by simp
      then have "unat num div unat base = 0" by (simp add: unat_div)
      then have "unat (num mod base) = unat num"
        using assms(2) by (auto simp: unat_mod div_eq_0_iff)
      moreover have "digit_val (digits ! unat (num mod base)) = unat (num mod base)"
        using digit_index(2) [OF assms(2,3)] by (rule digits_val [OF assms(1)])
      ultimately show ?thesis
        using True div(1) assms(2) by (simp add: tmp_digits_eq unat_eq_0)
    next
      case False
      with div show ?thesis using assms(2) by (simp add: tmp_digits_eq)
    qed
  qed simp
  with assms(4) show ?thesis by simp
qed

lemma tmp_digits_length:
  assumes "2 \<le> base" and "num \<noteq> 0"
  shows "unat base ^ (length (tmp_digits digits base num) - 1) \<le> unat num"
proof -
  have b: "2 \<le> unat base" using assms(1) by (simp add: word_le_nat_alt)
  have "num \<noteq> 0 \<longrightarrow> unat base ^ (length (tmp_digits digits base num) - 1) \<le> unat num"
    using assms(1)
  proof (induction num rule: div_induct)
    case (div num)
    show ?case
    proof (cases "num div base = 0")
      case True
      then show ?thesis using div(1) assms(1) by (simp add: tmp_digits_eq Suc_le_eq unat_gt_0)
    next
      case False
      then have ne: "tmp_digits digits base (num div base) \<noteq> []"
        using assms(1) by (simp add: tmp_digits_eq)
      have "unat base ^ length (tmp_digits digits base (num div base)) =
          unat base * unat base ^ (length (tmp_digits digits base (num div base)) - 1)"
        using ne by (cases "tmp_digits digits base (num div base)") simp_all
      also have "\<dots> \<le> unat base * unat (num div base)" using div False by simp
      also have "\<dots> \<le> unat num" by (simp add: unat_div)
      finally show ?thesis using div(1) assms(1) by (simp add: tmp_digits_eq)
    qed
  qed simp
  with assms(2) show ?thesis by simp
qed

lemma tmp_digits_set:
  assumes "2 \<le> base" and "base \<le> 36"
  shows "set (tmp_digits digits base num) \<subseteq> (!) digits ` {..<unat base}"
  using assms(1)
proof (induction num rule: div_induct)
  case (div num)
  then show ?case
    using digit_index(1) [OF assms] assms(1) by (auto simp: tmp_digits_eq)
qed simp

text \<open>A value below \<open>b ^ k\<close> has at most \<open>k\<close> digits; with \<open>k = 32\<close> the array \<^verbatim>\<open>tmp\<close> of 36 suffices.\<close>

lemma tmp_digits_bound:
  assumes "2 \<le> base" and "num \<noteq> 0" and "unat num < unat base ^ k"
  shows "length (tmp_digits digits base num) \<le> k"
proof -
  have "unat base ^ (length (tmp_digits digits base num) - 1) < unat base ^ k"
    using tmp_digits_length [OF assms(1,2), of digits] assms(3) by linarith
  moreover have "1 < unat base" using assms(1) by (simp add: word_le_nat_alt)
  ultimately show ?thesis by (simp add: power_strict_increasing_iff)
qed


section \<open>The layout of a number\<close>

lemma digits_zero: "digit_val c = 0 \<Longrightarrow> c \<in> set big_digits \<union> set small_digits \<Longrightarrow> c = CHR ''0''"
proof -
  have "list_all (\<lambda>c. digit_val c = 0 \<longrightarrow> c = CHR ''0'') (big_digits @ small_digits)" by code_simp
  then show "digit_val c = 0 \<Longrightarrow> c \<in> set big_digits \<union> set small_digits \<Longrightarrow> c = CHR ''0''"
    by (auto simp: list_all_iff)
qed

text \<open>What is proved of the digits of a value.\<close>

definition shows_value :: "u32 \<Rightarrow> u32 \<Rightarrow> string \<Rightarrow> bool" where
  "shows_value base v ds \<longleftrightarrow> number_val (unat base) ds = unat v \<and> ds \<noteq> [] \<and>
     (hd ds = CHR ''0'' \<longrightarrow> ds = ''0'') \<and> (\<forall>k. 0 < k \<longrightarrow> unat v < unat base ^ k \<longrightarrow> length ds \<le> k)"

lemma tmp_shows_value:
  assumes d: "digits = big_digits \<or> digits = small_digits" and b: "2 \<le> base" "base \<le> 36"
  shows "shows_value base v (rev (if v = 0 then ''0'' else tmp_digits digits base v))"
proof (cases "v = 0")
  case True
  then show ?thesis by (simp add: shows_value_def number_val_def digit_val_def)
next
  case False
  let ?t = "tmp_digits digits base v"
  note L = tmp_digits_last [OF d b False]
  have "hd (rev ?t) \<noteq> CHR ''0''" using L by (auto simp: hd_rev digit_val_def)
  then show ?thesis
    using False L tmp_digits_val [OF d b, of v] tmp_digits_bound [OF b(1) False, of _ digits]
    by (simp add: shows_value_def)
qed

lemma pad_simps [simp]:
  "pad (drain n) c = []" "int (length (pad n c)) = (if 0 < n then n else 0)" "set (pad n c) \<subseteq> {c}"
  by (auto simp: pad_def drain_def)

definition sign_text :: "u32 \<Rightarrow> u32 \<Rightarrow> string" where
  "sign_text type num = (if flag type SIGN \<and> num <s 0 then ''-''
     else if flag type PLUS then ''+'' else if flag type SPACE then '' '' else [])"

definition magnitude :: "u32 \<Rightarrow> u32 \<Rightarrow> u32" where
  "magnitude type num = (if flag type SIGN \<and> num <s 0 then - num else num)"

definition prefix_text :: "u32 \<Rightarrow> u32 \<Rightarrow> string" where
  "prefix_text type base = (if flag type SPECIAL
     then if base = 8 then ''0''
          else if base = 16 then ''0'' @ [(if flag type SMALL then small_digits else big_digits) ! 33]
          else []
     else [])"

lemma flag_clear_zero:
  "flag (type AND NOT ZEROPAD) SIGN = flag type SIGN" "flag (type AND NOT ZEROPAD) PLUS = flag type PLUS"
  "flag (type AND NOT ZEROPAD) SPACE = flag type SPACE" "flag (type AND NOT ZEROPAD) LEFT = flag type LEFT"
  "flag (type AND NOT ZEROPAD) SPECIAL = flag type SPECIAL" "flag (type AND NOT ZEROPAD) ZEROPAD = False"
  by (simp_all add: flag_def and.assoc)

lemma flag_zero_left: "flag type (ZEROPAD + LEFT) \<longleftrightarrow> flag type ZEROPAD \<or> flag type LEFT"
proof -
  have "(ZEROPAD + LEFT) = (1 OR 16)" by simp
  then have "type AND (ZEROPAD + LEFT) = (type AND 1) OR (type AND 16)"
    by (simp only: bit.conj_disj_distrib)
  moreover have "a OR b = 0 \<longleftrightarrow> a = 0 \<and> b = 0" for a b :: u32
    by (auto simp: bit_eq_iff bit_or_iff)
  ultimately show ?thesis by (simp add: flag_def)
qed

text \<open>
  The width left after sign, prefix and digits, and how often it is counted down below zero.
\<close>

definition room_left :: "u32 \<Rightarrow> u32 \<Rightarrow> int \<Rightarrow> int \<Rightarrow> u32 \<Rightarrow> nat \<Rightarrow> int" where
  "room_left num base sz precision type k =
     sz - int (length (sign_text type num)) - int (length (prefix_text type base)) - max precision (int k)"

definition pad_loops :: "u32 \<Rightarrow> int" where
  "pad_loops type = (if flag type LEFT then 1 else if flag type ZEROPAD then 2 else 3)"

lemma negate_int: "(num :: u32) <s 0 \<Longrightarrow> is_int (- sint num) \<longleftrightarrow> num \<noteq> 0x80000000"
proof -
  assume "num <s 0"
  then have "sint num < 0" by (simp add: word_sless_alt)
  moreover have "- 2147483648 \<le> sint num" using sint_greater_eq [of num] by simp
  moreover have "sint num = - 2147483648 \<longleftrightarrow> num = 0x80000000"
  proof -
    have "sint (0x80000000 :: u32) = - 2147483648" by simp
    then show ?thesis by (metis signed_word_eqI)
  qed
  ultimately show ?thesis by (auto simp: is_int_def)
qed

lemma step_down:
  assumes "is_int n" and "0 \<le> d"
  shows "bindE (c_int (n - d)) f = (if n - d < -2147483648 then Inl (Undefined ''int overflow'') else f (n - d))"
  using assms by (auto simp: c_int_def is_int_def)

lemma sign_step:
  "bindE (if flag type SIGN \<and> num <s 0 then bindE (c_int (- sint num)) (\<lambda>n. Inr (''-'', word_of_int n))
       else Inr (if flag type PLUS then ''+'' else if flag type SPACE then '' '' else [], num)) f =
    (if flag type SIGN \<and> num = 0x80000000 then Inl (Undefined ''int overflow'')
     else f (sign_text type num, magnitude type num))"
proof (cases "flag type SIGN \<and> num <s 0")
  case True
  then have "(c_int (- sint num) = Inl (Undefined ''int overflow'') \<and> num = 0x80000000) \<or>
      (c_int (- sint num) = Inr (- sint num) \<and> num \<noteq> 0x80000000)"
    using negate_int [of num] by (auto simp: c_int_def)
  moreover have "word_of_int (- sint num) = - num" by simp
  ultimately show ?thesis using True by (auto simp: sign_text_def magnitude_def)
next
  case False
  have "(0x80000000 :: u32) <s 0" by (simp add: word_sless_alt)
  then have "\<not> (flag type SIGN \<and> num = 0x80000000)" using False by auto
  then show ?thesis using False by (auto simp: sign_text_def magnitude_def)
qed

lemma size_steps:
  fixes num type base :: u32
  assumes "is_int sz" and "1 \<le> k"
  defines "s \<equiv> int (length (sign_text type num))" and "p \<equiv> int (length (prefix_text type base))"
  shows "bindE (if sign_text type num \<noteq> [] then c_int (sz - 1) else Inr sz) (\<lambda>sz.
      bindE (if flag type SPECIAL then if base = 16 then c_int (sz - 2) else if base = 8 then c_int (sz - 1) else Inr sz
             else Inr sz) (\<lambda>sz. bindE (c_int (sz - k)) f)) =
    (if sz - s - p - k < -2147483648 then Inl (Undefined ''int overflow'') else f (sz - s - p - k))"
proof -
  have s: "s = 0 \<or> s = 1" "sign_text type num \<noteq> [] \<longleftrightarrow> s = 1" by (auto simp: s_def sign_text_def)
  have p: "p = (if flag type SPECIAL then if base = 16 then 2 else if base = 8 then 1 else 0 else 0)"
    by (simp add: p_def prefix_text_def)
  have 1: "bindE (if sign_text type num \<noteq> [] then c_int (sz - 1) else Inr sz) g =
      (if sz - s < -2147483648 then Inl (Undefined ''int overflow'') else g (sz - s))" for g :: "int \<Rightarrow> 'c res"
    using step_down [OF assms(1), of 1 g] s assms(1) by (auto simp: is_int_def)
  have 2: "bindE (if flag type SPECIAL then if base = 16 then c_int (n - 2) else if base = 8 then c_int (n - 1) else Inr n
      else Inr n) g = (if n - p < -2147483648 then Inl (Undefined ''int overflow'') else g (n - p))"
    if "is_int n" for n and g :: "int \<Rightarrow> 'c res"
    using step_down [OF that, of 1 g] step_down [OF that, of 2 g] that by (auto simp: p is_int_def)
  have p0: "0 \<le> p" "0 \<le> s" using s by (auto simp: p)
  have i: "is_int (sz - s)" if "\<not> sz - s < -2147483648" using that assms(1) p0 by (simp add: is_int_def)
  have j: "is_int (sz - s - p)" if "\<not> sz - s - p < -2147483648" using that assms(1) p0 by (simp add: is_int_def)
  have k: "0 \<le> k" using assms(2) by simp
  show ?thesis
  proof (cases "sz - s < -2147483648")
    case True
    then have "sz - s - p - k < -2147483648" using p0 k by simp
    with True show ?thesis by (simp only: 1 if_True)
  next
    case False
    show ?thesis
    proof (cases "sz - s - p < -2147483648")
      case True
      then have "sz - s - p - k < -2147483648" using k by simp
      with True False show ?thesis by (simp only: 1 2 [OF i [OF False]] if_True if_False)
    next
      case pf: False
      show ?thesis by (simp only: 1 2 [OF i [OF False]] False pf if_False step_down [OF j [OF pf] k])
    qed
  qed
qed

lemma pad_steps:
  assumes "is_int w"
  shows "bindE (if \<not> (z \<or> l) then pad_loop w CHR '' '' else Inr ([], w)) (\<lambda>(left, sz).
      bindE (if \<not> l then pad_loop sz c else Inr ([], sz)) (\<lambda>(fill, sz).
      bindE (pad_loop sz CHR '' '') (\<lambda>(right, sz). Inr (G left fill right)))) =
    (if w - (if l then 1 else if z then 2 else 3) < -2147483648 then Inl (Undefined ''int overflow'')
     else Inr (if l then G [] [] (pad w CHR '' '') else if z then G [] (pad w c) [] else G (pad w CHR '' '') [] []))"
  using assms by (cases l; cases z) (auto simp: pad_loop_def c_int_def is_int_def drain_def pad_def)

lemma number_eq:
  assumes b: "2 \<le> base" "base \<le> 36" and ints: "is_int sz" "is_int precision"
  defines "ds \<equiv> \<lambda>digits v. rev (if v = 0 then ''0'' else tmp_digits digits base v)"
  shows "number num base sz precision type =
    (let digits = (if flag type SMALL then small_digits else big_digits);
         d = ds digits (magnitude type num);
         w = room_left num base sz precision type (length d);
         body = pad (max precision (int (length d)) - int (length d)) CHR ''0'' @ d
     in if flag type SIGN \<and> num = 0x80000000 \<or> w - pad_loops type < -2147483648 then Inl (Undefined ''int overflow'')
        else Inr (Some (if flag type LEFT then sign_text type num @ prefix_text type base @ body @ pad w CHR '' ''
          else if flag type ZEROPAD then sign_text type num @ prefix_text type base @ pad w CHR ''0'' @ body
          else pad w CHR '' '' @ sign_text type num @ prefix_text type base @ body)))"
proof -
  let ?ty = "if flag type LEFT then type AND NOT ZEROPAD else type"
  let ?dg = "if flag type SMALL then small_digits else big_digits"
  let ?s = "sign_text type num" and ?p = "prefix_text type base" and ?v = "magnitude type num"
  let ?n = "length (if ?v = 0 then ''0'' else tmp_digits ?dg base ?v)"
  let ?k = "max precision (int ?n)"
  have nb: "(base < 2 \<or> 36 < base) = False" using b by (auto simp: not_less)
  have f: "flag ?ty SIGN = flag type SIGN" "flag ?ty PLUS = flag type PLUS"
    "flag ?ty SPACE = flag type SPACE" "flag ?ty LEFT = flag type LEFT"
    "flag ?ty SPECIAL = flag type SPECIAL" "flag ?ty ZEROPAD = (flag type ZEROPAD \<and> \<not> flag type LEFT)"
    "flag ?ty (ZEROPAD + LEFT) = (flag type ZEROPAD \<or> flag type LEFT)"
    using flag_clear_zero [of type] flag_zero_left by (auto split: if_split)
  have st: "sign_text ?ty num = ?s" "magnitude ?ty num = ?v"
    unfolding sign_text_def magnitude_def f by (rule refl)+
  have pr: "(if flag type SPECIAL
      then if base = 8 then ''0'' else if base = 16 then ''0'' @ [?dg ! 33] else [] else []) = ?p"
    by (simp add: prefix_text_def)
  have mx: "(if precision < int i then int i else precision) = max precision (int i)" for i
    by simp
  have n1: "1 \<le> ?n"
    using tmp_shows_value [of ?dg base ?v] b by (cases "?v = 0") (auto simp: shows_value_def Suc_le_eq)
  then have k: "1 \<le> ?k" by simp
  have w: "room_left num base sz precision type ?n = sz - int (length ?s) - int (length ?p) - ?k"
    by (simp add: room_left_def)
  let ?w = "sz - int (length ?s) - int (length ?p) - ?k"
  have i: "is_int ?w" if "\<not> ?w < -2147483648" using that ints(1) k by (simp add: is_int_def)
  have ld: "length (ds ?dg ?v) = ?n" by (simp add: ds_def)
  show ?thesis
  proof (cases "flag type SIGN \<and> num = 0x80000000")
    case True
    then show ?thesis unfolding number_def Let_def nb if_False f sign_step st
      by (simp only: True simp_thms if_True)
  next
    case ok: False
    show ?thesis
    proof (cases "?w < -2147483648")
      case True
      then have "?w - pad_loops type < -2147483648" by (simp add: pad_loops_def)
      with True ok show ?thesis
        unfolding number_def Let_def nb if_False f sign_step st prod.case mx size_steps [OF ints(1) k] ld w
        by (simp only: if_True if_False simp_thms)
    next
      case False
      have nt: "(flag type SIGN \<and> num = 0x80000000) = False" "(?w < -2147483648) = False"
        using ok False by blast+
      show ?thesis
        unfolding number_def Let_def nb if_False f sign_step st prod.case mx size_steps [OF ints(1) k] ld w pr
          pad_steps [OF i [OF False]] nt(1) nt(2) ds_def pad_loops_def
        by (cases "flag type LEFT"; cases "flag type ZEROPAD";
            simp only: if_True if_False simp_thms append_Nil append_Nil2 append_assoc length_rev w)
    qed
  qed
qed


lemma number_layout_ex:
  assumes b: "2 \<le> base" "base \<le> 36" and ints: "is_int sz" "is_int precision"
  shows "\<exists>ds z f. number num base sz precision type =
      (if flag type SIGN \<and> num = 0x80000000 \<or>
          sz - int (length (sign_text type num @ prefix_text type base @ z @ ds)) - pad_loops type < -2147483648
       then Inl (Undefined ''int overflow'')
       else Inr (Some (if flag type LEFT then sign_text type num @ prefix_text type base @ z @ ds @ f
         else if flag type ZEROPAD then sign_text type num @ prefix_text type base @ f @ z @ ds
         else f @ sign_text type num @ prefix_text type base @ z @ ds))) \<and>
    shows_value base (magnitude type num) ds \<and> length ds \<le> 32 \<and>
    z = replicate (nat (precision - int (length ds))) CHR ''0'' \<and>
    f = replicate (nat (sz - int (length (sign_text type num @ prefix_text type base @ z @ ds))))
      (if flag type ZEROPAD \<and> \<not> flag type LEFT then CHR ''0'' else CHR '' '')"
proof -
  let ?dg = "if flag type SMALL then small_digits else big_digits" and ?v = "magnitude type num"
  define ds where "ds = rev (if ?v = 0 then ''0'' else tmp_digits ?dg base ?v)"
  define z where "z = pad (max precision (int (length ds)) - int (length ds)) CHR ''0''"
  define w where "w = room_left num base sz precision type (length ds)"
  have v: "shows_value base ?v ds"
    unfolding ds_def by (rule tmp_shows_value) (use b in auto)
  have "unat ?v < 2 ^ 32" by simp
  also have "\<dots> \<le> unat base ^ 32"
    using b(1) by (intro power_mono) (simp_all add: word_le_nat_alt)
  finally have "length ds \<le> 32" using v by (simp add: shows_value_def)
  moreover have z: "z = replicate (nat (precision - int (length ds))) CHR ''0''"
  proof (cases "precision \<le> int (length ds)")
    case True
    then show ?thesis by (simp add: z_def pad_def max_def)
  next
    case False
    then show ?thesis by (simp add: z_def pad_def max_def)
  qed
  moreover have "w = sz - int (length (sign_text type num @ prefix_text type base @ z @ ds))"
    unfolding w_def z room_left_def by (simp add: max_def)
  ultimately show ?thesis
    using v unfolding number_eq [OF b ints] Let_def ds_def [symmetric] w_def [symmetric] z_def [symmetric]
    by (intro exI [of _ ds] exI [of _ z]
        exI [of _ "pad w (if flag type ZEROPAD \<and> \<not> flag type LEFT then CHR ''0'' else CHR '' '')"])
      (simp add: pad_def)
qed

text \<open>The text of a number without width, precision or flags beyond the sign.\<close>

lemma number_simple:
  assumes b: "2 \<le> base" "base \<le> 36" and t: "type = 0 \<or> type = SIGN \<or> type = SMALL"
    and n: "type = SIGN \<longrightarrow> num \<noteq> 0x80000000"
  shows "\<exists>ds. number num base (-1) (-1) type = Inr (Some (sign_text type num @ ds)) \<and>
    shows_value base (magnitude type num) ds"
proof -
  have f: "\<not> flag type LEFT" "\<not> flag type ZEROPAD" "prefix_text type base = []"
    using t by (auto simp: flag_def prefix_text_def)
  show ?thesis
    using number_layout_ex [OF b, of "-1" "-1" num type] f n t
    by (auto simp: is_int_def sign_text_def pad_loops_def flag_def)
qed

lemma vsprintf_loop_plain:
  "CHR ''%'' \<notin> set f \<Longrightarrow> vsprintf_loop (f @ g) args out st = vsprintf_loop g args (out @ f) st"
  by (induction f arbitrary: out) auto

lemma number_hex8:
  "\<exists>s. number w 16 8 (-1) ZEROPAD = Inr (Some s) \<and> length s = 8 \<and> number_val 16 s = unat w"
proof -
  have f: "flag ZEROPAD ZEROPAD" "\<not> flag ZEROPAD LEFT" "sign_text ZEROPAD w = []"
    "prefix_text ZEROPAD 16 = []" "magnitude ZEROPAD w = w" "\<not> flag ZEROPAD SIGN" "pad_loops ZEROPAD = 2"
    by (simp_all add: flag_def sign_text_def prefix_text_def magnitude_def pad_loops_def)
  have "(2 :: u32) \<le> 16" "(16 :: u32) \<le> 36" by simp_all
  from number_layout_ex [OF this, of 8 "-1" w ZEROPAD] f obtain ds where
    ds: "number w 16 8 (-1) ZEROPAD = Inr (Some (replicate (nat (8 - int (length ds))) CHR ''0'' @ ds))"
    "shows_value 16 w ds" by (auto simp: is_int_def)
  have "unat w < unat (16 :: u32) ^ 8" using unat_le_u32 [of w] by simp
  then have "length ds \<le> 8"
    using ds(2) unfolding shows_value_def by (elim conjE) (rule mp [OF mp [OF spec [of _ 8]]], simp_all)
  moreover have "number_val 16 ds = unat w" using ds(2) by (simp add: shows_value_def)
  ultimately show ?thesis using ds(1) by (simp add: number_val_zeros)
qed

text \<open>The width and the precision \<open>vsprintf\<close> hands to \<open>number\<close> are values of an \<^verbatim>\<open>int\<close>.\<close>

lemma digit_int: "is_digit c \<Longrightarrow> 48 \<le> (of_char c :: int)"
proof -
  assume "is_digit c"
  then have "48 \<le> (of_char c :: nat)" by (simp add: is_digit_def)
  then have "int 48 \<le> int (of_char c)" by (rule zle_int [THEN iffD2])
  then have "48 \<le> int (of_char c)" by simp
  then show ?thesis by (simp only: of_nat_of_char)
qed

lemma skip_atoi_int: "skip_atoi i s = Inr (w, rest) \<Longrightarrow> 0 \<le> i \<Longrightarrow> is_int i \<Longrightarrow> 0 \<le> w \<and> is_int w"
proof (induction i s rule: skip_atoi.induct)
  case (2 i c cs)
  show ?case
  proof (cases "is_digit c \<and> \<not> 2147483647 < i * 10 + of_char c")
    case True
    then have "skip_atoi (i * 10 + of_char c - 48) cs = Inr (w, rest)" using 2(2) by simp
    with 2(1) True show ?thesis using 2(3) digit_int [of c] by (simp add: is_int_def)
  next
    case False
    then have "w = i" using 2(2) by (simp split: if_split_asm)
    then show ?thesis using 2(3,4) by simp
  qed
qed simp

lemma skip_atoi_0_int: "skip_atoi 0 s = Inr (w, rest) \<Longrightarrow> 0 \<le> w \<and> is_int w"
  by (erule skip_atoi_int) (simp_all add: is_int_def)

lemma sint_is_int: "is_int (sint (a :: u32))" "sint (a :: u32) < 0 \<Longrightarrow> sint a \<noteq> -2147483648 \<Longrightarrow> is_int (- sint a)"
  using sint_greater_eq [of a] sint_less [of a] by (simp_all add: is_int_def)

lemma small_is_int: "is_int 0" "is_int (-1)"
  by (simp_all add: is_int_def)

lemma width_is_int: "parse_width s args f = Inr (w, f', rest, as) \<Longrightarrow> -1 \<le> w \<and> is_int w"
  by (auto simp: parse_width_def sint_is_int small_is_int simp del: skip_atoi.simps
      split: list.splits if_splits dest!: skip_atoi_0_int)

lemma precision_is_int: "parse_precision s args = Inr (p, rest, as) \<Longrightarrow> -1 \<le> p \<and> is_int p"
  by (auto simp: parse_precision_def sint_is_int small_is_int simp del: skip_atoi.simps
      split: list.splits if_splits dest!: skip_atoi_0_int)

section \<open>Properties\<close>

text \<open>C23: What \<open>number\<close> does for every value, base from 2 to 36, width, precision and flags. Either an
  \<^verbatim>\<open>int\<close> overflows: the value is the least \<^verbatim>\<open>int\<close> and has to be negated, or the width minus the
  length of the text, counted down once more by every loop that pads, falls below the least
  \<^verbatim>\<open>int\<close>. Or the text is written: sign, prefix, zeros up to the precision and the digits,
  filled up to the width on the left with spaces or zeros or on the right with spaces. The digits are
  those of the value in the base, without leading zeros, and at most 32, so that the array
  \<^verbatim>\<open>tmp\<close> is never exceeded.\<close>

theorem number_layout:
  assumes "2 \<le> base" and "base \<le> 36" and "is_int sz" and "is_int precision"
  shows "\<exists>ds z f. number num base sz precision type =
      (if flag type SIGN \<and> num = 0x80000000 \<or>
          sz - int (length (sign_text type num @ prefix_text type base @ z @ ds)) - pad_loops type < -2147483648
       then Inl (Undefined ''int overflow'')
       else Inr (Some (if flag type LEFT then sign_text type num @ prefix_text type base @ z @ ds @ f
         else if flag type ZEROPAD then sign_text type num @ prefix_text type base @ f @ z @ ds
         else f @ sign_text type num @ prefix_text type base @ z @ ds))) \<and>
    shows_value base (magnitude type num) ds \<and> length ds \<le> 32 \<and>
    z = replicate (nat (precision - int (length ds))) CHR ''0'' \<and>
    f = replicate (nat (sz - int (length (sign_text type num @ prefix_text type base @ z @ ds))))
      (if flag type ZEROPAD \<and> \<not> flag type LEFT then CHR ''0'' else CHR '' '')"
  by (rule number_layout_ex [OF assms])

text \<open>The second instance is the error: the precision is the greatest \<^verbatim>\<open>int\<close> and there is no width.\<close>

theorem number_layout_witness:
  "(\<exists>ds z f. number 255 16 10 4 (SPECIAL OR SMALL) =
      (if flag (SPECIAL OR SMALL) SIGN \<and> (255 :: u32) = 0x80000000 \<or>
          10 - int (length (sign_text (SPECIAL OR SMALL) 255 @ prefix_text (SPECIAL OR SMALL) 16 @ z @ ds)) - pad_loops (SPECIAL OR SMALL) < -2147483648
       then Inl (Undefined ''int overflow'')
       else Inr (Some (if flag (SPECIAL OR SMALL) LEFT then sign_text (SPECIAL OR SMALL) 255 @ prefix_text (SPECIAL OR SMALL) 16 @ z @ ds @ f
         else if flag (SPECIAL OR SMALL) ZEROPAD then sign_text (SPECIAL OR SMALL) 255 @ prefix_text (SPECIAL OR SMALL) 16 @ f @ z @ ds
         else f @ sign_text (SPECIAL OR SMALL) 255 @ prefix_text (SPECIAL OR SMALL) 16 @ z @ ds))) \<and>
    shows_value 16 (magnitude (SPECIAL OR SMALL) 255) ds \<and> length ds \<le> 32 \<and>
    z = replicate (nat (4 - int (length ds))) CHR ''0'' \<and>
    f = replicate (nat (10 - int (length (sign_text (SPECIAL OR SMALL) 255 @ prefix_text (SPECIAL OR SMALL) 16 @ z @ ds))))
      (if flag (SPECIAL OR SMALL) ZEROPAD \<and> \<not> flag (SPECIAL OR SMALL) LEFT then CHR ''0'' else CHR '' '')) \<and>
   (\<exists>ds z f. number 255 16 (-2) 2147483647 SPECIAL =
      (if flag SPECIAL SIGN \<and> (255 :: u32) = 0x80000000 \<or>
          - 2 - int (length (sign_text SPECIAL 255 @ prefix_text SPECIAL 16 @ z @ ds)) - pad_loops SPECIAL < -2147483648
       then Inl (Undefined ''int overflow'')
       else Inr (Some (if flag SPECIAL LEFT then sign_text SPECIAL 255 @ prefix_text SPECIAL 16 @ z @ ds @ f
         else if flag SPECIAL ZEROPAD then sign_text SPECIAL 255 @ prefix_text SPECIAL 16 @ f @ z @ ds
         else f @ sign_text SPECIAL 255 @ prefix_text SPECIAL 16 @ z @ ds))) \<and>
    shows_value 16 (magnitude SPECIAL 255) ds \<and> length ds \<le> 32 \<and>
    z = replicate (nat (2147483647 - int (length ds))) CHR ''0'' \<and>
    f = replicate (nat (- 2 - int (length (sign_text SPECIAL 255 @ prefix_text SPECIAL 16 @ z @ ds))))
      (if flag SPECIAL ZEROPAD \<and> \<not> flag SPECIAL LEFT then CHR ''0'' else CHR '' '')) \<and>
   number 255 16 (-2) 2147483647 SPECIAL = Inl (Undefined ''int overflow'')"
proof -
  have e: "number 255 16 (-2) 2147483647 SPECIAL = Inl (Undefined ''int overflow'')"
    by (simp add: number_def flag_def c_int_def is_int_def Let_def tmp_digits.simps)
  show ?thesis
    by (intro conjI number_layout e) (simp_all add: is_int_def)
qed

text \<open>\<^verbatim>\<open>%d\<close> prints every \<^verbatim>\<open>int\<close> but the least one, whose negation overflows, so that
  reading the text gives the value back: a minus sign exactly for a negative value, then the decimal digits
  of the absolute value without leading zeros, at most ten of them.\<close>

theorem printk_decimal:
  "if w = 0x80000000 then vsprintf ''%d'' [Num w] = Inl (Undefined ''int overflow'')
   else \<exists>ds. vsprintf ''%d'' [Num w] = Inr ((if sint w < 0 then ''-'' else []) @ ds, []) \<and>
     (if sint w < 0 then - int (number_val 10 ds) else int (number_val 10 ds)) = sint w \<and>
     (hd ds = CHR ''0'') = (ds = ''0'') \<and> 0 < length ds \<and> length ds \<le> 10"
proof (cases "w = 0x80000000")
  case True
  then show ?thesis
    by (simp add: vsprintf_def parse_width_def parse_precision_def skip_qualifier_def convert_def
        convert_number_def arg_num_def is_digit_def number_def flag_def c_int_def is_int_def word_sless_alt)
next
  case w0: False
  obtain ds where ds: "number w 10 (-1) (-1) SIGN = Inr (Some (sign_text SIGN w @ ds))"
    "shows_value 10 (magnitude SIGN w) ds"
    using number_simple [of 10 SIGN w] w0 by auto
  have neg: "w <s 0 \<longleftrightarrow> sint w < 0" by (simp add: word_sless_alt)
  have s: "sign_text SIGN w = (if sint w < 0 then ''-'' else [])"
    by (simp add: sign_text_def flag_def neg)
  have v: "vsprintf ''%d'' [Num w] = Inr ((if sint w < 0 then ''-'' else []) @ ds, [])"
    using ds(1) s by (simp add: vsprintf_def parse_width_def parse_precision_def skip_qualifier_def
        convert_def convert_number_def arg_num_def is_digit_def)
  have m: "(if sint w < 0 then - int (unat (magnitude SIGN w)) else int (unat (magnitude SIGN w))) = sint w"
  proof (cases "sint w < 0")
    case True
    then have w: "\<not> w < 0x80000000" using sint_u32 [of w] by (auto split: if_splits)
    then have "w \<noteq> 0" by auto
    have "uint (- w) = 4294967296 - uint w"
      using \<open>w \<noteq> 0\<close> mod_pos_pos_trivial [of "uint w" 4294967296]
        unsigned_less [where w = w and 'a = int]
      by (simp add: uint_word_ariths zmod_zminus1_eq_if uint_0_iff)
    then show ?thesis
      using True w by (simp add: magnitude_def flag_def neg sint_u32 flip: uint_nat)
  next
    case False
    then show ?thesis
      using sint_u32 [of w] unsigned_less [where w = w and 'a = int]
      by (simp add: magnitude_def flag_def neg flip: uint_nat split: if_splits)
  qed
  have "unat (magnitude SIGN w) < unat (10 :: u32) ^ 10"
    by (rule le_less_trans [OF unat_le_u32]) simp
  then have "length ds \<le> 10"
    using ds(2) unfolding shows_value_def by (elim conjE) (rule mp [OF mp [OF spec [of _ 10]]], simp_all)
  then show ?thesis using w0 v m ds(2) by (auto simp: shows_value_def)
qed


text \<open>The format the kernel prints addresses with: \<^verbatim>\<open>0x%08X\<close> gives exactly eight hexadecimal
  digits, and reading them gives the value back.\<close>

theorem printk_address:
  "\<exists>s. vsprintf ''0x%08X'' [Num w] = Inr (''0x'' @ s, []) \<and> length s = 8 \<and> number_val 16 s = unat w"
proof -
  obtain s where "number w 16 8 (-1) ZEROPAD = Inr (Some s)" "length s = 8" "number_val 16 s = unat w"
    using number_hex8 by blast
  then show ?thesis
    by (simp add: vsprintf_def parse_width_def parse_precision_def skip_qualifier_def
        convert_def convert_number_def arg_num_def is_digit_def)
qed

text \<open>Text without \<^verbatim>\<open>%\<close> is printed as it is, whatever the arguments, as long as it fits into
  the buffer of 1024 characters with its terminating zero. From 1024 characters on the buffer
  overflows: no function on the way checks the length.\<close>

theorem printk_text_buffer:
  assumes "CHR ''%'' \<notin> set f"
  shows "printk f args st = (if length f < 1024 then Inr (console_write (map of_char f) st)
    else Inl (Undefined ''buff''))"
  using vsprintf_loop_plain [OF assms, of "[]" args "[]" "[]"]
  by (simp add: printk_def printk_with_def printk_text_def vsprintf_def)

theorem printk_text_buffer_witness:
  "printk ''Write error.'' [] console0 =
    (if length ''Write error.'' < 1024 then Inr (console_write (map of_char ''Write error.'') console0)
     else Inl (Undefined ''buff''))"
  by (rule printk_text_buffer) simp

text \<open>A field width given as \<^verbatim>\<open>*\<close> does not work: \<open>vsprintf\<close> takes the argument but does
  not step over the \<^verbatim>\<open>*\<close>, which then is taken for an unknown conversion. With \<^verbatim>\<open>%*d\<close>, the width
  and the value are both lost and the format itself is printed.\<close>

theorem printk_star_width:
  assumes "0 \<le> sint w"
  shows "vsprintf ''%*d'' [Num w, Num v] = Inr (''%*d'', [])"
  using assms by (simp add: vsprintf_def parse_width_def parse_precision_def skip_qualifier_def
      convert_def arg_num_def is_digit_def)

theorem printk_star_width_witness:
  "vsprintf ''%*d'' [Num 8, Num 1] = Inr (''%*d'', [])"
  by (rule printk_star_width) simp

text \<open>The pointers \<^verbatim>\<open>%n\<close> stores through are arguments of the call.\<close>

lemma arg_num_set: "arg_num args = Inr (w, as) \<Longrightarrow> Num w \<in> set args \<and> set as \<subseteq> set args"
  by (auto simp: arg_num_def split: list.splits varg.splits)

lemma arg_str_set: "arg_str args = Inr (t, as) \<Longrightarrow> set as \<subseteq> set args"
  by (auto simp: arg_str_def split: list.splits varg.splits)

lemma parse_width_set: "parse_width s args f = Inr (w, f', rest, as) \<Longrightarrow> set as \<subseteq> set args"
  by (auto simp: parse_width_def split: list.splits if_splits dest!: arg_num_set)

lemma parse_precision_set: "parse_precision s args = Inr (p, rest, as) \<Longrightarrow> set as \<subseteq> set args"
  by (auto simp: parse_precision_def split: list.splits if_splits dest!: arg_num_set)

lemma convert_number_set:
  "convert_number args base width precision flags = Inr (t, as, stores) \<Longrightarrow> set as \<subseteq> set args \<and> stores = []"
  by (auto simp: convert_number_def split: option.splits dest!: arg_num_set)

lemma if_cases: "(if b then x else y) = r \<Longrightarrow> (x = r \<Longrightarrow> P) \<Longrightarrow> (y = r \<Longrightarrow> P) \<Longrightarrow> P"
  by (simp split: if_splits)

lemma convert_args_set:
  "convert f flags width precision args k = Inr (t, as, stores) \<Longrightarrow>
   set as \<subseteq> set args \<and> (\<forall>ip n. (ip, n) \<in> set stores \<longrightarrow> Num ip \<in> set args)"
  by (cases f) (simp add: convert_def,
    simp only: convert_def list.case, elim if_cases, auto dest!: convert_number_set arg_num_set arg_str_set)

lemma vsprintf_stores:
  "vsprintf_loop f args out stores = Inr (t, stores') \<Longrightarrow> (ip, n) \<in> set stores' \<Longrightarrow>
   (ip, n) \<in> set stores \<or> Num ip \<in> set args"
proof (induction f args out stores rule: vsprintf_loop.induct)
  case (2 c cs args out stores)
  show ?case
  proof (cases "c = CHR ''%''")
    case True
    with 2(3) obtain width flags f1 as1 precision f2 as2 tx as3 st where
      p: "parse_width (snd (parse_flags cs 0)) args (fst (parse_flags cs 0)) = Inr (width, flags, f1, as1)"
        "parse_precision f1 as1 = Inr (precision, f2, as2)"
        "convert (skip_qualifier f2) flags width precision as2 (length out) = Inr (tx, as3, st)"
        "vsprintf_loop (tl (skip_qualifier f2)) as3 (out @ tx) (stores @ st) = Inr (t, stores')"
      by (auto simp: bindE_Inr_iff)
    have "(ip, n) \<in> set stores \<or> (ip, n) \<in> set st \<or> Num ip \<in> set as3"
      using 2(2) [OF _ p(1) _ _ _ p(2) _ _ p(3) _ _ p(4)] True 2(4) by simp
    then show ?thesis
      using parse_width_set [OF p(1)] parse_precision_set [OF p(2)] convert_args_set [OF p(3)] by blast
  qed (use 2 in auto)
qed simp

text \<open>The part of the state the console works on.\<close>

definition console_part :: "'a console_state_scheme \<Rightarrow> (nat \<Rightarrow> u16) \<times> u8 \<times> u8 \<times> (u16 \<times> u8) list \<times> bool" where
  "console_part st = (video_memory st, cursor_x st, cursor_y st, port_log st, intr_enabled st)"

lemma store_counts_part:
  assumes "\<And>ip n s s'. (ip, n) \<in> set stores \<Longrightarrow> poke ip n s = Inr s' \<Longrightarrow> console_part s' = console_part s"
  shows "store_counts poke stores st = Inr st' \<Longrightarrow> console_part st' = console_part st"
  using assms
proof (induction poke stores st rule: store_counts.induct)
  case (2 poke ip n stores st)
  then obtain s where s: "poke ip n st = Inr s" "store_counts poke stores s = Inr st'"
    by (auto simp: bindE_Inr_iff)
  show ?case using 2(1) [OF s] 2(3) s(1) by (metis list.set_intros)
qed simp

text \<open>C38: The screen keeps its type through every print, whatever the format and the colours, as long as no
  number among the arguments is a pointer into the data of the console: \<^verbatim>\<open>%n\<close> stores the count of
  characters through its argument, and a store into the cursor or the video memory would break everything
  here. What a store does to the state is the parameter \<open>poke\<close>, which may fault and may change whatever
  else the state holds. Then, when \<open>printk\<close> or \<open>printk_color\<close> returns, the cursor is on the screen, nothing
  behind the 2000 cells of the screen has been written, the only ports used are the two of the display, and
  the interrupt flag is as before. \<open>console_clear\<close> brings any state into that type.\<close>

theorem printk_keeps_console:
  assumes "console_ok st"
    and "printk_with poke f args st = Inr st' \<or> printk_color_with poke back fore f args st = Inr st'"
    and "\<forall>ip n s s'. Num ip \<in> set args \<and> poke ip n s = Inr s' \<longrightarrow> console_part s' = console_part s"
  shows "console_ok st' \<and> (\<forall>i. video_memory st' (2000 + i) = video_memory st (2000 + i)) \<and>
    (\<exists>ps. port_log st' = port_log st @ ps \<and> fst ` set ps \<subseteq> {0x3D4, 0x3D5}) \<and>
    intr_enabled st' = intr_enabled st \<and> console_ok (console_clear any)"
proof -
  obtain s stores st1 cs b c where p: "vsprintf_loop f args [] [] = Inr (s, stores)"
    "store_counts poke stores st = Inr st1" "st' = console_write_color cs b c st1"
    using assms(2) by (auto simp: printk_with_def printk_color_with_def printk_text_def vsprintf_def
        bindE_Inr_iff console_write_def split: if_splits)
  have "console_part st1 = console_part st"
  proof (rule store_counts_part [OF _ p(2)])
    show "console_part s' = console_part s" if "(ip, n) \<in> set stores" "poke ip n s = Inr s'" for ip n s s'
      using vsprintf_stores [OF p(1) that(1)] that(2) assms(3) by auto
  qed
  then have "console_ok st1" "video_memory st1 = video_memory st" "port_log st1 = port_log st"
    "intr_enabled st1 = intr_enabled st"
    using assms(1) by (simp_all add: console_part_def console_ok_def)
  then show ?thesis using console_write_keeps [of st1 cs b c] clear_ok p(3) by simp
qed

text \<open>A machine on which a store into the first page changes a memory next to the console, and any other
  store writes the first cell of the screen.\<close>

definition poke0 :: "u32 \<Rightarrow> u32 \<Rightarrow> (u32 \<Rightarrow> u32) console_state_scheme \<Rightarrow> (u32 \<Rightarrow> u32) console_state_scheme res" where
  "poke0 ip n st = Inr (if ip < 0x1000 then console_state.more_update (\<lambda>m. m(ip := n)) st
     else st\<lparr>video_memory := (video_memory st)(0 := ucast n)\<rparr>)"

definition console1 :: "(u32 \<Rightarrow> u32) console_state_scheme" where
  "console1 = \<lparr>port_log = [], intr_enabled = False, video_memory = (\<lambda>_. 0x741),
     cursor_x = 79, cursor_y = 24, \<dots> = (\<lambda>_. 0)\<rparr>"

theorem printk_keeps_console_witness:
  "\<exists>st st'. poke0 0x10 2 console1 = Inr st \<and> console_state.more st 0x10 = 2 \<and>
    printk_with poke0 ''ok%n.'' [Num 0x10] console1 = Inr st' \<and>
    st' = console_write (map of_char ''ok.'') st \<and> console_ok st' \<and>
    (\<forall>i. video_memory st' (2000 + i) = 0x741)"
proof -
  define st where "st = console_state.more_update (\<lambda>m. m(0x10 := 2)) console1"
  have 1: "poke0 0x10 2 console1 = Inr st" by (simp add: poke0_def st_def)
  have m: "console_state.more st 0x10 = 2" by (simp add: st_def)
  have v: "vsprintf ''ok%n.'' [Num 0x10] = Inr (''ok.'', [(0x10, 2)])"
    by (simp add: vsprintf_def parse_width_def parse_precision_def skip_qualifier_def convert_def
        arg_num_def is_digit_def)
  have p: "printk_with poke0 ''ok%n.'' [Num 0x10] console1 = Inr (console_write (map of_char ''ok.'') st)"
    by (simp add: printk_with_def printk_text_def v 1)
  have k: "\<forall>ip n s s'. Num ip \<in> set [Num 0x10] \<and> poke0 ip n s = Inr s' \<longrightarrow> console_part s' = console_part s"
    by (auto simp: poke0_def console_part_def)
  have "console_ok console1" by (simp add: console_ok_def console1_def)
  from printk_keeps_console [OF this disjI1 [OF p] k]
  have "console_ok (console_write (map of_char ''ok.'') st) \<and>
      (\<forall>i. video_memory (console_write (map of_char ''ok.'') st) (2000 + i) = video_memory console1 (2000 + i))" by blast
  moreover have "video_memory console1 (2000 + i) = 0x741" for i by (simp add: console1_def)
  ultimately show ?thesis using 1 m p by metis
qed

end
