(* ===== verification/Mstring.thy ===== *)
theory Mstring
  imports Access
begin

text \<open>
  The byte and string routines of \<^verbatim>\<open>libs/mstring.c\<close>, on the memory the page tables map. The
  loops that count \<open>len\<close> down end always; those that look for a zero byte may run on for ever, so
  their result is an option.
\<close>

lemma unat_minus_one_less: "(w :: u32) \<noteq> 0 \<Longrightarrow> unat (w - 1) < unat w"
  by (simp add: unat_pred unat_gt_0)

section \<open>Operations\<close>

function memcpy ::
  "u32 \<Rightarrow> u32 \<Rightarrow> u32 \<Rightarrow> 'a vmm_state_scheme \<Rightarrow> 'a vmm_state_scheme res" where
  "memcpy dest src len st =
     (if len = 0 then Inr st
      else bindE (read8 src st) (\<lambda>b.
           bindE (write8 dest b st) (\<lambda>st. memcpy (dest + 1) (src + 1) (len - 1) st)))"
  by pat_completeness auto
termination
  by (relation "measure (\<lambda>(d, s, len, st). unat len)") (auto simp: unat_minus_one_less)

function memset ::
  "u32 \<Rightarrow> u8 \<Rightarrow> u32 \<Rightarrow> 'a vmm_state_scheme \<Rightarrow> 'a vmm_state_scheme res" where
  "memset dest val len st =
     (if len = 0 then Inr st
      else bindE (write8 dest val st) (\<lambda>st. memset (dest + 1) val (len - 1) st))"
  by pat_completeness auto
termination
  by (relation "measure (\<lambda>(d, v, len, st). unat len)") (auto simp: unat_minus_one_less)

function bzero :: "u32 \<Rightarrow> u32 \<Rightarrow> 'a vmm_state_scheme \<Rightarrow> 'a vmm_state_scheme res" where
  "bzero dest len st =
     (if len = 0 then Inr st
      else bindE (write8 dest 0 st) (\<lambda>st. bzero (dest + 1) (len - 1) st))"
  by pat_completeness auto
termination
  by (relation "measure (\<lambda>(d, len, st). unat len)") (auto simp: unat_minus_one_less)

declare memcpy.simps [simp del] memset.simps [simp del] bzero.simps [simp del]

text \<open>
  \<^verbatim>\<open>char\<close> is signed: the comparison of two bytes is that of their signed values. The two reads
  of the loop condition are in order; after the loop the bytes at \<open>i\<close> are read again.
\<close>

partial_function (option) strcmp_from ::
  "u32 \<Rightarrow> u32 \<Rightarrow> u32 \<Rightarrow> 'a vmm_state_scheme \<Rightarrow> int res option" where
  "strcmp_from lhs rhs i st =
     (case read8 (lhs + i) st of Inl e \<Rightarrow> Some (Inl e)
      | Inr l \<Rightarrow>
          (case read8 (rhs + i) st of Inl e \<Rightarrow> Some (Inl e)
           | Inr r \<Rightarrow>
               if l \<noteq> 0 \<and> r \<noteq> 0 then
                 if l = r then strcmp_from lhs rhs (i + 1) st
                 else if r <s l then Some (Inr 1)
                 else if l <s r then Some (Inr (- 1))
                 else strcmp_from lhs rhs (i + 1) st
               else if l \<noteq> 0 then Some (Inr 1)
               else if r \<noteq> 0 then Some (Inr (- 1))
               else Some (Inr 0)))"

definition strcmp :: "u32 \<Rightarrow> u32 \<Rightarrow> 'a vmm_state_scheme \<Rightarrow> int res option" where
  "strcmp lhs rhs st = strcmp_from lhs rhs 0 st"

partial_function (option) strlen_from ::
  "u32 \<Rightarrow> u32 \<Rightarrow> 'a vmm_state_scheme \<Rightarrow> u32 res option" where
  "strlen_from src cnt st =
     (case read8 src st of Inl e \<Rightarrow> Some (Inl e)
      | Inr b \<Rightarrow> if b = 0 then Some (Inr cnt) else strlen_from (src + 1) (cnt + 1) st)"

definition strlen :: "u32 \<Rightarrow> 'a vmm_state_scheme \<Rightarrow> u32 res option" where
  "strlen src st = strlen_from src 0 st"

definition strcat ::
  "u32 \<Rightarrow> u32 \<Rightarrow> 'a vmm_state_scheme \<Rightarrow> (u32 \<times> 'a vmm_state_scheme) res option" where
  "strcat dest src st =
     bindO (strlen dest st) (\<lambda>l_len.
     bindO (strlen src st) (\<lambda>r_len.
       Some (bindE (memcpy (dest + l_len) src r_len st) (\<lambda>st. Inr (dest, st)))))"

section \<open>Filling and copying\<close>

text \<open>The memory after the bytes of a range have been replaced by \<open>f\<close> of their index.\<close>

definition overwrite :: "bytes \<Rightarrow> u32 \<Rightarrow> nat \<Rightarrow> (nat \<Rightarrow> u8) \<Rightarrow> bytes" where
  "overwrite m a n f =
     (\<lambda>x. if unat a \<le> unat x \<and> unat x < unat a + n then f (unat x - unat a) else m x)"

lemma overwrite_0 [simp]: "overwrite m a 0 f = m"
  by (rule ext) (auto simp: overwrite_def)

lemma overwrite_cong: "(\<And>i. i < n \<Longrightarrow> f i = g i) \<Longrightarrow> overwrite m a n f = overwrite m a n g"
  by (rule ext) (auto simp: overwrite_def)

lemma overwrite_Suc:
  assumes "unat a + Suc n \<le> 4294967296"
  shows "overwrite (m(a := f 0)) (a + 1) n (\<lambda>i. f (Suc i)) = overwrite m a (Suc n) f"
proof (cases "n = 0")
  case True
  then show ?thesis by (auto simp: overwrite_def fun_eq_iff u32_eq_unat)
next
  case False
  then have "unat (a + 1) = unat a + 1" using assms by (simp add: unat_plus_small)
  then show ?thesis
    by (auto simp: overwrite_def fun_eq_iff u32_eq_unat Suc_diff_Suc)
qed

lemma overwrite_outside:
  "\<not> (unat a \<le> unat x \<and> unat x < unat a + n) \<Longrightarrow> overwrite m a n f x = m x"
  by (auto simp: overwrite_def)

lemma overwrite_inside:
  "unat a + n \<le> 4294967296 \<Longrightarrow> i < n \<Longrightarrow> overwrite m a n f (a + of_nat i) = f i"
  by (simp add: overwrite_def unat_plus_of_nat_small)

lemma mapped_Suc:
  assumes "mapped st a (Suc n)"
  shows "translate st a \<noteq> None" and "n \<noteq> 0 \<Longrightarrow> unat (a + 1) = unat a + 1"
    and "n \<noteq> 0 \<Longrightarrow> mapped st (a + 1) n"
proof -
  show "translate st a \<noteq> None" using mapped_byte [OF assms, of 0] by simp
  assume "n \<noteq> 0"
  then show u: "unat (a + 1) = unat a + 1"
    using assms by (auto simp: mapped_def unat_plus_small)
  show "mapped st (a + 1) n"
    using assms u by (intro mapped_sub [OF assms]) simp_all
qed

lemma byte_access:
  assumes "translate st a \<noteq> None"
  shows "read8 a st = Inr (mem st a)" and "write8 a b st = Inr (st\<lparr>mem := (mem st)(a := b)\<rparr>)"
  using assms by (simp_all add: read8_def write8_def)

lemma unat_Suc_cases:
  assumes "unat (len :: u32) = Suc n"
  shows "len \<noteq> 0" and "unat (len - 1) = n"
proof -
  show "len \<noteq> 0" using assms by auto
  then show "unat (len - 1) = n" using assms by (simp add: unat_pred)
qed

lemma memset_mapped:
  assumes "mapped st a (unat len)"
  shows "memset a v len st = Inr (st\<lparr>mem := overwrite (mem st) a (unat len) (\<lambda>_. v)\<rparr>)"
  using assms
proof (induction "unat len" arbitrary: a len st)
  case 0
  then have "len = 0" by (simp add: u32_eq_unat)
  then show ?case by (simp add: memset.simps)
next
  case (Suc n)
  note l = unat_Suc_cases [OF Suc.hyps(2) [symmetric]]
  have m: "mapped st a (Suc n)" using Suc.prems Suc.hyps(2) by simp
  let ?st = "st\<lparr>mem := (mem st)(a := v)\<rparr>"
  have s: "memset a v len st = memset (a + 1) v (len - 1) ?st"
    using l(1) byte_access(2) [OF mapped_Suc(1) [OF m]] by (simp add: memset.simps [of a v len])
  have o: "overwrite ((mem st)(a := v)) (a + 1) n (\<lambda>_. v) = overwrite (mem st) a (Suc n) (\<lambda>_. v)"
    using m overwrite_Suc [of a n "mem st" "\<lambda>_. v"] by (simp add: mapped_def)
  show ?case
  proof (cases "n = 0")
    case True
    then show ?thesis using s o l by (simp add: memset.simps u32_eq_unat flip: Suc.hyps(2))
  next
    case False
    then have "memset (a + 1) v (len - 1) ?st =
        Inr (?st\<lparr>mem := overwrite (mem ?st) (a + 1) (unat (len - 1)) (\<lambda>_. v)\<rparr>)"
      using mapped_Suc(3) [OF m] l(2) by (intro Suc.hyps(1)) simp_all
    then show ?thesis using s o l(2) by (simp flip: Suc.hyps(2))
  qed
qed

text \<open>\<open>bzero\<close> is \<open>memset\<close> with the value 0.\<close>

lemma bzero_memset: "bzero a len st = memset a 0 len st"
  by (induction a len st rule: bzero.induct)
    (subst bzero.simps, subst memset.simps, auto intro: bindE_cong)

lemma bzero_mapped:
  "mapped st a (unat len) \<Longrightarrow>
    bzero a len st = Inr (st\<lparr>mem := overwrite (mem st) a (unat len) (\<lambda>_. 0)\<rparr>)"
  by (simp add: bzero_memset memset_mapped)

text \<open>
  Copying forwards is right for ranges that do not overlap and for a destination below the
  source.
\<close>

lemma memcpy_mapped:
  assumes "mapped st d (unat len)" and "mapped st s (unat len)"
    and "unat d \<le> unat s \<or> unat s + unat len \<le> unat d"
  shows "memcpy d s len st =
    Inr (st\<lparr>mem := overwrite (mem st) d (unat len) (\<lambda>i. mem st (s + of_nat i))\<rparr>)"
  using assms
proof (induction "unat len" arbitrary: d s len st)
  case 0
  then have "len = 0" by (simp add: u32_eq_unat)
  then show ?case by (simp add: memcpy.simps)
next
  case (Suc n)
  note l = unat_Suc_cases [OF Suc.hyps(2) [symmetric]]
  have m: "mapped st d (Suc n)" "mapped st s (Suc n)" using Suc.prems Suc.hyps(2) by simp_all
  let ?st = "st\<lparr>mem := (mem st)(d := mem st s)\<rparr>"
  have c: "memcpy d s len st = memcpy (d + 1) (s + 1) (len - 1) ?st"
    using l(1) byte_access [OF mapped_Suc(1) [OF m(1)]] byte_access [OF mapped_Suc(1) [OF m(2)]]
    by (simp add: memcpy.simps [of d s len])
  have o: "overwrite ((mem st)(d := mem st s)) (d + 1) n (\<lambda>i. mem st (s + of_nat (Suc i))) =
      overwrite (mem st) d (Suc n) (\<lambda>i. mem st (s + of_nat i))"
    using m(1) overwrite_Suc [of d n "mem st" "\<lambda>i. mem st (s + of_nat i)"] by (simp add: mapped_def)
  show ?case
  proof (cases "n = 0")
    case True
    then show ?thesis using c o l by (simp add: memcpy.simps u32_eq_unat flip: Suc.hyps(2))
  next
    case False
    note u = mapped_Suc(2) [OF m(1) False] mapped_Suc(2) [OF m(2) False]
    have "memcpy (d + 1) (s + 1) (len - 1) ?st = Inr (?st\<lparr>mem :=
        overwrite (mem ?st) (d + 1) (unat (len - 1)) (\<lambda>i. mem ?st (s + 1 + of_nat i))\<rparr>)"
      using mapped_Suc(3) [OF m(1) False] mapped_Suc(3) [OF m(2) False] l(2) u Suc.prems(3) Suc.hyps(2)
      by (intro Suc.hyps(1)) auto
    moreover have "overwrite (mem ?st) (d + 1) n (\<lambda>i. mem ?st (s + 1 + of_nat i)) =
        overwrite (mem ?st) (d + 1) n (\<lambda>i. mem st (s + of_nat (Suc i)))"
    proof (rule overwrite_cong)
      fix i
      assume "i < n"
      then have "unat (s + of_nat (Suc i)) = unat s + Suc i"
        using m(2) by (intro unat_plus_of_nat_small) (auto simp: mapped_def)
      then have "s + of_nat (Suc i) \<noteq> d" using Suc.prems(3) \<open>i < n\<close> Suc.hyps(2) by auto
      then show "mem ?st (s + 1 + of_nat i) = mem st (s + of_nat (Suc i))"
        by (simp add: add.assoc)
    qed
    ultimately show ?thesis using c o l(2) by (simp flip: Suc.hyps(2))
  qed
qed

section \<open>Strings\<close>

text \<open>A string in memory: its bytes, none of them zero, with a zero byte after them.\<close>

fun cstr :: "'a vmm_state_scheme \<Rightarrow> u32 \<Rightarrow> u8 list \<Rightarrow> bool" where
  "cstr st a [] = (translate st a \<noteq> None \<and> mem st a = 0)"
| "cstr st a (c # cs) = (translate st a \<noteq> None \<and> mem st a = c \<and> c \<noteq> 0 \<and> cstr st (a + 1) cs)"

lemma cstr_read: "cstr st a s \<Longrightarrow> read8 a st = Inr (case s of [] \<Rightarrow> 0 | c # _ \<Rightarrow> c)"
  by (cases s) (auto simp: byte_access)

lemma cstr_zero_iff: "cstr st a s \<Longrightarrow> mem st a = 0 \<longleftrightarrow> s = []"
  by (cases s) auto

lemma cstr_nth: "cstr st a s \<Longrightarrow> i < length s \<Longrightarrow> mem st (a + of_nat i) = s ! i"
proof (induction s arbitrary: a i)
  case (Cons c cs)
  then show ?case using Cons.IH [of "a + 1" "i - 1"] by (cases i) (simp_all add: add.assoc)
qed simp

lemma cstr_end: "cstr st a s \<Longrightarrow> mem st (a + of_nat (length s)) = 0"
proof (induction s arbitrary: a)
  case (Cons c cs)
  from Cons.IH [of "a + 1"] Cons.prems show ?case by (simp add: add.assoc)
qed simp

text \<open>The string at an address is unique.\<close>

lemma cstr_unique: "cstr st a s \<Longrightarrow> cstr st a t \<Longrightarrow> s = t"
proof (induction s arbitrary: a t)
  case Nil
  then show ?case by (cases t) auto
next
  case (Cons c cs)
  then show ?case by (cases t) auto
qed

lemma cstr_nonzero: "cstr st a s \<Longrightarrow> 0 \<notin> set s"
  by (induction s arbitrary: a) auto

lemma cstr_iff:
  assumes "mapped st a (length s + 1)" and "0 \<notin> set s"
  shows "cstr st a s \<longleftrightarrow>
    (\<forall>i < length s. mem st (a + of_nat i) = s ! i) \<and> mem st (a + of_nat (length s)) = 0"
proof -
  have "cstr st a s"
    if "mapped st a (length s + 1)" "0 \<notin> set s"
      "\<forall>i < length s. mem st (a + of_nat i) = s ! i" "mem st (a + of_nat (length s)) = 0"
    using that
  proof (induction s arbitrary: a)
    case Nil
    then show ?case using mapped_Suc(1) [of st a 0] by simp
  next
    case (Cons c cs)
    have "mem st (a + 1 + of_nat i) = cs ! i" if "i < length cs" for i
      using Cons.prems(3) that by (metis (no_types, lifting) Suc_less_eq add.assoc length_Cons nth_Cons_Suc of_nat_Suc)
    moreover have "mem st a = c" using Cons.prems(3) by force
    moreover have "cstr st (a + 1) cs"
      using Cons.prems calculation(1) mapped_Suc(3) [of st a "length cs + 1"]
      by (intro Cons.IH) (simp_all add: add.assoc)
    ultimately show ?case using Cons.prems mapped_Suc(1) [of st a "length cs + 1"] by simp
  qed
  then show ?thesis using assms cstr_nth cstr_end by blast
qed

lemma strlen_from_cstr:
  "cstr st a s \<Longrightarrow> strlen_from a cnt st = Some (Inr (cnt + of_nat (length s)))"
proof (induction s arbitrary: a cnt)
  case Nil
  then show ?case by (subst strlen_from.simps) (auto simp: byte_access)
next
  case (Cons c cs)
  then show ?case by (subst strlen_from.simps) (auto simp: byte_access add.assoc)
qed

lemma strlen_cstr: "cstr st a s \<Longrightarrow> strlen a st = Some (Inr (of_nat (length s)))"
  by (simp add: strlen_def strlen_from_cstr)

text \<open>The order of strings \<open>strcmp\<close> decides: lexicographic, on signed bytes.\<close>

definition char_less :: "(u8 \<times> u8) set" where
  "char_less = {(x, y). x <s y}"

lemma signed_trichotomy: "(x :: u8) \<noteq> y \<Longrightarrow> \<not> y <s x \<Longrightarrow> x <s y"
  by (simp add: word_sless_alt) (metis linorder_neqE_linordered_idom signed_word_eqI)

lemma strcmp_from_cstr:
  "cstr st (lhs + i) s \<Longrightarrow> cstr st (rhs + i) t \<Longrightarrow>
   strcmp_from lhs rhs i st = Some (Inr (if s = t then 0 else if (t, s) \<in> lexord char_less then 1 else - 1))"
proof (induction s arbitrary: i t)
  case Nil
  then show ?case
    by (cases t) (subst strcmp_from.simps, auto simp: byte_access)+
next
  case (Cons c cs)
  show ?case
  proof (cases t)
    case Nil
    then show ?thesis using Cons.prems by (subst strcmp_from.simps) (auto simp: byte_access)
  next
    case t: (Cons d ds)
    have IH: "c = d \<Longrightarrow> strcmp_from lhs rhs (i + 1) st =
        Some (Inr (if cs = ds then 0 else if (ds, cs) \<in> lexord char_less then 1 else - 1))"
      using Cons.prems t by (intro Cons.IH) (auto simp: add.assoc)
    have "\<not> c <s c" by (simp add: word_sless_alt)
    then show ?thesis
      using Cons.prems t IH signed_trichotomy [of c d]
      by (subst strcmp_from.simps) (auto simp: byte_access char_less_def)
  qed
qed

text \<open>A small address space: one table maps the pages from \<open>0xC0000000\<close> to the frames of the same number.\<close>

definition flat_space :: "bytes \<Rightarrow> vmm_state" where
  "flat_space m = \<lparr>pmm_stack = (\<lambda>_. 0), pmm_stack_top = 0, phy_page_count = 0,
     pgd_kern = 0xC0110000, pte_kern = 0xC0120000,
     pgd = (\<lambda>d i. if d = 0xC0110000 \<and> i = 768 then 0x120003 else 0),
     ptab = (\<lambda>t i. if t = 0x120000 then push_bit 12 i OR 3 else 0),
     cr3 = 0x110000, mem = m, frame = (\<lambda>_. 0)\<rparr>"

lemma flat_space_translate:
  assumes "0xC0000000 \<le> unat a" and "unat a < 0xC0400000"
  shows "translate (flat_space m) a \<noteq> None"
proof -
  have "unat a div 4194304 = 768" using assms by (intro div_nat_eqI) simp_all
  then have "unat (PGD_INDEX a) = 768" by (simp add: PGD_INDEX_def unat_3ff unat_drop_22)
  then have i: "PGD_INDEX a = 768" by (simp add: u32_eq_unat)
  have p: "(push_bit 12 (PTE_INDEX a) OR 3) AND 1 \<noteq> 0"
  proof
    assume "(push_bit 12 (PTE_INDEX a) OR 3) AND 1 = 0"
    then have "\<not> bit ((push_bit 12 (PTE_INDEX a) OR 3) AND 1) 0" by simp
    then show False by (simp add: bit_simps)
  qed
  then show ?thesis by (simp add: translate_def walk_def flat_space_def i)
qed

lemma flat_space_mapped:
  "0xC0000000 \<le> unat a \<Longrightarrow> unat a + n \<le> 0xC0400000 \<Longrightarrow> mapped (flat_space m) a n"
  unfolding mapped_def using flat_space_translate [of _ m] by fastforce

lemma flat_space_mem [simp]: "mem (flat_space m) = m"
  by (simp add: flat_space_def)

section \<open>Properties\<close>

text \<open>\<open>memcpy\<close> copies: for ranges that are mapped and do not overlap, and also for an
  overlapping destination below its source, the destination afterwards holds the bytes the
  source held before, and no other byte has changed.\<close>

theorem memcpy_copies:
  assumes "mapped st d (unat len)" and "mapped st s (unat len)"
    and "unat d \<le> unat s \<or> unat s + unat len \<le> unat d"
  shows "\<exists>m. memcpy d s len st = Inr (st\<lparr>mem := m\<rparr>) \<and>
    map (\<lambda>i. m (d + of_nat i)) [0..<unat len] = map (\<lambda>i. mem st (s + of_nat i)) [0..<unat len] \<and>
    {x. m x \<noteq> mem st x} \<subseteq> {x. unat d \<le> unat x \<and> unat x < unat d + unat len}"
proof (intro exI conjI)
  let ?m = "overwrite (mem st) d (unat len) (\<lambda>i. mem st (s + of_nat i))"
  show "memcpy d s len st = Inr (st\<lparr>mem := ?m\<rparr>)" by (rule memcpy_mapped [OF assms])
  show "map (\<lambda>i. ?m (d + of_nat i)) [0..<unat len] = map (\<lambda>i. mem st (s + of_nat i)) [0..<unat len]"
    using assms(1) by (auto simp: mapped_def overwrite_inside)
  show "{x. ?m x \<noteq> mem st x} \<subseteq> {x. unat d \<le> unat x \<and> unat x < unat d + unat len}"
    by (auto simp: overwrite_def split: if_splits)
qed

theorem memcpy_copies_witness:
  "\<exists>m. memcpy 0xC0001000 0xC0002000 5 (flat_space ucast) = Inr ((flat_space ucast)\<lparr>mem := m\<rparr>) \<and>
    map (\<lambda>i. m (0xC0001000 + of_nat i)) [0..<unat (5 :: u32)] =
      map (\<lambda>i. mem (flat_space ucast) (0xC0002000 + of_nat i)) [0..<unat (5 :: u32)] \<and>
    {x. m x \<noteq> mem (flat_space ucast) x} \<subseteq>
      {x. unat (0xC0001000 :: u32) \<le> unat x \<and> unat x < unat (0xC0001000 :: u32) + unat (5 :: u32)}"
  by (rule memcpy_copies) (simp_all add: flat_space_mapped)

text \<open>C35: \<open>strcmp\<close> returns on every pair of strings, and decides the lexicographic order of
  their bytes read as signed values: 0 exactly for equal strings, 1 when the right one is less,
  and -1 otherwise.\<close>

theorem strcmp_order:
  assumes "cstr st l s" and "cstr st r t"
  shows "strcmp l r st =
    Some (Inr (if s = t then 0 else if (t, s) \<in> lexord char_less then 1 else - 1))"
  using strcmp_from_cstr [of st l 0 s r t] assms by (simp add: strcmp_def)

theorem strcmp_order_witness:
  "strcmp 0xC0000000 0xC0000010 (flat_space (\<lambda>a. if a = 0xC0000000 then 0x61 else 0)) =
    Some (Inr (if [0x61 :: u8] = [] then 0 else if ([], [0x61 :: u8]) \<in> lexord char_less then 1 else - 1))"
  by (rule strcmp_order) (auto simp: flat_space_translate simp del: not_None_eq)

text \<open>\<open>strcat\<close> copies the bytes of its source to the end of its destination but not the
  zero byte: the result is the concatenation exactly when the byte behind it already was zero.\<close>

theorem strcat_unterminated:
  assumes "cstr st d s" and "cstr st a t"
    and "mapped st d (length s + length t + 1)" and "mapped st a (length t)"
    and "unat d + length s \<le> unat a \<or> unat a + length t \<le> unat d + length s"
  shows "\<exists>m. strcat d a st = Some (Inr (d, st\<lparr>mem := m\<rparr>)) \<and>
    map (\<lambda>i. m (d + of_nat i)) [0..<length (s @ t)] = s @ t \<and>
    cstr (st\<lparr>mem := m\<rparr>) d (s @ t) = (mem st (d + of_nat (length (s @ t))) = 0)"
proof -
  let ?l = "of_nat (length s) :: u32" and ?n = "length (s @ t)"
  have n: "unat d + ?n < 4294967296" using assms(3) by (simp add: mapped_def)
  have u: "unat (d + ?l) = unat d + length s" "unat (of_nat (length t) :: u32) = length t"
    using n by (simp_all add: unat_plus_of_nat_small unat_of_nat_u32)
  let ?m = "overwrite (mem st) (d + ?l) (length t) (\<lambda>i. mem st (a + of_nat i))"
  have c: "strcat d a st = Some (Inr (d, st\<lparr>mem := ?m\<rparr>))"
    using memcpy_mapped [of st "d + ?l" "of_nat (length t)" a] assms(3,4,5) u
      mapped_sub [OF assms(3), of "d + ?l" "length t"]
    by (simp add: strcat_def strlen_cstr [OF assms(1)] strlen_cstr [OF assms(2)])
  have b: "?m (d + of_nat i) = (s @ t) ! i" if "i < ?n" for i
  proof -
    have i: "unat (d + of_nat i) = unat d + i" using that n by (simp add: unat_plus_of_nat_small)
    show ?thesis
    proof (cases "i < length s")
      case True
      then show ?thesis
        using cstr_nth [OF assms(1), of i] i u(1) by (simp add: overwrite_def nth_append)
    next
      case False
      then have "?m (d + of_nat i) = mem st (a + of_nat (i - length s))"
        using that i u(1) by (simp add: overwrite_def del: of_nat_diff)
      then show ?thesis
        using False that cstr_nth [OF assms(2), of "i - length s"] by (simp add: nth_append del: of_nat_diff)
    qed
  qed
  have e: "?m (d + of_nat ?n) = mem st (d + of_nat ?n)"
    using n u(1) by (simp add: overwrite_def unat_plus_of_nat_small del: of_nat_add)
  have z: "0 \<notin> set (s @ t)" using cstr_nonzero [OF assms(1)] cstr_nonzero [OF assms(2)] by simp
  have "cstr (st\<lparr>mem := ?m\<rparr>) d (s @ t) = (mem st (d + of_nat ?n) = 0)"
    using cstr_iff [of "st\<lparr>mem := ?m\<rparr>" d "s @ t"] assms(3) b e z by simp
  moreover have "map (\<lambda>i. ?m (d + of_nat i)) [0..<?n] = s @ t"
    using b by (intro nth_equalityI) simp_all
  ultimately show ?thesis using c by blast
qed

theorem strcat_unterminated_witness:
  "\<exists>m. strcat 0xC0000000 0xC0000010 (flat_space (\<lambda>a. if a = 0xC0000010 then 0x61 else 0)) =
      Some (Inr (0xC0000000, (flat_space (\<lambda>a. if a = 0xC0000010 then 0x61 else 0))\<lparr>mem := m\<rparr>)) \<and>
    map (\<lambda>i. m (0xC0000000 + of_nat i)) [0..<length ([] @ [0x61 :: u8])] = [] @ [0x61] \<and>
    cstr ((flat_space (\<lambda>a. if a = 0xC0000010 then 0x61 else 0))\<lparr>mem := m\<rparr>) 0xC0000000 ([] @ [0x61]) =
      (mem (flat_space (\<lambda>a. if a = 0xC0000010 then 0x61 else 0))
        (0xC0000000 + of_nat (length ([] @ [0x61 :: u8]))) = 0)"
  by (rule strcat_unterminated)
    (auto simp: flat_space_translate flat_space_mapped simp del: not_None_eq)

end
