(* ===== verification/Gdt.thy ===== *)
theory Gdt
  imports Prelude
begin

text \<open>
  Segmentation: \<^verbatim>\<open>gdt/gdt.c\<close>, \<^verbatim>\<open>gdt/gdt_s.s\<close> and \<^verbatim>\<open>include/gdt.h\<close>. The table is a list of
  entries with the fields of the packed structure; \<open>gdt_bytes\<close> is its memory image, which the
  processor reads.
\<close>

section \<open>State\<close>

record gdt_entry =
  limit_low :: u16
  base_low :: u16
  base_middle :: u8
  access :: u8
  granularty :: u8
  base_high :: u8

record gdt_ptr =
  gdt_ptr_limit :: u16
  gdt_ptr_base :: u32

definition GDT_LENGTH :: nat where [simp]: "GDT_LENGTH = 5"

text \<open>The table, the pointer to it, and the registers that \<open>gdt_flush\<close> loads.\<close>

record gdt_state =
  gdt_entries :: "gdt_entry list"
  gdt_ptr_var :: gdt_ptr
  gdtr :: gdt_ptr
  reg_cs :: u16
  reg_ds :: u16
  reg_es :: u16
  reg_fs :: u16
  reg_gs :: u16
  reg_ss :: u16

section \<open>Operations\<close>

text \<open>The assignments to the fields of one entry, in order.\<close>

definition gdt_fill :: "u32 \<Rightarrow> u32 \<Rightarrow> u8 \<Rightarrow> u8 \<Rightarrow> gdt_entry \<Rightarrow> gdt_entry" where
  "gdt_fill bas lim acc gran e =
     (let e = e\<lparr>base_low := ucast (bas AND 0xffff)\<rparr>;
          e = e\<lparr>base_middle := ucast (drop_bit 16 bas AND 0xff)\<rparr>;
          e = e\<lparr>base_high := ucast (drop_bit 24 bas AND 0xff)\<rparr>;
          e = e\<lparr>limit_low := ucast (lim AND 0xffff)\<rparr>;
          e = e\<lparr>granularty := ucast (drop_bit 16 lim AND 0x0f)\<rparr>;
          e = e\<lparr>granularty := granularty e OR (gran AND 0xf0)\<rparr>
      in e\<lparr>access := acc\<rparr>)"

text \<open>A number past the end of the array writes behind it.\<close>

definition gdt_set_gate ::
  "u32 \<Rightarrow> u32 \<Rightarrow> u32 \<Rightarrow> u8 \<Rightarrow> u8 \<Rightarrow> gdt_state \<Rightarrow> gdt_state res" where
  "gdt_set_gate num bas lim acc gran st =
     (if unat num < length (gdt_entries st)
      then Inr (st\<lparr>gdt_entries := (gdt_entries st)[unat num :=
             gdt_fill bas lim acc gran (gdt_entries st ! unat num)]\<rparr>)
      else Inl (Undefined ''gdt_entries''))"

text \<open>\<^verbatim>\<open>gdt_flush\<close>: \<^verbatim>\<open>lgdt\<close>, the data segment registers, and the far jump that reloads \<open>cs\<close>.\<close>

definition gdt_flush :: "gdt_state \<Rightarrow> gdt_state" where
  "gdt_flush st = st\<lparr>gdtr := gdt_ptr_var st, reg_ds := 0x10, reg_es := 0x10, reg_fs := 0x10, reg_gs := 0x10,
     reg_ss := 0x10, reg_cs := 0x08\<rparr>"

definition init_gdt :: "u32 \<Rightarrow> gdt_state \<Rightarrow> gdt_state res" where
  "init_gdt gdt_addr st =
     (let st = st\<lparr>gdt_ptr_var := \<lparr>gdt_ptr_limit = 8 * of_nat GDT_LENGTH - 1, gdt_ptr_base = gdt_addr\<rparr>\<rparr> in
      bindE (gdt_set_gate 0 0 0 0 0 st) (\<lambda>st.
      bindE (gdt_set_gate 1 0 0xffffffff 0x9A 0xCF st) (\<lambda>st.
      bindE (gdt_set_gate 2 0 0xffffffff 0x92 0xCF st) (\<lambda>st.
      bindE (gdt_set_gate 3 0 0xffffffff 0xFA 0xCF st) (\<lambda>st.
      bindE (gdt_set_gate 4 0 0xffffffff 0xF2 0xCF st) (\<lambda>st.
        Inr (gdt_flush st)))))))"

section \<open>The processor's view\<close>

text \<open>The packed structure, least significant bytes first.\<close>

definition entry_bytes :: "gdt_entry \<Rightarrow> u8 list" where
  "entry_bytes e = [ucast (limit_low e), ucast (drop_bit 8 (limit_low e)),
     ucast (base_low e), ucast (drop_bit 8 (base_low e)), base_middle e, access e, granularty e, base_high e]"

text \<open>A segment descriptor as the processor decodes its eight bytes.\<close>

record segment =
  seg_base :: u32
  seg_limit :: nat       \<comment> \<open>the last offset in it, in bytes\<close>
  seg_present :: bool
  seg_dpl :: nat
  seg_code :: bool       \<comment> \<open>executable; otherwise data\<close>
  seg_writable :: bool   \<comment> \<open>for code: readable\<close>
  seg_32bit :: bool

definition raw_base :: "u8 list \<Rightarrow> u32" where
  "raw_base b = ucast (b ! 2) OR push_bit 8 (ucast (b ! 3)) OR push_bit 16 (ucast (b ! 4)) OR push_bit 24 (ucast (b ! 7))"

definition raw_limit :: "u8 list \<Rightarrow> u32" where
  "raw_limit b = ucast (b ! 0) OR push_bit 8 (ucast (b ! 1)) OR push_bit 16 (ucast (b ! 6 AND 0x0f))"

definition segment_of :: "u8 list \<Rightarrow> segment" where
  "segment_of b = \<lparr>seg_base = raw_base b,
     seg_limit = (if bit (b ! 6) 7 then 4096 * unat (raw_limit b) + 4095 else unat (raw_limit b)),
     seg_present = bit (b ! 5) 7, seg_dpl = unat (drop_bit 5 (b ! 5) AND 3),
     seg_code = bit (b ! 5) 3, seg_writable = bit (b ! 5) 1, seg_32bit = bit (b ! 6) 6\<rparr>"

text \<open>The descriptor a selector picks from the table.\<close>

definition selected :: "gdt_state \<Rightarrow> u16 \<Rightarrow> segment" where
  "selected st sel = segment_of (entry_bytes (gdt_entries st ! (unat sel div 8)))"

section \<open>Encoding and decoding\<close>

lemma mask_words:
  "(x :: u32) AND 0xffff = take_bit 16 x" "x AND 0xff = take_bit 8 x" "x AND 0x0f = take_bit 4 x"
  "(y :: u8) AND 0x0f = take_bit 4 y" "y AND 0xf0 = push_bit 4 (drop_bit 4 y)"
proof -
  have m: "(0xf0 :: u8) = NOT (mask 4)" by (simp add: mask_eq_exp_minus_1)
  show "y AND 0xf0 = push_bit 4 (drop_bit 4 y)"
    unfolding m by (rule bit_word_eqI) (auto simp: bit_simps)
qed (simp_all add: take_bit_eq_mask mask_eq_exp_minus_1)

lemmas fill_defs = entry_bytes_def gdt_fill_def Let_def mask_words

lemma raw_base_fill: "raw_base (entry_bytes (gdt_fill bas lim acc gran e)) = bas"
proof (rule bit_word_eqI)
  fix n
  assume n: "n < LENGTH(32)"
  show "bit (raw_base (entry_bytes (gdt_fill bas lim acc gran e))) n = bit bas n"
    by (cases "24 \<le> n"; cases "16 \<le> n"; cases "8 \<le> n")
      (use n in \<open>auto simp: raw_base_def fill_defs bit_simps\<close>)
qed

lemma raw_limit_fill: "raw_limit (entry_bytes (gdt_fill bas lim acc gran e)) = lim AND 0xfffff"
proof (rule bit_word_eqI)
  fix n
  assume n: "n < LENGTH(32)"
  have m: "lim AND 0xfffff = take_bit 20 lim" by (simp add: take_bit_eq_mask mask_eq_exp_minus_1)
  show "bit (raw_limit (entry_bytes (gdt_fill bas lim acc gran e))) n = bit (lim AND 0xfffff) n"
    by (cases "20 \<le> n"; cases "16 \<le> n"; cases "8 \<le> n")
      (use n in \<open>auto simp: m raw_limit_def fill_defs bit_simps\<close>)
qed

lemma fill_access:
  "entry_bytes (gdt_fill bas lim acc gran e) ! 5 = acc"
  "4 \<le> n \<Longrightarrow> bit (entry_bytes (gdt_fill bas lim acc gran e) ! 6) n = bit gran n"
  by (auto simp: fill_defs bit_simps dest: bit_imp_le_length)

lemma segment_fill:
  "segment_of (entry_bytes (gdt_fill bas lim acc gran e)) =
    \<lparr>seg_base = bas, seg_limit = (if bit gran 7 then 4096 * unat (lim AND 0xfffff) + 4095 else unat (lim AND 0xfffff)),
     seg_present = bit acc 7, seg_dpl = unat (drop_bit 5 acc AND 3), seg_code = bit acc 3,
     seg_writable = bit acc 1, seg_32bit = bit gran 6\<rparr>"
  by (simp add: segment_of_def raw_base_fill raw_limit_fill fill_access)

section \<open>Properties\<close>

text \<open>The fields of a gate can be read back: for every base, limit, access byte and flags, the
  processor decodes from the eight bytes of the entry exactly that base, the low 20 bits of the
  limit, in pages when the flag says so, and the access rights, whatever the entry held before.
  The other entries of the table stay.\<close>

theorem gdt_set_gate_decodes:
  assumes "unat num < length (gdt_entries st)"
  shows "\<exists>st'. gdt_set_gate num bas lim acc gran st = Inr st' \<and>
    segment_of (entry_bytes (gdt_entries st' ! unat num)) =
      \<lparr>seg_base = bas,
       seg_limit = (if bit gran 7 then 4096 * unat (lim AND 0xfffff) + 4095 else unat (lim AND 0xfffff)),
       seg_present = bit acc 7, seg_dpl = unat (drop_bit 5 acc AND 3), seg_code = bit acc 3,
       seg_writable = bit acc 1, seg_32bit = bit gran 6\<rparr> \<and>
    list_update (gdt_entries st') (unat num) (gdt_entries st ! unat num) = gdt_entries st"
  using assms by (simp add: gdt_set_gate_def segment_fill)

definition gdt0 :: gdt_state where
  "gdt0 = \<lparr>gdt_entries = replicate 5 \<lparr>limit_low = 0, base_low = 0, base_middle = 0, access = 0, granularty = 0,
       base_high = 0\<rparr>,
     gdt_ptr_var = \<lparr>gdt_ptr_limit = 0, gdt_ptr_base = 0\<rparr>, gdtr = \<lparr>gdt_ptr_limit = 0, gdt_ptr_base = 0\<rparr>,
     reg_cs = 0, reg_ds = 0, reg_es = 0, reg_fs = 0, reg_gs = 0, reg_ss = 0\<rparr>"

theorem gdt_set_gate_decodes_witness:
  "\<exists>st'. gdt_set_gate 3 0x12345678 0xABCDE 0xF2 0x40 gdt0 = Inr st' \<and>
    segment_of (entry_bytes (gdt_entries st' ! unat (3 :: u32))) =
      \<lparr>seg_base = 0x12345678,
       seg_limit = (if bit (0x40 :: u8) 7 then 4096 * unat ((0xABCDE :: u32) AND 0xfffff) + 4095
         else unat ((0xABCDE :: u32) AND 0xfffff)),
       seg_present = bit (0xF2 :: u8) 7, seg_dpl = unat (drop_bit 5 (0xF2 :: u8) AND 3),
       seg_code = bit (0xF2 :: u8) 3, seg_writable = bit (0xF2 :: u8) 1, seg_32bit = bit (0x40 :: u8) 6\<rparr> \<and>
    list_update (gdt_entries st') (unat (3 :: u32)) (gdt_entries gdt0 ! unat (3 :: u32)) = gdt_entries gdt0"
  by (rule gdt_set_gate_decodes) (simp add: gdt0_def)

text \<open>C34: \<open>init_gdt\<close> sets up the flat memory model: with any five entries before, the register \<open>gdtr\<close>
  covers exactly the five entries; entry 0 is not present; the selectors \<^verbatim>\<open>0x08\<close> and \<^verbatim>\<open>0x10\<close>, which
  \<open>cs\<close> and the other segment registers then hold, pick present 32-bit code and data segments of
  privilege 0 that span all 4 GB from 0, and entries 3 and 4 the same for privilege 3.\<close>

theorem init_gdt_flat:
  assumes "length (gdt_entries st) = GDT_LENGTH"
  shows "\<exists>st'. init_gdt gdt_addr st = Inr st' \<and> length (gdt_entries st') = 5 \<and>
    gdtr st' = \<lparr>gdt_ptr_limit = 39, gdt_ptr_base = gdt_addr\<rparr> \<and>
    reg_cs st' = 0x08 \<and> set [reg_ds st', reg_es st', reg_fs st', reg_gs st', reg_ss st'] = {0x10} \<and>
    map (selected st') [0x08, 0x10, 0x18, 0x20] =
      map (\<lambda>(d, c). \<lparr>seg_base = 0, seg_limit = 4294967295, seg_present = True, seg_dpl = d, seg_code = c,
        seg_writable = True, seg_32bit = True\<rparr>) [(0, True), (0, False), (3, True), (3, False)] \<and>
    \<not> seg_present (selected st' 0)"
proof -
  obtain a b c d e where es: "gdt_entries st = [a, b, c, d, e]"
    using assms by (auto simp: length_Suc_conv numeral_eq_Suc)
  then show ?thesis
    by (simp add: init_gdt_def Let_def gdt_set_gate_def gdt_flush_def selected_def segment_fill)
qed

theorem init_gdt_flat_witness:
  "\<exists>st'. init_gdt 0xC0108000 gdt0 = Inr st' \<and> length (gdt_entries st') = 5 \<and>
    gdtr st' = \<lparr>gdt_ptr_limit = 39, gdt_ptr_base = 0xC0108000\<rparr> \<and>
    reg_cs st' = 0x08 \<and> set [reg_ds st', reg_es st', reg_fs st', reg_gs st', reg_ss st'] = {0x10} \<and>
    map (selected st') [0x08, 0x10, 0x18, 0x20] =
      map (\<lambda>(d, c). \<lparr>seg_base = 0, seg_limit = 4294967295, seg_present = True, seg_dpl = d, seg_code = c,
        seg_writable = True, seg_32bit = True\<rparr>) [(0, True), (0, False), (3, True), (3, False)] \<and>
    \<not> seg_present (selected st' 0)"
  by (rule init_gdt_flat) (simp add: gdt0_def)

end
