(* ===== verification/Heap_Client.thy ===== *)
theory Heap_Client
  imports Heap_Free
begin

text \<open>
  What the users of the heap rely on: memory that is handed out is fresh, stays theirs, keeps
  its bytes while others allocate, and may be written without harming the heap. The interface
  is the locale \<open>allocator\<close>; \<open>kmalloc\<close> is its provider.
\<close>

section \<open>The interface\<close>

locale allocator =
  fixes alloc :: "u32 \<Rightarrow> 's \<Rightarrow> (u32 \<times> 's) res option"
    and ok :: "'b \<Rightarrow> 's \<Rightarrow> bool"             \<comment> \<open>the invariant, over the abstract blocks\<close>
    and fits :: "'b \<Rightarrow> u32 \<Rightarrow> bool"           \<comment> \<open>requests the address range has room for\<close>
    and grow :: "'b \<Rightarrow> u32 \<Rightarrow> 'b"             \<comment> \<open>the blocks after an allocation\<close>
    and live :: "'b \<Rightarrow> u32 \<Rightarrow> bool"           \<comment> \<open>the bytes handed out\<close>
    and byte :: "'s \<Rightarrow> u32 \<Rightarrow> u8"
  assumes returns: "ok b s \<Longrightarrow> fits b n \<Longrightarrow> alloc n s \<noteq> None"
    and keeps: "ok b s \<Longrightarrow> fits b n \<Longrightarrow> alloc n s = Some (Inr (a, s')) \<Longrightarrow> ok (grow b n) s'"
    and fresh: "ok b s \<Longrightarrow> fits b n \<Longrightarrow> alloc n s = Some (Inr (a, s')) \<Longrightarrow>
      unat a \<le> unat x \<Longrightarrow> unat x < unat a + unat n \<Longrightarrow> \<not> live b x \<and> live (grow b n) x"
    and stable: "ok b s \<Longrightarrow> fits b n \<Longrightarrow> alloc n s = Some (Inr (a, s')) \<Longrightarrow> live b x \<Longrightarrow>
      live (grow b n) x \<and> byte s' x = byte s x"
begin

text \<open>Allocations one after the other, and what they leave behind.\<close>

fun allocs :: "u32 list \<Rightarrow> 's \<Rightarrow> (u32 list \<times> 's) res option" where
  "allocs [] s = Some (Inr ([], s))"
| "allocs (n # ns) s = bindO (alloc n s) (\<lambda>(a, s). bindO (allocs ns s) (\<lambda>(as, s). Some (Inr (a # as, s))))"

fun fit_all :: "'b \<Rightarrow> u32 list \<Rightarrow> bool" where
  "fit_all b [] = True"
| "fit_all b (n # ns) = (fits b n \<and> fit_all (grow b n) ns)"

lemma allocs_Cons:
  assumes "allocs (n # ns) s = Some (Inr (as, s''))"
  obtains a s' bs where "alloc n s = Some (Inr (a, s'))" "allocs ns s' = Some (Inr (bs, s''))" "as = a # bs"
  using assms by (auto simp: bindO_def split: option.splits sum.splits)

lemma allocs_stable:
  "ok b s \<Longrightarrow> fit_all b ns \<Longrightarrow> allocs ns s = Some (Inr (as, s')) \<Longrightarrow> live b x \<Longrightarrow>
    ok (foldl grow b ns) s' \<and> live (foldl grow b ns) x \<and> byte s' x = byte s x"
proof (induction ns arbitrary: b s as)
  case Nil
  then show ?case by simp
next
  case (Cons n ns)
  from Cons.prems(3) obtain a t bs where t: "alloc n s = Some (Inr (a, t))"
    "allocs ns t = Some (Inr (bs, s'))" by (rule allocs_Cons)
  have f: "fits b n" "fit_all (grow b n) ns" using Cons.prems(2) by simp_all
  have "live (grow b n) x" "byte t x = byte s x"
    using stable [OF Cons.prems(1) f(1) t(1) Cons.prems(4)] by simp_all
  then show ?case
    using Cons.IH [OF keeps [OF Cons.prems(1) f(1) t(1)] f(2) t(2)] by simp
qed

text \<open>No byte is handed out twice.\<close>

lemma allocs_apart_live:
  assumes "ok b s" and "fit_all b ns" and "allocs ns s = Some (Inr (as, s'))"
    and "live b x" and "j < length ns"
  shows "\<not> (unat (as ! j) \<le> unat x \<and> unat x < unat (as ! j) + unat (ns ! j))"
  using assms
proof (induction ns arbitrary: b s as j)
  case Nil
  then show ?case by simp
next
  case (Cons n ns)
  from Cons.prems(3) obtain a t bs where t: "alloc n s = Some (Inr (a, t))"
    "allocs ns t = Some (Inr (bs, s'))" "as = a # bs" by (rule allocs_Cons)
  have f: "fits b n" "fit_all (grow b n) ns" using Cons.prems(2) by simp_all
  show ?case
  proof (cases j)
    case 0
    then show ?thesis using fresh [OF Cons.prems(1) f(1) t(1), of x] Cons.prems(4) t(3) by auto
  next
    case (Suc k)
    have "live (grow b n) x" using stable [OF Cons.prems(1) f(1) t(1) Cons.prems(4)] by simp
    then show ?thesis
      using Cons.IH [OF keeps [OF Cons.prems(1) f(1) t(1)] f(2) t(2), of k] Cons.prems(5) t(3) Suc
      by simp
  qed
qed

lemma allocs_disjoint:
  fixes x :: u32
  assumes "ok b s" and "fit_all b ns" and "allocs ns s = Some (Inr (as, s'))"
    and "i < j" and "j < length ns"
    and "unat (as ! i) \<le> unat x \<and> unat x < unat (as ! i) + unat (ns ! i)"
  shows "\<not> (unat (as ! j) \<le> unat x \<and> unat x < unat (as ! j) + unat (ns ! j))"
  using assms
proof (induction ns arbitrary: b s as i j)
  case Nil
  then show ?case by simp
next
  case (Cons n ns)
  from Cons.prems(3) obtain a t bs where t: "alloc n s = Some (Inr (a, t))"
    "allocs ns t = Some (Inr (bs, s'))" "as = a # bs" by (rule allocs_Cons)
  have f: "fits b n" "fit_all (grow b n) ns" using Cons.prems(2) by simp_all
  note k = keeps [OF Cons.prems(1) f(1) t(1)]
  obtain j' where j: "j = Suc j'" "j' < length ns" using Cons.prems(4,5) by (cases j) auto
  show ?case
  proof (cases i)
    case 0
    then have "live (grow b n) x"
      using fresh [OF Cons.prems(1) f(1) t(1), of x] Cons.prems(6) t(3) by simp
    then have "\<not> (unat (bs ! j') \<le> unat x \<and> unat x < unat (bs ! j') + unat (ns ! j'))"
      by (rule allocs_apart_live [OF k f(2) t(2)]) (rule j(2))
    then show ?thesis using t(3) j(1) by simp
  next
    case (Suc i')
    then show ?thesis using Cons.IH [OF k f(2) t(2), of i' j'] Cons.prems(4,6) t(3) j by simp
  qed
qed

end

section \<open>The provider\<close>

lemma heap_alloc_live:
  assumes "in_use 0xE0000000 bs x"
  shows "in_use 0xE0000000 (snd (heap_alloc n bs)) x"
proof (cases "fit n bs")
  case (Some r)
  obtain xs l p ys where r: "fit n bs = Some (xs, l, p, ys)" using Some by (cases r) auto
  then have bs: "bs = xs @ (l, False, p) # ys" "n \<le> l" using fit_Some by auto
  have "past a (occupy n a l p) = a + of_nat l" for a
    using bs(2) by (auto simp: occupy_def past_def)
  then show ?thesis using assms r bs(1) by (auto simp: heap_alloc_def)
qed (use assms in \<open>simp add: heap_alloc_def\<close>)

interpretation kheap: allocator kmalloc heap_ok
  "\<lambda>bs n. unat n + 12 + total bs \<le> 0x1FFFF000"
  "\<lambda>bs n. snd (heap_alloc (unat n + 12) bs)" "in_use 0xE0000000" mem
proof
  fix bs :: "block list" and n a x :: u32 and st st' :: "'a heap_state_scheme"
  assume ok: "heap_ok bs st" and n: "unat n + 12 + total bs \<le> 0x1FFFF000"
  note r = kmalloc_refines [OF ok n]
  show "kmalloc n st \<noteq> None" using r by (auto split: option.splits)
  assume k: "kmalloc n st = Some (Inr (a, st'))"
  show "heap_ok (snd (heap_alloc (unat n + 12) bs)) st'" using r k by simp
  show "\<not> in_use 0xE0000000 bs x \<and> in_use 0xE0000000 (snd (heap_alloc (unat n + 12) bs)) x"
    if "unat a \<le> unat x" "unat x < unat a + unat n"
    using kmalloc_fresh [OF ok n k that] by simp
  show "in_use 0xE0000000 (snd (heap_alloc (unat n + 12) bs)) x \<and> mem st' x = mem st x"
    if "in_use 0xE0000000 bs x"
    using r k that heap_alloc_live by simp
qed

text \<open>Translations below the heap, and of the bytes that are in use, survive an allocation.\<close>

lemma in_use_mapped: "heap_ok bs st \<Longrightarrow> in_use 0xE0000000 bs x \<Longrightarrow> translate st x \<noteq> None"
  and in_use_above: "heap_ok bs st \<Longrightarrow> in_use 0xE0000000 bs x \<Longrightarrow> 0xE0000000 < unat x"
proof -
  assume ok: "heap_ok bs st" and x: "in_use 0xE0000000 bs x"
  have b: "0xE0000000 + 12 \<le> unat x" "unat x < 0xE0000000 + total bs"
    using in_use_bounds [of "0xE0000000" bs x] ok x by (simp_all add: heap_ok_def)
  then show "0xE0000000 < unat x" by simp
  have "pages_ok (page_count (total bs)) st" "total bs \<le> 4096 * page_count (total bs)"
    using ok page_count_le_iff [of "total bs" "page_count (total bs)"] by (simp_all add: heap_ok_def)
  then have "mapped st 0xE0000000 (total bs)" by (intro pages_mapped) simp_all
  then show "translate st x \<noteq> None" using b by (simp add: mapped_def)
qed

lemma frame_translate:
  assumes "heap_ok bs st" and "heap_frame st st'" and "unat x < 0xE0000000"
  shows "translate st' x = translate st x"
proof -
  have "cr3 st + 0xC0000000 = pgd_kern st"
    using assms(1) by (auto simp: heap_ok_def dest: pages_okD(2))
  then show ?thesis using assms(2,3) by (simp add: heap_frame_def translate_def)
qed

lemma alloc_keeps_mapped:
  assumes ok: "heap_ok bs st" and n: "unat n + 12 + total bs \<le> 0x1FFFF000"
    and k: "kmalloc n st = Some (Inr (a, st'))" and m: "mapped st t l"
    and x: "\<And>x. unat t \<le> unat x \<Longrightarrow> unat x < unat t + l \<Longrightarrow> unat x < 0xE0000000 \<or> in_use 0xE0000000 bs x"
  shows "mapped st' t l"
    and "unat t \<le> unat y \<Longrightarrow> unat y < unat t + l \<Longrightarrow> mem st' y = mem st y"
proof -
  have f: "heap_frame st st'" using kmalloc_refines [OF ok n] k by simp
  note keep = kheap.keeps [OF ok n k] and stable = kheap.stable [OF ok n k]
  show "mapped st' t l"
    unfolding mapped_def
  proof (intro conjI allI impI)
    show "unat t + l \<le> 4294967296" using m by (simp add: mapped_def)
    show "translate st' z \<noteq> None" if z: "unat t \<le> unat z \<and> unat z < unat t + l" for z
    proof (cases "unat z < 0xE0000000")
      case True
      have "translate st z \<noteq> None" using m z unfolding mapped_def by blast
      then show ?thesis by (simp only: frame_translate [OF ok f True] not_False_eq_True)
    next
      case False
      then have "in_use 0xE0000000 (snd (heap_alloc (unat n + 12) bs)) z"
        using x [of z] z stable [of z] by simp
      then show ?thesis by (rule in_use_mapped [OF keep])
    qed
  qed
  show "mem st' y = mem st y" if "unat t \<le> unat y" "unat y < unat t + l"
    using x [OF that] stable [of y] f by (auto simp: heap_frame_def)
qed

text \<open>The memory of an allocation does not wrap.\<close>

lemma kmalloc_range:
  assumes ok: "heap_ok bs st" and n: "unat n + 12 + total bs \<le> 0x1FFFF000"
    and k: "kmalloc n st = Some (Inr (a, st'))"
  shows "0xE000000C \<le> unat a" and "unat a + unat n \<le> 0xFFFFF000" and "mapped st' a (unat n)"
    and "heap_frame st st'"
proof -
  have b: "blocks_ok 0xE0000000 bs" using ok by (simp add: heap_ok_def)
  note c = heap_alloc_addr [OF b, of "unat n + 12"]
  have a: "a = fst (heap_alloc (unat n + 12) bs) + 12" and f: "heap_frame st st'"
    using kmalloc_refines [OF ok n] k by simp_all
  have u: "unat a = unat (fst (heap_alloc (unat n + 12) bs)) + 12"
    using c n unfolding a by (subst unat_plus_small) simp_all
  show r: "0xE000000C \<le> unat a" "unat a + unat n \<le> 0xFFFFF000" using u c n by simp_all
  have "translate st' x \<noteq> None" if "unat a \<le> unat x" "unat x < unat a + unat n" for x
    using kmalloc_fresh [OF ok n k that] by blast
  then show "mapped st' a (unat n)" using r by (auto simp: mapped_def)
  show "heap_frame st st'" by (rule f)
qed

section \<open>Writing to memory that is in use\<close>

lemma seg_payload:
  assumes "blocks_ok a bs"
    and "\<And>x. unat a \<le> unat x \<Longrightarrow> unat x < unat a + total bs \<Longrightarrow> \<not> in_use a bs x \<Longrightarrow> m x = m' x"
  shows "seg m a bs e = seg m' a bs e"
  using assms
proof (induction bs arbitrary: a rule: total.induct)
  case 1
  then show ?case by simp
next
  case (2 l u p bs)
  have l: "unat (a + of_nat l) = unat a + l" using 2(2) by (simp add: unat_plus_of_nat_small)
  have b: "blocks_ok (a + of_nat l) bs" using 2(2) by simp
  have "header m a = header m' a"
  proof (rule header_cong)
    fix i :: nat
    assume i: "i < 12"
    then have u: "unat (a + of_nat i) = unat a + i"
      using 2(2) by (intro unat_plus_of_nat_small) simp
    have "\<not> in_use (a + of_nat l) bs (a + of_nat i)"
      using in_use_bounds [OF b, of "a + of_nat i"] u l i 2(2) by auto
    then show "m (a + of_nat i) = m' (a + of_nat i)"
      using 2(2) i u by (intro 2(3)) simp_all
  qed
  moreover have "seg m (a + of_nat l) bs e = seg m' (a + of_nat l) bs e"
    using 2(2,3) l b by (intro 2(1)) simp_all
  ultimately show ?case by simp
qed

lemma heap_ok_payload:
  assumes "heap_ok bs st"
    and "\<And>x. 0xE0000000 \<le> unat x \<Longrightarrow> \<not> in_use 0xE0000000 bs x \<Longrightarrow> m x = mem st x"
  shows "heap_ok bs (st\<lparr>mem := m\<rparr>)"
proof -
  have "seg m 0xE0000000 bs 0 = seg (mem st) 0xE0000000 bs 0"
    using assms by (intro seg_payload) (simp_all add: heap_ok_def)
  then show ?thesis using assms(1) by (simp add: heap_ok_def)
qed

end
