(* ===== verification/Task.thy ===== *)
theory Task
  imports Heap_Client Mstring Printk
begin

text \<open>
  Threads: \<^verbatim>\<open>kernel/task/task.c\<close>, \<^verbatim>\<open>kernel/sched/sched.c\<close> and \<^verbatim>\<open>kernel/sched/switch_to.s\<close>. A
  \<^verbatim>\<open>struct task_struct\<close> lies in the memory itself: 44 bytes at the bottom of the 8192 bytes that
  are also the stack of the thread. The registers are a record of their own; the operations
  that change stacks, in C or in assembly, act on registers and memory.

  This theory holds the operations and what a switch does; the ring of tasks and the runs of
  the scheduler are in \<^verbatim>\<open>Sched\<close>.
\<close>

section \<open>State\<close>

definition TASK_RUNNABLE :: u32 where [simp]: "TASK_RUNNABLE = 2"

record task_state = heap_state +
  now_pid :: u32
  running_proc_head :: u32
  wait_proc_head :: u32
  current :: u32
  kern_stack_top :: u32

text \<open>The fields of a task by their offsets: \<open>state\<close> 0, \<open>pid\<close> 4, \<open>stack\<close> 8, \<open>mm\<close> 12, the six words
  of \<open>context\<close> from 16, \<open>next\<close> 40.\<close>

abbreviation (input) task_pid :: "u32 \<Rightarrow> u32" where "task_pid t \<equiv> t + 4"
abbreviation (input) task_stack :: "u32 \<Rightarrow> u32" where "task_stack t \<equiv> t + 8"
abbreviation (input) task_mm :: "u32 \<Rightarrow> u32" where "task_mm t \<equiv> t + 12"
abbreviation (input) task_context :: "u32 \<Rightarrow> u32" where "task_context t \<equiv> t + 16"
abbreviation (input) task_next :: "u32 \<Rightarrow> u32" where "task_next t \<equiv> t + 40"

definition task_size :: u32 where [simp]: "task_size = 44"

record thread_context =
  c_esp :: u32
  c_ebp :: u32
  c_ebx :: u32
  c_esi :: u32
  c_edi :: u32
  c_eflags :: u32

definition load_context :: "bytes \<Rightarrow> u32 \<Rightarrow> thread_context" where
  "load_context m p = \<lparr>c_esp = load32 m p, c_ebp = load32 m (p + 4), c_ebx = load32 m (p + 8),
     c_esi = load32 m (p + 12), c_edi = load32 m (p + 16), c_eflags = load32 m (p + 20)\<rparr>"

text \<open>A run of stores, in order.\<close>

fun write_words :: "(u32 \<times> u32) list \<Rightarrow> 'a vmm_state_scheme \<Rightarrow> 'a vmm_state_scheme res" where
  "write_words [] st = Inr st"
| "write_words ((a, w) # ws) st = bindE (write32 a w st) (write_words ws)"

section \<open>The first task\<close>

definition init_sched :: "'a task_state_scheme \<Rightarrow> 'a task_state_scheme res" where
  "init_sched st =
     (let c = kern_stack_top st - STACK_SIZE; st = st\<lparr>current := c\<rparr> in
      bindE (write_words [(c, TASK_RUNNABLE), (task_pid c, now_pid st)] st) (\<lambda>st.
      bindE (write_words [(task_stack c, c), (task_mm c, 0), (task_next c, c)]
          (st\<lparr>now_pid := now_pid st + 1\<rparr>)) (\<lambda>st.
        Inr (st\<lparr>running_proc_head := c\<rparr>))))"

section \<open>Creating threads\<close>

text \<open>The loop that looks for the last task of the ring. It ends when a \<open>next\<close> pointer is the head.\<close>

partial_function (option) last_task ::
  "u32 \<Rightarrow> u32 \<Rightarrow> 'a vmm_state_scheme \<Rightarrow> u32 res option" where
  "last_task head tail st =
     (case read32 (task_next tail) st of Inl e \<Rightarrow> Some (Inl e)
      | Inr n \<Rightarrow> if n = head then Some (Inr tail) else last_task head n st)"

text \<open>
  \<open>kernel_thread kthread_exit fn arg\<close>: the address of \<^verbatim>\<open>kthread_exit\<close> is chosen by the linker.
  The three words on top of the new stack are the argument of \<open>fn\<close>, its return address and
  \<open>fn\<close> itself, to which the first switch returns.
\<close>

definition thread_fields :: "u32 \<Rightarrow> u32 \<Rightarrow> u32 \<Rightarrow> u32 \<Rightarrow> 'a task_state_scheme \<Rightarrow> (u32 \<times> u32) list" where
  "thread_fields t kthread_exit fn arg st =
     [(task_mm t, 0),
      (t + STACK_SIZE - 4, arg), (t + STACK_SIZE - 8, kthread_exit), (t + STACK_SIZE - 12, fn),
      (task_context t, t + STACK_SIZE - 12), (task_context t + 20, 0x200),
      (task_next t, running_proc_head st)]"

definition kernel_thread ::
  "u32 \<Rightarrow> u32 \<Rightarrow> u32 \<Rightarrow> 'a task_state_scheme \<Rightarrow> (u32 \<times> 'a task_state_scheme) res option" where
  "kernel_thread kthread_exit fn arg st =
     bindO (kmalloc STACK_SIZE st) (\<lambda>(t, st).
     if t = 0 then Some (Inl (Panic ''kern_thread: kmalloc error''))
     else bindO (Some (bzero t task_size st)) (\<lambda>st.
     bindO (Some (write_words [(t, TASK_RUNNABLE), (task_stack t, current st),
         (task_pid t, now_pid st)] st)) (\<lambda>st.
     bindO (Some (write_words (thread_fields t kthread_exit fn arg st)
         (st\<lparr>now_pid := now_pid st + 1\<rparr>))) (\<lambda>st.
     if running_proc_head st = 0 then Some (Inl (Panic ''Must init sched!''))
     else bindO (last_task (running_proc_head st) (running_proc_head st) st) (\<lambda>tail.
     bindO (Some (write32 (task_next tail) t st)) (\<lambda>st.
     bindO (Some (read32 (task_pid t) st)) (\<lambda>pid.
       Some (Inr (pid, st)))))))))"

text \<open>What \<^verbatim>\<open>kthread_exit\<close> prints, with the value \<open>fn\<close> left in \<open>eax\<close>, before it loops for ever: the
  thread stays in the ring.\<close>

definition kthread_exit ::
  "u32 \<Rightarrow> 'a console_state_scheme \<Rightarrow> 'a console_state_scheme res" where
  "kthread_exit eax = printk (''Thread exited with value %d'' @ [CHR 0x0A]) [Num eax]"

section \<open>Switching\<close>

record cpu =
  eip :: u32
  esp :: u32
  ebp :: u32
  ebx :: u32
  esi :: u32
  edi :: u32
  eax :: u32
  ecx :: u32
  eflags :: u32

definition push ::
  "u32 \<Rightarrow> 'c cpu_scheme \<times> 'a vmm_state_scheme \<Rightarrow> ('c cpu_scheme \<times> 'a vmm_state_scheme) res" where
  "push w = (\<lambda>(c, st). bindE (write32 (esp c - 4) w st) (\<lambda>st. Inr (c\<lparr>esp := esp c - 4\<rparr>, st)))"

definition pop ::
  "'c cpu_scheme \<times> 'a vmm_state_scheme \<Rightarrow> (u32 \<times> 'c cpu_scheme \<times> 'a vmm_state_scheme) res" where
  "pop = (\<lambda>(c, st). bindE (read32 (esp c) st) (\<lambda>w. Inr (w, c\<lparr>esp := esp c + 4\<rparr>, st)))"

text \<open>
  \<^verbatim>\<open>pushf\<close> clears the flags \<open>RF\<close> and \<open>VM\<close> in the image it pushes; \<^verbatim>\<open>popf\<close> at privilege level 0
  sets the flags that exist and are not \<open>RF\<close>, \<open>VM\<close>, \<open>VIF\<close>, \<open>VIP\<close>; bit 1 always reads 1.
\<close>

definition pushf_image :: "u32 \<Rightarrow> u32" where "pushf_image f = f AND 0x00fcffff"

definition popf_flags :: "u32 \<Rightarrow> u32" where "popf_flags w = (w AND 0x247fd5) OR 2"

text \<open>Lines 6 to 14 of \<^verbatim>\<open>switch_to.s\<close> (save) and 15 to 24 (restore, ending in \<^verbatim>\<open>ret\<close>).\<close>

definition switch_save ::
  "cpu \<times> 'a vmm_state_scheme \<Rightarrow> (cpu \<times> 'a vmm_state_scheme) res" where
  "switch_save = (\<lambda>(c, st).
     bindE (read32 (esp c + 4) st) (\<lambda>a. let c = c\<lparr>eax := a\<rparr> in
     bindE (write_words [(eax c, esp c), (eax c + 4, ebp c), (eax c + 8, ebx c),
         (eax c + 12, esi c), (eax c + 16, edi c)] st) (\<lambda>st.
     bindE (push (pushf_image (eflags c)) (c, st)) (\<lambda>s.
     bindE (pop s) (\<lambda>(w, c, st). let c = c\<lparr>ecx := w\<rparr> in
     bindE (write32 (eax c + 20) (ecx c) st) (\<lambda>st. Inr (c, st)))))))"

definition switch_load ::
  "cpu \<times> 'a vmm_state_scheme \<Rightarrow> (cpu \<times> 'a vmm_state_scheme) res" where
  "switch_load = (\<lambda>(c, st).
     bindE (read32 (esp c + 8) st) (\<lambda>n. let c = c\<lparr>eax := n\<rparr> in
     bindE (read32 (eax c) st) (\<lambda>v. let c = c\<lparr>esp := v\<rparr> in
     bindE (read32 (eax c + 4) st) (\<lambda>v. let c = c\<lparr>ebp := v\<rparr> in
     bindE (read32 (eax c + 8) st) (\<lambda>v. let c = c\<lparr>ebx := v\<rparr> in
     bindE (read32 (eax c + 12) st) (\<lambda>v. let c = c\<lparr>esi := v\<rparr> in
     bindE (read32 (eax c + 16) st) (\<lambda>v. let c = c\<lparr>edi := v\<rparr> in
     bindE (read32 (eax c + 20) st) (\<lambda>v. let c = c\<lparr>eax := v\<rparr> in
     bindE (push (eax c) (c, st)) (\<lambda>s.
     bindE (pop s) (\<lambda>(w, c, st). let c = c\<lparr>eflags := popf_flags w\<rparr> in
     bindE (pop (c, st)) (\<lambda>(r, c, st). Inr (c\<lparr>eip := r\<rparr>, st))))))))))))"

definition switch_to ::
  "cpu \<times> 'a vmm_state_scheme \<Rightarrow> (cpu \<times> 'a vmm_state_scheme) res" where
  "switch_to s = bindE (switch_save s) switch_load"

text \<open>
  \<open>change_task_to ret next\<close>: the call pushes the two arguments, right to left, and the return
  address \<open>ret\<close>, the point in \<^verbatim>\<open>change_task_to\<close> behind the call. When the task does not change,
  nothing is switched.
\<close>

definition change_task_to ::
  "u32 \<Rightarrow> u32 \<Rightarrow> cpu \<times> 'a task_state_scheme \<Rightarrow> (cpu \<times> 'a task_state_scheme) res" where
  "change_task_to ret nxt = (\<lambda>(c, st).
     if current st \<noteq> nxt then
       let prev = current st; st = st\<lparr>current := nxt\<rparr> in
       bindE (push (task_context (current st)) (c, st)) (\<lambda>s.
       bindE (push (task_context prev) s) (\<lambda>s.
       bindE (push ret s) switch_to))
     else Inr (c, st))"

definition schedule ::
  "u32 \<Rightarrow> cpu \<times> 'a task_state_scheme \<Rightarrow> (cpu \<times> 'a task_state_scheme) res" where
  "schedule ret = (\<lambda>(c, st).
     if current st \<noteq> 0
     then bindE (read32 (task_next (current st)) st) (\<lambda>n. change_task_to ret n (c, st))
     else Inr (c, st))"

section \<open>Accesses to mapped words\<close>

lemma mapped_words: "mapped st a n \<Longrightarrow> i + 4 \<le> n \<Longrightarrow> mapped st (a + of_nat i) 4"
  by (rule mapped_sub) (auto simp: mapped_def unat_plus_of_nat_small)

lemma word_access:
  assumes "mapped st a 4"
  shows "read32 a st = Inr (load32 (mem st) a)"
    and "write32 a w st = Inr (st\<lparr>mem := store32 (mem st) a w\<rparr>)"
  using mapped_access [OF assms, of 0] by simp_all

lemma write_words_mapped:
  "(\<And>a w. (a, w) \<in> set ws \<Longrightarrow> mapped st a 4) \<Longrightarrow>
    write_words ws st = Inr (st\<lparr>mem := words.puts (mem st) ws\<rparr>)"
proof (induction ws arbitrary: st)
  case (Cons p ws)
  obtain a w where p: "p = (a, w)" by (cases p)
  have "mapped st a 4" using Cons.prems [of a w] p by simp
  note acc = word_access [OF this]
  have "mapped (st\<lparr>mem := store32 (mem st) a w\<rparr>) b 4" if "(b, v) \<in> set ws" for b v
    using Cons.prems [of b v] that by simp
  then show ?case using Cons.IH [of "st\<lparr>mem := store32 (mem st) a w\<rparr>"] p acc by simp
qed simp

lemma stack_access:
  "mapped st (esp c - 4) 4 \<Longrightarrow>
    push w (c, st) = Inr (c\<lparr>esp := esp c - 4\<rparr>, st\<lparr>mem := store32 (mem st) (esp c - 4) w\<rparr>)"
  "mapped st (esp c) 4 \<Longrightarrow> pop (c, st) = Inr (load32 (mem st) (esp c), c\<lparr>esp := esp c + 4\<rparr>, st)"
  by (simp_all add: push_def pop_def word_access)

lemma push_at:
  "esp c = a + 4 \<Longrightarrow> mapped st a 4 \<Longrightarrow>
    push w (c, st) = Inr (c\<lparr>esp := a\<rparr>, st\<lparr>mem := store32 (mem st) a w\<rparr>)"
  by (simp add: push_def word_access)

text \<open>Storing words changes only the bytes of these words.\<close>

lemma puts_byte:
  "(\<And>a w. (a, w) \<in> set ws \<Longrightarrow> apart a 4 x 1) \<Longrightarrow> words.puts m ws x = m x"
proof (induction ws arbitrary: m)
  case (Cons p ws)
  obtain a w where p: "p = (a, w)" by (cases p)
  have "words.puts (store32 m a w) ws x = store32 m a w x" using Cons.prems by (intro Cons.IH) auto
  moreover have "store32 m a w x = m x" using Cons.prems [of a w] p by (simp add: store32_byte_apart)
  ultimately show ?case by (simp add: p)
qed simp

section \<open>What a switch does\<close>

text \<open>
  The layout a switch needs, for the running thread with \<open>S + 16\<close> in \<open>esp\<close>, the contexts at \<open>P\<close>
  and \<open>N\<close> and the stack pointer \<open>T + 4\<close> saved in the latter: everything is mapped, and the 16
  bytes below \<open>esp\<close>, the contexts and the two words at \<open>T\<close> do not overlap.
\<close>

definition switch_room :: "'a vmm_state_scheme \<Rightarrow> u32 \<Rightarrow> u32 \<Rightarrow> u32 \<Rightarrow> u32 \<Rightarrow> bool" where
  "switch_room st S P N T \<longleftrightarrow>
     mapped st S 16 \<and> mapped st P 24 \<and> mapped st N 24 \<and> mapped st T 8 \<and>
     apart S 16 P 24 \<and> apart S 16 N 24 \<and> apart S 16 T 8 \<and>
     apart P 24 N 24 \<and> apart P 24 T 8 \<and> apart N 24 T 8"

text \<open>The stores of a switch, the call included.\<close>

definition switch_stores :: "cpu \<Rightarrow> u32 \<Rightarrow> u32 \<Rightarrow> u32 \<Rightarrow> u32 \<Rightarrow> u32 \<Rightarrow> u32 \<Rightarrow> (u32 \<times> u32) list" where
  "switch_stores c ret S P N T f =
     [(S + 12, N), (S + 8, P), (S + 4, ret),
      (P, S + 4), (P + 4, ebp c), (P + 8, ebx c), (P + 12, esi c), (P + 16, edi c),
      (S, pushf_image (eflags c)), (P + 20, pushf_image (eflags c)), (T, f)]"

definition resumed :: "bytes \<Rightarrow> u32 \<Rightarrow> u32 \<Rightarrow> thread_context \<Rightarrow> cpu" where
  "resumed m T flags n = \<lparr>eip = load32 m (T + 4), esp = T + 8, ebp = c_ebp n, ebx = c_ebx n,
     esi = c_esi n, edi = c_edi n, eax = c_eflags n, ecx = pushf_image flags,
     eflags = popf_flags (c_eflags n)\<rparr>"

lemma mapped_current [simp]: "mapped (st\<lparr>current := t\<rparr>) a n = mapped st a n"
  by (simp add: mapped_def translate_def walk_def)

lemma mapped_at:
  assumes "mapped st a n"
  shows "4 \<le> n \<Longrightarrow> mapped st a 4" "8 \<le> n \<Longrightarrow> mapped st (a + 4) 4" "12 \<le> n \<Longrightarrow> mapped st (a + 8) 4"
    "16 \<le> n \<Longrightarrow> mapped st (a + 12) 4" "20 \<le> n \<Longrightarrow> mapped st (a + 16) 4" "24 \<le> n \<Longrightarrow> mapped st (a + 20) 4"
  using mapped_words [OF assms, of 0] mapped_words [OF assms, of 4] mapped_words [OF assms, of 8]
    mapped_words [OF assms, of 12] mapped_words [OF assms, of 16] mapped_words [OF assms, of 20]
  by simp_all

lemma switch_save_ok:
  assumes e: "esp c = S + 4" and S: "mapped st S 16" and P: "mapped st P 24"
    and r: "load32 (mem st) (S + 8) = P"
  shows "switch_save (c, st) = Inr (c\<lparr>eax := P, ecx := pushf_image (eflags c)\<rparr>,
    st\<lparr>mem := words.puts (mem st) [(P, S + 4), (P + 4, ebp c), (P + 8, ebx c), (P + 12, esi c),
      (P + 16, edi c), (S, pushf_image (eflags c)), (P + 20, pushf_image (eflags c))]\<rparr>)"
proof -
  note [simp] = mapped_at [OF S] mapped_at [OF P]
  have "write_words [(P, S + 4), (P + 4, ebp c), (P + 8, ebx c), (P + 12, esi c), (P + 16, edi c)] st =
      Inr (st\<lparr>mem := words.puts (mem st) [(P, S + 4), (P + 4, ebp c), (P + 8, ebx c),
        (P + 12, esi c), (P + 16, edi c)]\<rparr>)"
    by (rule write_words_mapped) auto
  then show ?thesis
    using r e by (simp add: switch_save_def Let_def word_access stack_access add.assoc [of S])
qed

lemma switch_load_ok:
  assumes e: "esp c = S + 4" and S: "mapped st S 16" and N: "mapped st N 24" and T: "mapped st T 8"
    and r: "load32 (mem st) (S + 12) = N" "load32 (mem st) N = T + 4"
  shows "switch_load (c, st) = Inr (c\<lparr>eip := load32 (mem st) (T + 4), esp := T + 8,
      ebp := load32 (mem st) (N + 4), ebx := load32 (mem st) (N + 8), esi := load32 (mem st) (N + 12),
      edi := load32 (mem st) (N + 16), eax := load32 (mem st) (N + 20),
      eflags := popf_flags (load32 (mem st) (N + 20))\<rparr>,
    st\<lparr>mem := store32 (mem st) T (load32 (mem st) (N + 20))\<rparr>)"
proof -
  note [simp] = mapped_at [OF S] mapped_at [OF N] mapped_at [OF T]
  have "unat (T + 4) = unat T + 4" using T by (simp add: mapped_def unat_plus_small)
  then have "apart T 4 (T + 4) 4" using T by (simp add: apart_def mapped_def)
  moreover have "mapped st (12 + S) 4" "load32 (mem st) (12 + S) = N"
    using r(1) mapped_at(4) [OF S] by (simp_all add: add.commute)
  ultimately show ?thesis
    using r e by (simp add: switch_load_def Let_def word_access stack_access load32_store32_apart)
qed

text \<open>Words of regions, as unsigned offsets.\<close>

lemma unat_words:
  assumes "mapped st a n"
  shows "8 \<le> n \<Longrightarrow> unat (a + 4) = unat a + 4" "12 \<le> n \<Longrightarrow> unat (a + 8) = unat a + 8"
    "16 \<le> n \<Longrightarrow> unat (a + 12) = unat a + 12" "20 \<le> n \<Longrightarrow> unat (a + 16) = unat a + 16"
    "24 \<le> n \<Longrightarrow> unat (a + 20) = unat a + 20"
  using assms by (simp_all add: mapped_def unat_plus_small)

lemma mapped_bound: "mapped st a n \<Longrightarrow> unat a + n \<le> 4294967296"
  by (simp add: mapped_def)

definition save_stores :: "cpu \<Rightarrow> u32 \<Rightarrow> u32 \<Rightarrow> u32 \<Rightarrow> u32 \<Rightarrow> (u32 \<times> u32) list" where
  "save_stores c ret S P N =
     [(S + 12, N), (S + 8, P), (S + 4, ret),
      (P, S + 4), (P + 4, ebp c), (P + 8, ebx c), (P + 12, esi c), (P + 16, edi c),
      (S, pushf_image (eflags c)), (P + 20, pushf_image (eflags c))]"

lemma switch_stores_save: "switch_stores c ret S P N T f = save_stores c ret S P N @ [(T, f)]"
  by (simp add: switch_stores_def save_stores_def)

lemma puts_append: "words.puts m (xs @ ys) = words.puts (words.puts m xs) ys"
  by (induction m xs rule: words.puts.induct) simp_all

lemma save_stores_apart:
  assumes "mapped st S 16" and "mapped st P 24"
    and "apart S 16 b k" and "apart P 24 b k" and "(a, w) \<in> set (save_stores c ret S P N)"
  shows "apart a 4 b k"
  using assms(3-5) mapped_bound [OF assms(1)] mapped_bound [OF assms(2)]
  unfolding save_stores_def
  by (auto simp: apart_def unat_words [OF assms(1)] unat_words [OF assms(2)])

lemma apart_part:
  assumes "apart a n b k" and "unat b + k \<le> 4294967296" and "i + j \<le> k" and "0 < j"
  shows "apart a n (b + of_nat i) j"
  using assms by (auto simp: apart_def unat_plus_of_nat_small)

lemma save_stores_context:
  assumes S: "mapped st S 16" and P: "mapped st P 24" and a: "apart S 16 P 24"
  shows "load_context (words.puts m (save_stores c ret S P N)) P =
      \<lparr>c_esp = S + 4, c_ebp = ebp c, c_ebx = ebx c, c_esi = esi c, c_edi = edi c,
       c_eflags = pushf_image (eflags c)\<rparr>"
    and "load32 (words.puts m (save_stores c ret S P N)) (S + 4) = ret"
    and "load32 (words.puts m (save_stores c ret S P N)) (S + 8) = P"
    and "load32 (words.puts m (save_stores c ret S P N)) (S + 12) = N"
proof -
  note u = unat_words [OF S] unat_words [OF P]
  note b = mapped_bound [OF S] mapped_bound [OF P]
  have sep: "apart (S + 4) 4 S 4" "apart (S + 8) 4 S 4" "apart (S + 12) 4 S 4"
    "apart (S + 4) 4 (S + 8) 4" "apart (S + 4) 4 (S + 12) 4" "apart (S + 8) 4 (S + 12) 4"
    "apart (P + 4) 4 P 4" "apart (P + 8) 4 P 4" "apart (P + 12) 4 P 4" "apart (P + 16) 4 P 4" "apart (P + 20) 4 P 4"
    "apart (P + 8) 4 (P + 4) 4" "apart (P + 12) 4 (P + 4) 4" "apart (P + 16) 4 (P + 4) 4" "apart (P + 20) 4 (P + 4) 4"
    "apart (P + 12) 4 (P + 8) 4" "apart (P + 16) 4 (P + 8) 4" "apart (P + 20) 4 (P + 8) 4"
    "apart (P + 16) 4 (P + 12) 4" "apart (P + 20) 4 (P + 12) 4" "apart (P + 20) 4 (P + 16) 4"
    using b by (simp_all add: apart_def u)
  have cross: "apart S 4 q 4 \<and> apart q 4 (S + 4) 4 \<and> apart q 4 (S + 8) 4 \<and> apart q 4 (S + 12) 4 \<and> apart q 4 S 4"
    if "q \<in> {P, P + 4, P + 8, P + 12, P + 16, P + 20}" for q
    using that a b by (auto simp: apart_def u)
  show "load_context (words.puts m (save_stores c ret S P N)) P =
      \<lparr>c_esp = S + 4, c_ebp = ebp c, c_ebx = ebx c, c_esi = esi c, c_edi = edi c,
       c_eflags = pushf_image (eflags c)\<rparr>"
    using sep cross by (simp add: load_context_def save_stores_def load32_store32_apart)
  show "load32 (words.puts m (save_stores c ret S P N)) (S + 4) = ret"
    "load32 (words.puts m (save_stores c ret S P N)) (S + 8) = P"
    "load32 (words.puts m (save_stores c ret S P N)) (S + 12) = N"
    using sep cross apart_sym [of S 4] by (simp_all add: save_stores_def load32_store32_apart)
qed

lemma load_context_cong:
  assumes "unat p + 24 \<le> 4294967296"
    and "\<And>x. unat p \<le> unat x \<Longrightarrow> unat x < unat p + 24 \<Longrightarrow> m x = m' x"
  shows "load_context m p = load_context m' p"
proof -
  have "load32 m (p + of_nat j) = load32 m' (p + of_nat j)" if "j + 4 \<le> 24" for j
  proof (rule load32_cong)
    fix i :: nat
    assume "i < 4"
    then have "unat (p + of_nat (j + i)) = unat p + (j + i)"
      using that assms(1) by (intro unat_plus_of_nat_small) simp
    then show "m (p + of_nat j + of_nat i) = m' (p + of_nat j + of_nat i)"
      using that \<open>i < 4\<close> assms(2) [of "p + of_nat (j + i)"] by (simp add: add.assoc)
  qed
  from this [of 0] this [of 4] this [of 8] this [of 12] this [of 16] this [of 20]
  show ?thesis by (simp add: load_context_def)
qed

lemma range_apart:
  "unat a + n \<le> 4294967296 \<Longrightarrow> 0 < n \<Longrightarrow> \<not> (unat a \<le> unat x \<and> unat x < unat a + n) \<Longrightarrow> apart a n x 1"
  using unat_less_u32 [of x] by (auto simp: apart_def)

lemma change_task_switch:
  fixes st :: "'a task_state_scheme"
  assumes room: "switch_room st S P N T" and P: "P = task_context (current st)"
    and N: "N = task_context nxt" and ne: "current st \<noteq> nxt" and e: "esp c = S + 16"
    and T: "c_esp (load_context (mem st) N) = T + 4"
  shows "change_task_to ret nxt (c, st) =
    Inr (resumed (mem st) T (eflags c) (load_context (mem st) N),
      st\<lparr>current := nxt, mem := words.puts (mem st)
        (switch_stores c ret S P N T (c_eflags (load_context (mem st) N)))\<rparr>)"
proof -
  have m: "mapped st S 16" "mapped st P 24" "mapped st N 24" "mapped st T 8"
    and a: "apart S 16 P 24" "apart S 16 N 24" "apart S 16 T 8" "apart P 24 N 24" "apart P 24 T 8"
    using room by (simp_all add: switch_room_def)
  let ?W = "save_stores c ret S P N" and ?n = "load_context (mem st) N"
  let ?m = "words.puts (mem st) ?W"
  let ?st = "st\<lparr>current := nxt\<rparr>"
  note mS = mapped_at [OF m(1)]
  have p: "bindE (push N (c, ?st)) (\<lambda>s. bindE (push P s) (\<lambda>s. bindE (push ret s) switch_to)) =
      switch_to (c\<lparr>esp := S + 4\<rparr>, ?st\<lparr>mem := words.puts (mem st) (take 3 ?W)\<rparr>)"
    using push_at [of c "S + 12" ?st N] push_at [of "c\<lparr>esp := S + 12\<rparr>" "S + 8" "?st\<lparr>mem := store32 (mem st) (S + 12) N\<rparr>" P]
      push_at [of "c\<lparr>esp := S + 8\<rparr>" "S + 4"
        "?st\<lparr>mem := store32 (store32 (mem st) (S + 12) N) (S + 8) P\<rparr>" ret] mS e
    by (simp add: save_stores_def)
  have "load32 (words.puts (mem st) (take 3 ?W)) (S + 8) = P"
    using m(1) by (simp add: save_stores_def load32_store32_apart apart_def mapped_def unat_words [OF m(1)])
  then have s: "switch_save (c\<lparr>esp := S + 4\<rparr>, ?st\<lparr>mem := words.puts (mem st) (take 3 ?W)\<rparr>) =
      Inr (c\<lparr>esp := S + 4, eax := P, ecx := pushf_image (eflags c)\<rparr>, ?st\<lparr>mem := ?m\<rparr>)"
    using switch_save_ok [where c = "c\<lparr>esp := S + 4\<rparr>" and S = S and P = P and
        st = "?st\<lparr>mem := words.puts (mem st) (take 3 ?W)\<rparr>"] m(1,2)
    by (simp add: save_stores_def)
  have out: "?m x = mem st x" if "apart S 16 x 1" "apart P 24 x 1" for x :: u32
    using save_stores_apart [OF m(1,2) that] by (intro puts_byte) blast
  have N': "load_context ?m N = ?n"
  proof (rule load_context_cong [OF mapped_bound [OF m(3)] out])
    fix x :: u32
    assume "unat N \<le> unat x" "unat x < unat N + 24"
    then show "apart S 16 x 1" "apart P 24 x 1" using a(2,4) by (auto simp: apart_def)
  qed
  have T': "load32 ?m (T + 4) = load32 (mem st) (T + 4)"
  proof (rule words.get_puts_sep)
    have "apart S 16 (T + 4) 4" "apart P 24 (T + 4) 4"
      using apart_part [OF a(3), of 4 4] apart_part [OF a(5), of 4 4] mapped_bound [OF m(4)] by simp_all
    then show "apart b 4 (T + 4) 4" if "(b, v) \<in> set ?W" for b v
      using save_stores_apart [OF m(1,2)] that by blast
  qed
  have n: "load32 ?m N = c_esp ?n" "load32 ?m (N + 4) = c_ebp ?n" "load32 ?m (N + 8) = c_ebx ?n"
    "load32 ?m (N + 12) = c_esi ?n" "load32 ?m (N + 16) = c_edi ?n" "load32 ?m (N + 20) = c_eflags ?n"
    using N' by (simp_all add: load_context_def)
  have l: "switch_load (c\<lparr>esp := S + 4, eax := P, ecx := pushf_image (eflags c)\<rparr>, ?st\<lparr>mem := ?m\<rparr>) =
      Inr (resumed (mem st) T (eflags c) ?n, ?st\<lparr>mem := store32 ?m T (c_eflags ?n)\<rparr>)"
    using save_stores_context(4) [OF m(1,2) a(1)] T
    by (subst switch_load_ok [where S = S and N = N and T = T]) (simp_all add: m n T' resumed_def)
  show ?thesis
    using ne p s l unfolding change_task_to_def switch_to_def switch_stores_save puts_append
    by (simp add: Let_def P N)
qed

text \<open>The flags \<^verbatim>\<open>popf\<close> sets are among those \<^verbatim>\<open>pushf\<close> saves.\<close>

lemma popf_pushf: "popf_flags (pushf_image f) = popf_flags f"
proof -
  have "(f AND 0x00fcffff) AND 0x247fd5 = f AND (0x00fcffff AND 0x247fd5)" by (rule and.assoc)
  then show ?thesis by (simp add: popf_flags_def pushf_image_def)
qed

lemma switch_saves:
  fixes st :: "'a task_state_scheme" and c :: cpu and ret f x :: u32
  assumes room: "switch_room st S P N T"
  defines "m \<equiv> words.puts (mem st) (switch_stores c ret S P N T f)"
  shows "load_context m P = \<lparr>c_esp = S + 4, c_ebp = ebp c, c_ebx = ebx c, c_esi = esi c,
      c_edi = edi c, c_eflags = pushf_image (eflags c)\<rparr>"
    and "load32 m (S + 4) = ret"
    and "apart S 16 x 1 \<Longrightarrow> apart P 24 x 1 \<Longrightarrow> apart T 4 x 1 \<Longrightarrow> m x = mem st x"
proof -
  have mp: "mapped st S 16" "mapped st P 24" "mapped st T 8"
    and a: "apart S 16 P 24" "apart S 16 T 8" "apart P 24 T 8"
    using room by (simp_all add: switch_room_def)
  let ?m = "words.puts (mem st) (save_stores c ret S P N)"
  have m: "m = store32 ?m T f" by (simp add: m_def switch_stores_save puts_append)
  note c = save_stores_context [OF mp(1,2) a(1), of "mem st" c ret N]
  have "load_context m P = load_context ?m P"
  proof (rule load_context_cong [OF mapped_bound [OF mp(2)]])
    fix x :: u32
    assume "unat P \<le> unat x" "unat x < unat P + 24"
    then show "m x = ?m x" using a(3) unfolding m by (intro store32_byte_apart) (auto simp: apart_def)
  qed
  then show "load_context m P = \<lparr>c_esp = S + 4, c_ebp = ebp c, c_ebx = ebx c, c_esi = esi c,
      c_edi = edi c, c_eflags = pushf_image (eflags c)\<rparr>" using c(1) by simp
  have "apart T 4 (S + 4) 4"
    using a(2) mapped_bound [OF mp(1)] mapped_bound [OF mp(3)] by (auto simp: apart_def unat_words [OF mp(1)])
  then show "load32 m (S + 4) = ret" using c(2) unfolding m by (simp add: load32_store32_apart)
  show "m x = mem st x" if "apart S 16 x 1" "apart P 24 x 1" "apart T 4 x 1"
    using that(3) save_stores_apart [OF mp(1,2) that(1,2)] puts_byte [of "save_stores c ret S P N" x "mem st"]
    unfolding m by (simp add: store32_byte_apart)
qed

section \<open>Properties\<close>

text \<open>A switch away and back is invisible to the thread: if it is switched out with \<open>ret\<close> as
  the point to continue at, and later switched in again by another thread while its context and
  the word on top of its stack are as they were left, it continues at \<open>ret\<close> with the stack as it
  was after the two arguments had been pushed, and with \<open>ebp\<close>, \<open>ebx\<close>, \<open>esi\<close>, \<open>edi\<close> and the flags
  it had.\<close>

theorem switch_roundtrip:
  assumes "switch_room st S (task_context (current st)) (task_context nxt) T"
    and "current st \<noteq> nxt" and "esp c = S + 16" and "popf_flags (eflags c) = eflags c"
    and "c_esp (load_context (mem st) (task_context nxt)) = T + 4"
    and "change_task_to ret nxt (c, st) = Inr (c1, st1)"
    and "load_context (mem st2) (task_context (current st)) = load_context (mem st1) (task_context (current st))"
    and "load32 (mem st2) (S + 4) = load32 (mem st1) (S + 4)"
    and "switch_room st2 S2 (task_context (current st2)) (task_context (current st)) S"
    and "current st2 \<noteq> current st" and "esp c2 = S2 + 16"
  shows "\<exists>c3 st3. change_task_to ret2 (current st) (c2, st2) = Inr (c3, st3) \<and>
    eip c3 = ret \<and> esp c3 = esp c - 8 \<and> ebp c3 = ebp c \<and> ebx c3 = ebx c \<and> esi c3 = esi c \<and>
    edi c3 = edi c \<and> eflags c3 = eflags c \<and> current st3 = current st"
proof -
  let ?P = "task_context (current st)"
  note out = change_task_switch [OF assms(1) refl refl assms(2,3,5), of ret]
  have st1: "mem st1 = words.puts (mem st) (switch_stores c ret S ?P (task_context nxt) T
      (c_eflags (load_context (mem st) (task_context nxt))))"
    using out assms(6) by auto
  note s = switch_saves(1,2) [OF assms(1), of c ret, folded st1]
  have "c_esp (load_context (mem st2) ?P) = S + 4" using assms(7) s(1) st1 by simp
  note again = change_task_switch [OF assms(9) refl refl assms(10,11) this, of ret2]
  show ?thesis
    using again assms(3,4,7,8) s st1 by (simp add: resumed_def popf_pushf)
qed

text \<open>Two tasks in a small address space, the second with a saved stack pointer.\<close>

definition two_tasks :: task_state where
  "two_tasks = \<lparr>pmm_stack = (\<lambda>_. 0), pmm_stack_top = 0, phy_page_count = 0,
     pgd_kern = 0xC0110000, pte_kern = 0xC0120000, pgd = pgd (flat_space (\<lambda>_. 0)),
     ptab = ptab (flat_space (\<lambda>_. 0)), cr3 = 0x110000,
     mem = store32 (\<lambda>_. 0) 0xC0004010 0xC0005F04, frame = (\<lambda>_. 0),
     heap_max = HEAP_START, heap_first = 0, now_pid = 2, running_proc_head = 0xC0001000,
     wait_proc_head = 0, current = 0xC0001000, kern_stack_top = 0xC0003000\<rparr>"

definition cpu0 :: cpu where
  "cpu0 = \<lparr>eip = 0, esp = 0xC0002F00, ebp = 1, ebx = 2, esi = 3, edi = 4, eax = 0, ecx = 0,
     eflags = 0x246\<rparr>"

lemma two_tasks_mapped:
  assumes "pgd st = pgd two_tasks" and "ptab st = ptab two_tasks" and "cr3 st = cr3 two_tasks"
    and "0xC0000000 \<le> unat a" and "unat a + n \<le> 0xC0400000"
  shows "mapped st a n"
proof -
  have "translate st x = translate (flat_space (\<lambda>_. 0)) x" for x
    using assms(1-3) by (simp add: translate_def walk_def two_tasks_def) (simp add: flat_space_def)
  then show ?thesis using flat_space_mapped [OF assms(4,5), of "\<lambda>_. 0"] by (simp add: mapped_def)
qed

lemma two_tasks_room:
  "switch_room two_tasks 0xC0002EF0 0xC0001010 0xC0004010 0xC0005F00"
  unfolding switch_room_def by (simp add: two_tasks_mapped apart_def)

theorem switch_roundtrip_witness:
  "\<exists>c1 st1. change_task_to 0xC0101234 0xC0004000 (cpu0, two_tasks) = Inr (c1, st1) \<and>
    (\<exists>c3 st3. change_task_to 0xC0101234 0xC0001000 (cpu0\<lparr>esp := 0xC0005F00\<rparr>, st1) = Inr (c3, st3) \<and>
      eip c3 = 0xC0101234 \<and> esp c3 = esp cpu0 - 8 \<and> ebp c3 = ebp cpu0 \<and> ebx c3 = ebx cpu0 \<and>
      esi c3 = esi cpu0 \<and> edi c3 = edi cpu0 \<and> eflags c3 = eflags cpu0 \<and> current st3 = 0xC0001000)"
proof -
  have cur: "current two_tasks = 0xC0001000" by (simp add: two_tasks_def)
  have room: "switch_room two_tasks 0xC0002EF0 (task_context (current two_tasks)) (task_context 0xC0004000) 0xC0005F00"
    using two_tasks_room by (simp add: cur)
  have T: "c_esp (load_context (mem two_tasks) (task_context 0xC0004000)) = 0xC0005F00 + 4"
    by (simp add: load_context_def two_tasks_def)
  have e: "esp cpu0 = 0xC0002EF0 + 16" by (simp add: cpu0_def)
  have fl: "popf_flags (eflags cpu0) = eflags cpu0" by (simp add: cpu0_def popf_flags_def)
  have ne: "current two_tasks \<noteq> 0xC0004000" by (simp add: cur)
  from change_task_switch [OF room refl refl ne e T, of "0xC0101234"] obtain c1 st1 where
    go: "change_task_to 0xC0101234 0xC0004000 (cpu0, two_tasks) = Inr (c1, st1)"
    and st1: "pgd st1 = pgd two_tasks" "ptab st1 = ptab two_tasks" "cr3 st1 = cr3 two_tasks"
      "current st1 = 0xC0004000" by auto
  have room2: "switch_room st1 0xC0005EF0 (task_context (current st1)) (task_context (current two_tasks)) 0xC0002EF0"
    unfolding switch_room_def st1(4) cur by (simp add: two_tasks_mapped [OF st1(1-3)] apart_def)
  have "current st1 \<noteq> current two_tasks" "esp (cpu0\<lparr>esp := 0xC0005F00\<rparr>) = 0xC0005EF0 + 16"
    by (simp_all add: st1(4) cur)
  from switch_roundtrip [OF room ne e fl T go refl refl room2 this, of "0xC0101234"] go
  show ?thesis unfolding cur by blast
qed

end
