(* ===== verification/Sched.thy ===== *)
theory Sched
  imports Task
begin

text \<open>
  The ring of tasks: the abstraction of the \<open>next\<close> pointers as a list, the invariant that
  \<open>init_sched\<close> sets up and every allocation, thread creation and switch keeps, and the order in
  which the timer runs the threads.
\<close>

section \<open>The heap does not depend on the scheduler's variables\<close>

lemma translate_task [simp]:
  fixes st :: "'a task_state_scheme"
  shows "translate (st\<lparr>now_pid := p\<rparr>) a = translate st a"
    "translate (st\<lparr>running_proc_head := p\<rparr>) a = translate st a"
    "translate (st\<lparr>current := p\<rparr>) a = translate st a"
  by (simp_all add: translate_def walk_def)

lemma mapped_task [simp]:
  fixes st :: "'a task_state_scheme"
  shows "mapped (st\<lparr>now_pid := p\<rparr>) a n = mapped st a n"
    "mapped (st\<lparr>running_proc_head := p\<rparr>) a n = mapped st a n"
  by (simp_all add: mapped_def)

lemma heap_ok_cong:
  assumes "pmm_stack s = pmm_stack t" "pmm_stack_top s = pmm_stack_top t" "pgd_kern s = pgd_kern t"
    "pgd s = pgd t" "ptab s = ptab t" "cr3 s = cr3 t" "mem s = mem t"
    "heap_max s = heap_max t" "heap_first s = heap_first t"
  shows "heap_ok bs s = heap_ok bs t"
proof -
  have "free_pages s = free_pages t" using assms by (intro free_pages_cong)
  moreover have "walk s d x = walk t d x"for d x
    using assms by (simp add: walk_def)
  ultimately show ?thesis
    using assms by (simp add: heap_ok_def pages_ok_def vm_ok_def pmm_ok_def heap_frames_def)
qed

lemma heap_ok_task [simp]:
  fixes st :: "'a task_state_scheme"
  shows "heap_ok bs (st\<lparr>now_pid := p\<rparr>) = heap_ok bs st"
    "heap_ok bs (st\<lparr>running_proc_head := p\<rparr>) = heap_ok bs st"
    "heap_ok bs (st\<lparr>current := p\<rparr>) = heap_ok bs st"
  by (rule heap_ok_cong; simp)+

section \<open>The ring\<close>

text \<open>The \<open>next\<close> pointers of the tasks \<open>ts\<close>, read in order, are \<open>ts\<close> turned by one.\<close>

definition next_of :: "bytes \<Rightarrow> u32 \<Rightarrow> u32" where
  "next_of m t = load32 m (t + 40)"

definition ring :: "bytes \<Rightarrow> u32 list \<Rightarrow> bool" where
  "ring m ts \<longleftrightarrow> map (next_of m) ts = rotate1 ts"

text \<open>The 8192 bytes of a task hold its structure and its stack.\<close>

definition in_area :: "u32 \<Rightarrow> u32 \<Rightarrow> bool" where
  "in_area t x \<longleftrightarrow> unat t \<le> unat x \<and> unat x < unat t + 8192"

definition areas_apart :: "u32 list \<Rightarrow> bool" where
  "areas_apart ts \<longleftrightarrow> sorted_wrt (\<lambda>a b. apart a 8192 b 8192) ts"

text \<open>
  The invariant: the heap is well formed; the first task is the one on the kernel stack, the
  others lie in memory the heap has handed out; the areas of the tasks are mapped and disjoint;
  the \<open>next\<close> pointers form the ring \<open>ts\<close> from \<open>running_proc_head\<close> on, and \<open>current\<close> is in it.
\<close>

definition tasks_ok :: "block list \<Rightarrow> u32 list \<Rightarrow> 'a task_state_scheme \<Rightarrow> bool" where
  "tasks_ok bs ts st \<longleftrightarrow> heap_ok bs st \<and> ts \<noteq> [] \<and> running_proc_head st = hd ts \<and>
     kern_stack_top st - STACK_SIZE = hd ts \<and> unat (hd ts) + 8192 \<le> 0xE0000000 \<and>
     current st \<in> set ts \<and> 0 \<notin> set ts \<and> areas_apart ts \<and> ring (mem st) ts \<and>
     (\<forall>t \<in> set ts. mapped st t 8192) \<and>
     (\<forall>t \<in> set (tl ts). \<forall>x. in_area t x \<longrightarrow> in_use 0xE0000000 bs x)"

lemma tasks_okD:
  assumes "tasks_ok bs ts st"
  shows "heap_ok bs st" "ts \<noteq> []" "running_proc_head st = hd ts" "current st \<in> set ts" "0 \<notin> set ts"
    "areas_apart ts" "ring (mem st) ts" "t \<in> set ts \<Longrightarrow> mapped st t 8192"
  using assms by (simp_all add: tasks_ok_def)

text \<open>Where the bytes of tasks are.\<close>

lemma task_byte:
  assumes "tasks_ok bs ts st" and "t \<in> set ts" and "in_area t x"
  shows "unat x < 0xE0000000 \<or> in_use 0xE0000000 bs x"
proof (cases "t = hd ts")
  case True
  moreover have "unat (hd ts) + 8192 \<le> 0xE0000000" using assms(1) unfolding tasks_ok_def by blast
  ultimately show ?thesis using assms(3) by (auto simp: in_area_def)
next
  case False
  then have "t \<in> set (tl ts)" using assms(2) by (cases ts) auto
  then show ?thesis using assms by (auto simp: tasks_ok_def)
qed

lemma areas_apartD:
  assumes "areas_apart ts" and "s \<in> set ts" and "t \<in> set ts" and "s \<noteq> t"
  shows "apart s 8192 t 8192"
proof -
  obtain i j where ij: "i < length ts" "ts ! i = s" "j < length ts" "ts ! j = t"
    using assms(2,3) by (auto simp: in_set_conv_nth)
  then have "i < j \<or> j < i" using assms(4) by (metis linorder_neqE_nat)
  then show ?thesis
    using ij assms(1) sorted_wrt_nth_less [of "\<lambda>a b. apart a 8192 b 8192" ts]
      apart_sym [of s 8192 t 8192] by (auto simp: areas_apart_def)
qed

lemma areas_distinct: "areas_apart ts \<Longrightarrow> distinct ts"
  unfolding areas_apart_def by (induction ts) (auto simp: apart_def)

lemma area_sub:
  assumes "apart s 8192 t 8192" and "i + n \<le> 8192" and "j + k \<le> 8192" and "0 < n" and "0 < k"
  shows "apart (s + of_nat i) n (t + of_nat j) k"
  using apart_offset [OF assms] .

lemma next_of_cong:
  assumes "unat t + 8192 \<le> 4294967296"
    and "\<And>x. unat t + 40 \<le> unat x \<Longrightarrow> unat x < unat t + 44 \<Longrightarrow> m x = m' x"
  shows "next_of m t = next_of m' t"
  unfolding next_of_def
proof (rule load32_cong)
  fix i :: nat
  assume "i < 4"
  then have "unat (t + of_nat (40 + i)) = unat t + (40 + i)"
    using assms(1) by (intro unat_plus_of_nat_small) simp
  then show "m (t + 40 + of_nat i) = m' (t + 40 + of_nat i)"
    using assms(2) [of "t + of_nat (40 + i)"] \<open>i < 4\<close> by (simp add: add.assoc)
qed

lemma ring_nth:
  assumes "ring m ts" and "i < length ts"
  shows "next_of m (ts ! i) = ts ! (Suc i mod length ts)"
proof -
  have "next_of m (ts ! i) = map (next_of m) ts ! i" using assms(2) by simp
  also have "\<dots> = rotate1 ts ! i" using assms(1) by (simp add: ring_def)
  finally show ?thesis using assms(2) by (simp add: nth_rotate1)
qed

lemma ring_in: "ring m ts \<Longrightarrow> t \<in> set ts \<Longrightarrow> next_of m t \<in> set ts"
  unfolding ring_def by (metis image_eqI list.set_map set_rotate1)

section \<open>Finding the last task\<close>

lemma last_task_path:
  assumes "\<And>t. t \<in> set ts \<Longrightarrow> mapped st t 8192" and "ts \<noteq> []"
    and "map (next_of (mem st)) ts = tl ts @ [h]" and "h \<notin> set (tl ts)"
  shows "last_task h (hd ts) st = Some (Inr (last ts))"
  using assms
proof (induction ts)
  case Nil
  then show ?case by simp
next
  case (Cons t ts)
  have "mapped st (t + 40) 4"
    using mapped_words [OF Cons.prems(1), of t 40] by simp
  note r = word_access(1) [OF this]
  show ?case
  proof (cases ts)
    case Nil
    then show ?thesis using Cons.prems(3) r by (subst last_task.simps) (simp add: next_of_def)
  next
    case (Cons u us)
    have IH: "last_task h (hd ts) st = Some (Inr (last ts))"
      using Cons.prems \<open>ts = u # us\<close> by (intro Cons.IH) auto
    have "load32 (mem st) (t + 40) = u" "u \<noteq> h"
      using Cons.prems(3,4) \<open>ts = u # us\<close> by (auto simp: next_of_def)
    then show ?thesis using IH r \<open>ts = u # us\<close> by (subst last_task.simps) simp
  qed
qed

lemma last_task_ring:
  assumes "ring (mem st) ts" and "distinct ts" and "ts \<noteq> []" and "\<And>t. t \<in> set ts \<Longrightarrow> mapped st t 8192"
  shows "last_task (hd ts) (hd ts) st = Some (Inr (last ts))"
  using assms by (intro last_task_path) (cases ts; auto simp: ring_def)+

section \<open>The first task\<close>

lemma init_sched_ok:
  fixes st :: "'a task_state_scheme"
  assumes h: "heap_ok bs st" and k: "8192 < unat (kern_stack_top st)" "unat (kern_stack_top st) \<le> 0xE0000000"
    and m: "mapped st (kern_stack_top st - 8192) 8192"
  shows "\<exists>st'. init_sched st = Inr st' \<and> tasks_ok bs [kern_stack_top st - 8192] st' \<and>
    current st' = kern_stack_top st - 8192 \<and> now_pid st' = now_pid st + 1 \<and>
    kern_stack_top st' = kern_stack_top st \<and> free_pages st' = free_pages st \<and> load32 (mem st') (kern_stack_top st - 8192 + 4) = now_pid st"
proof -
  define c where "c = kern_stack_top st - 8192"
  have u: "unat c = unat (kern_stack_top st) - 8192"
    using k by (simp add: c_def unat_minus_small word_le_nat_alt)
  have m: "mapped st c 8192" using m by (simp add: c_def)
  have kc: "unat c + 8192 \<le> 0xE0000000" using u k by simp
  have w: "mapped st (c + of_nat i) 4" if "i + 4 \<le> 8192" for i
    using mapped_words [OF m that] .
  let ?A = "[(c, TASK_RUNNABLE), (c + 4, now_pid st)]"
  let ?B = "[(c + 8, c), (c + 12, 0), (c + 40, c)]"
  let ?m = "words.puts (words.puts (mem st) ?A) ?B"
  let ?st = "st\<lparr>current := c, mem := ?m, now_pid := now_pid st + 1, running_proc_head := c\<rparr>"
  note wm = w [of 0] w [of 4] w [of 8] w [of 12] w [of 40]
  have a: "write_words ?A (st\<lparr>current := c\<rparr>) = Inr (st\<lparr>current := c, mem := words.puts (mem st) ?A\<rparr>)"
    by (subst write_words_mapped) (use wm in auto)
  have b: "write_words ?B (st\<lparr>current := c, mem := words.puts (mem st) ?A, now_pid := now_pid st + 1\<rparr>) =
      Inr (st\<lparr>current := c, mem := ?m, now_pid := now_pid st + 1\<rparr>)"
    by (subst write_words_mapped) (use wm in auto)
  have run: "init_sched st = Inr ?st"
    using a b by (simp add: init_sched_def Let_def c_def del: write_words.simps words.puts.simps)
  have uc: "unat (c + of_nat i) = unat c + i" if "i < 8192" for i
    using that k u by (intro unat_plus_of_nat_small) simp
  note us = uc [of 4] uc [of 8] uc [of 12] uc [of 40]
  have pid: "load32 ?m (c + 4) = now_pid st" and nx: "load32 ?m (c + 40) = c"
    using kc us by (simp_all add: load32_store32_apart apart_def)
  have "?m x = mem st x" if "0xE0000000 \<le> unat x" for x
  proof -
    have ap: "apart b 4 x 1" if "(b, v) \<in> set (?A @ ?B)" for b v
      using that us u k \<open>0xE0000000 \<le> unat x\<close> by (auto simp: apart_def)
    show ?thesis
      using puts_byte [of ?B x "words.puts (mem st) ?A"] puts_byte [of ?A x "mem st"] ap
      by (metis Un_iff set_append)
  qed
  then have "heap_ok bs (st\<lparr>current := c, mem := ?m\<rparr>)" using h by (intro heap_ok_payload) auto
  then have "heap_ok bs ?st" by (simp del: words.puts.simps)
  moreover have "mapped ?st c 8192" using m by simp
  moreover have "c \<noteq> 0" using u k by (auto simp flip: unat_eq_0)
  ultimately have "tasks_ok bs [c] ?st"
    using u k nx by (simp add: tasks_ok_def areas_apart_def ring_def next_of_def) (simp add: c_def)
  moreover have "free_pages ?st = free_pages st" by (rule free_pages_cong) simp_all
  ultimately show ?thesis using run pid unfolding c_def [symmetric] by (intro exI [of _ ?st]) simp
qed

section \<open>Changes that keep the ring\<close>

lemma more_fields:
  fixes s t :: "'a task_state_scheme"
  assumes "heap_state.more s = heap_state.more t"
  shows "current s = current t" "now_pid s = now_pid t" "running_proc_head s = running_proc_head t"
    "wait_proc_head s = wait_proc_head t" "kern_stack_top s = kern_stack_top t"
  using assms by (cases s; cases t; simp)+

lemma tasks_ok_step:
  assumes "tasks_ok bs ts st" and "heap_ok bs' st'"
    and "running_proc_head st' = running_proc_head st" and "kern_stack_top st' = kern_stack_top st"
    and "current st' \<in> set ts" and "\<And>x. in_use 0xE0000000 bs x \<Longrightarrow> in_use 0xE0000000 bs' x"
    and "\<And>t. t \<in> set ts \<Longrightarrow> mapped st' t 8192"
    and "\<And>t. t \<in> set ts \<Longrightarrow> next_of (mem st') t = next_of (mem st) t"
  shows "tasks_ok bs' ts st'"
proof -
  have "map (next_of (mem st')) ts = map (next_of (mem st)) ts" using assms(8) by simp
  then show ?thesis using assms(1-7) unfolding tasks_ok_def ring_def by auto
qed

lemma alloc_keeps_tasks:
  fixes st :: "'a task_state_scheme"
  assumes ok: "tasks_ok bs ts st" and n: "unat n + 12 + total bs \<le> 0x1FFFF000"
    and k: "kmalloc n st = Some (Inr (a, st'))"
  shows "tasks_ok (snd (heap_alloc (unat n + 12) bs)) ts st'"
    and "t \<in> set ts \<Longrightarrow> in_area t x \<Longrightarrow> mem st' x = mem st x"
    and "t \<in> set ts \<Longrightarrow> unat a \<le> unat x \<Longrightarrow> unat x < unat a + unat n \<Longrightarrow> \<not> in_area t x"
    and "current st' = current st" "now_pid st' = now_pid st" "running_proc_head st' = running_proc_head st"
      "kern_stack_top st' = kern_stack_top st"
proof -
  note h = tasks_okD(1) [OF ok]
  have keep: "mapped st' t 8192" "in_area t x \<Longrightarrow> mem st' x = mem st x" if "t \<in> set ts" for t x
    using alloc_keeps_mapped [OF h n k tasks_okD(8) [OF ok that]] task_byte [OF ok that]
    by (auto simp: in_area_def)
  show "t \<in> set ts \<Longrightarrow> in_area t x \<Longrightarrow> mem st' x = mem st x" by (rule keep(2))
  have "heap_state.more st' = heap_state.more st"
    using kmalloc_range(4) [OF h n k] by (simp add: heap_frame_def)
  note f = more_fields [OF this]
  show f': "current st' = current st" "now_pid st' = now_pid st"
    "running_proc_head st' = running_proc_head st" "kern_stack_top st' = kern_stack_top st"
    using f by simp_all
  show "\<not> in_area t x" if "t \<in> set ts" "unat a \<le> unat x" "unat x < unat a + unat n"
    using task_byte [OF ok that(1), of x] kheap.fresh [OF h n k that(2,3)] that(2) kmalloc_range(1) [OF h n k]
    by auto
  show "tasks_ok (snd (heap_alloc (unat n + 12) bs)) ts st'"
  proof (rule tasks_ok_step [OF ok kheap.keeps [OF h n k] f'(3,4)])
    show "current st' \<in> set ts" using tasks_okD(4) [OF ok] f'(1) by simp
    show "in_use 0xE0000000 bs x \<Longrightarrow> in_use 0xE0000000 (snd (heap_alloc (unat n + 12) bs)) x" for x
      by (rule heap_alloc_live)
    show "mapped st' t 8192" if "t \<in> set ts" for t by (rule keep(1) [OF that])
    show "next_of (mem st') t = next_of (mem st) t" if "t \<in> set ts" for t
      using keep(2) [OF that] mapped_bound [OF tasks_okD(8) [OF ok that]]
      by (intro next_of_cong) (auto simp: in_area_def)
  qed
qed

section \<open>A new thread in memory\<close>

lemma load32_zero:
  assumes "unat a + n \<le> 4294967296" and "i + 4 \<le> n"
  shows "load32 (overwrite m a n (\<lambda>_. 0)) (a + of_nat i) = 0"
proof -
  have "load32 (overwrite m a n (\<lambda>_. 0)) (a + of_nat i) = load32 (\<lambda>_. 0) (a + of_nat i)"
  proof (rule load32_cong)
    fix j :: nat
    assume "j < 4"
    then show "overwrite m a n (\<lambda>_. 0) (a + of_nat i + of_nat j) = 0"
      using overwrite_inside [OF assms(1), of "i + j"] assms(2) by (simp add: add.assoc)
  qed
  then show ?thesis by (simp add: load32_def)
qed

text \<open>Fields of one object, at literal offsets.\<close>

lemma field_words:
  assumes "unat (a :: u32) + n \<le> 4294967296" and "n \<le> 4294967295"
  shows "(numeral i :: nat) + 4 \<le> numeral j \<or> (numeral j :: nat) + 4 \<le> numeral i \<Longrightarrow> numeral i + 4 \<le> n \<Longrightarrow>
      numeral j + 4 \<le> n \<Longrightarrow>
      load32 (store32 m (a + numeral i) w) (a + numeral j) = load32 m (a + numeral j)"
    and "4 \<le> (numeral i :: nat) \<Longrightarrow> numeral i + 4 \<le> n \<Longrightarrow>
      load32 (store32 m (a + numeral i) w) a = load32 m a"
    and "4 \<le> (numeral j :: nat) \<Longrightarrow> numeral j + 4 \<le> n \<Longrightarrow>
      load32 (store32 m a w) (a + numeral j) = load32 m (a + numeral j)"
proof -
  have g: "load32 (store32 m (a + of_nat k) w) (a + of_nat l) = load32 m (a + of_nat l)"
    if "k + 4 \<le> l \<or> l + 4 \<le> k" "k + 4 \<le> n" "l + 4 \<le> n" for k l
  proof -
    have "unat (a + of_nat k) = unat a + k" "unat (a + of_nat l) = unat a + l"
      using that assms by (simp_all add: unat_plus_of_nat_small)
    then show ?thesis using that assms by (intro load32_store32_apart) (auto simp: apart_def)
  qed
  show "load32 (store32 m (a + numeral i) w) (a + numeral j) = load32 m (a + numeral j)"
    if "(numeral i :: nat) + 4 \<le> numeral j \<or> (numeral j :: nat) + 4 \<le> numeral i" "numeral i + 4 \<le> n" "numeral j + 4 \<le> n"
    using g [OF that] by simp
  show "load32 (store32 m (a + numeral i) w) a = load32 m a" if "4 \<le> (numeral i :: nat)" "numeral i + 4 \<le> n"
    using g [of "numeral i" 0] that by simp
  show "load32 (store32 m a w) (a + numeral j) = load32 m (a + numeral j)"
    if "4 \<le> (numeral j :: nat)" "numeral j + 4 \<le> n"
    using g [of 0 "numeral j"] that by simp
qed

definition thread_stores :: "u32 \<Rightarrow> u32 \<Rightarrow> u32 \<Rightarrow> u32 \<Rightarrow> u32 \<Rightarrow> u32 \<Rightarrow> u32 \<Rightarrow> (u32 \<times> u32) list" where
  "thread_stores a cur pid ke fn arg head =
     [(a, 2), (a + 8, cur), (a + 4, pid), (a + 12, 0), (a + 8188, arg), (a + 8184, ke), (a + 8180, fn),
      (a + 16, a + 8180), (a + 36, 0x200), (a + 40, head)]"

definition thread_mem :: "bytes \<Rightarrow> u32 \<Rightarrow> u32 \<Rightarrow> u32 \<Rightarrow> u32 \<Rightarrow> u32 \<Rightarrow> u32 \<Rightarrow> u32 \<Rightarrow> bytes" where
  "thread_mem m a cur pid ke fn arg head =
     words.puts (overwrite m a 44 (\<lambda>_. 0)) (thread_stores a cur pid ke fn arg head)"

lemma thread_mem_outside:
  assumes a: "unat a + 8192 \<le> 4294967296" and x: "\<not> in_area a x"
  shows "thread_mem m a cur pid ke fn arg head x = m x"
proof -
  have u: "unat (a + of_nat i) = unat a + i" if "i < 8192" for i
    using that a by (intro unat_plus_of_nat_small) simp
  note us = u [of 4] u [of 8] u [of 12] u [of 16] u [of 36] u [of 40] u [of 8180] u [of 8184] u [of 8188]
  have "thread_mem m a cur pid ke fn arg head x = overwrite m a 44 (\<lambda>_. 0) x"
    unfolding thread_mem_def
  proof (rule puts_byte)
    fix b v
    assume "(b, v) \<in> set (thread_stores a cur pid ke fn arg head)"
    then have "unat a \<le> unat b \<and> unat b + 4 \<le> unat a + 8192"
      using us by (auto simp: thread_stores_def)
    then show "apart b 4 x 1" using a x unat_less_u32 [of x] by (auto simp: in_area_def apart_def)
  qed
  also have "\<dots> = m x" using x by (intro overwrite_outside) (auto simp: in_area_def)
  finally show ?thesis .
qed

lemma thread_mem_words:
  fixes m cur pid ke fn arg head
  assumes a: "unat a + 8192 \<le> 4294967296"
  defines "m' \<equiv> thread_mem m a cur pid ke fn arg head"
  shows "load32 m' a = 2" "load32 m' (a + 4) = pid" "load32 m' (a + 8) = cur" "load32 m' (a + 12) = 0"
    "load_context m' (a + 16) = \<lparr>c_esp = a + 8180, c_ebp = 0, c_ebx = 0, c_esi = 0, c_edi = 0, c_eflags = 0x200\<rparr>"
    "load32 m' (a + 40) = head" "load32 m' (a + 8180) = fn" "load32 m' (a + 8184) = ke"
    "load32 m' (a + 8188) = arg"
proof -
  note f = field_words [OF a]
  have z: "load32 (overwrite m a 44 (\<lambda>_. 0)) (a + 20) = 0" "load32 (overwrite m a 44 (\<lambda>_. 0)) (a + 24) = 0"
    "load32 (overwrite m a 44 (\<lambda>_. 0)) (a + 28) = 0" "load32 (overwrite m a 44 (\<lambda>_. 0)) (a + 32) = 0"
    using a load32_zero [of a 44 20 m] load32_zero [of a 44 24 m] load32_zero [of a 44 28 m]
      load32_zero [of a 44 32 m] by simp_all
  show "load32 m' a = 2" "load32 m' (a + 4) = pid" "load32 m' (a + 8) = cur" "load32 m' (a + 12) = 0"
    "load_context m' (a + 16) = \<lparr>c_esp = a + 8180, c_ebp = 0, c_ebx = 0, c_esi = 0, c_edi = 0, c_eflags = 0x200\<rparr>"
    "load32 m' (a + 40) = head" "load32 m' (a + 8180) = fn" "load32 m' (a + 8184) = ke"
    "load32 m' (a + 8188) = arg"
    using z by (simp_all add: m'_def thread_mem_def thread_stores_def load_context_def add.assoc f)
qed

text \<open>The steps of \<open>kernel_thread\<close> after its allocation.\<close>

lemma thread_fields_eq:
  "thread_fields a ke fn arg st =
     [(a + 12, 0), (a + 8188, arg), (a + 8184, ke), (a + 8180, fn), (a + 16, a + 8180), (a + 36, 0x200),
      (a + 40, running_proc_head st)]"
  by (simp add: thread_fields_def algebra_simps)

lemma thread_filled:
  fixes st :: "'a task_state_scheme"
  assumes a: "mapped st a 8192"
  shows "bindO (Some (bzero a task_size st)) (\<lambda>st.
     bindO (Some (write_words [(a, TASK_RUNNABLE), (task_stack a, current st), (task_pid a, now_pid st)] st)) (\<lambda>st.
     bindO (Some (write_words (thread_fields a ke fn arg st) (st\<lparr>now_pid := now_pid st + 1\<rparr>))) f)) =
    f (st\<lparr>mem := thread_mem (mem st) a (current st) (now_pid st) ke fn arg (running_proc_head st),
      now_pid := now_pid st + 1\<rparr>)"
proof -
  have w: "mapped st (a + of_nat i) 4" if "i + 4 \<le> 8192" for i
    using mapped_words [OF a that] .
  note wm = w [of 0] w [of 4] w [of 8] w [of 12] w [of 16] w [of 36] w [of 40] w [of 8180] w [of 8184] w [of 8188]
  let ?m = "overwrite (mem st) a 44 (\<lambda>_. 0)"
  let ?A = "[(a, TASK_RUNNABLE), (a + 8, current st), (a + 4, now_pid st)]"
  have z: "bzero a 44 st = Inr (st\<lparr>mem := ?m\<rparr>)"
    using bzero_mapped [of st a 44] mapped_sub [OF a, of a 44] by simp
  have A: "write_words ?A (st\<lparr>mem := ?m\<rparr>) = Inr (st\<lparr>mem := words.puts ?m ?A\<rparr>)"
    by (subst write_words_mapped) (use wm in auto)
  have B: "write_words (thread_fields a ke fn arg s) (st\<lparr>mem := words.puts ?m ?A, now_pid := now_pid st + 1\<rparr>) =
      Inr (st\<lparr>mem := words.puts (words.puts ?m ?A) (thread_fields a ke fn arg s), now_pid := now_pid st + 1\<rparr>)"
    for s :: "'a task_state_scheme"
    by (subst write_words_mapped) (use wm in \<open>auto simp: thread_fields_eq\<close>)
  show ?thesis
    using z A B
    by (simp add: thread_mem_def thread_stores_def thread_fields_eq del: write_words.simps)
qed

text \<open>The new task behind the last one: what the ring needs, and what stays.\<close>

lemma ring_snoc:
  assumes "ring m ts" and "distinct ts" and "ts \<noteq> []"
    and "next_of m' (last ts) = a" and "next_of m' a = hd ts"
    and "\<And>t. t \<in> set (butlast ts) \<Longrightarrow> next_of m' t = next_of m t"
  shows "ring m' (ts @ [a])"
proof -
  have "ts = butlast ts @ [last ts]" using assms(3) by simp
  then obtain us l where ts: "ts = us @ [l]" by blast
  have "map (next_of m) us = tl (us @ [l])"
    using assms(1) unfolding ts ring_def by (cases us) auto
  moreover have "map (next_of m') us = map (next_of m) us" using assms(6) ts by simp
  ultimately have "map (next_of m') us = tl (us @ [l])" by simp
  then show ?thesis using assms(4,5) unfolding ts ring_def by (cases us) auto
qed

lemma thread_linked:
  fixes st :: "'a task_state_scheme" and ke fn arg :: u32
  assumes ok: "tasks_ok bs ts st" and a: "0xE0000000 \<le> unat a" "unat a + 8192 \<le> 4294967296"
    "mapped st a 8192" "\<forall>x. in_area a x \<longrightarrow> in_use 0xE0000000 bs x"
    and d: "\<forall>t \<in> set ts. \<forall>x. in_area a x \<longrightarrow> \<not> in_area t x"
  defines "st4 \<equiv> st\<lparr>mem := thread_mem (mem st) a (current st) (now_pid st) ke fn arg (running_proc_head st),
      now_pid := now_pid st + 1\<rparr>"
  defines "st5 \<equiv> st4\<lparr>mem := store32 (mem st4) (last ts + 40) a\<rparr>"
  shows "last_task (hd ts) (hd ts) st4 = Some (Inr (last ts))"
    and "write32 (last ts + 40) a st4 = Inr st5" and "mapped st5 a 8192"
    and "tasks_ok bs (ts @ [a]) st5"
    and "in_area a x \<Longrightarrow> mem st5 x = mem st4 x"
    and "t \<in> set ts \<Longrightarrow> in_area t y \<Longrightarrow> \<not> (unat t + 40 \<le> unat y \<and> unat y < unat t + 44) \<Longrightarrow>
      mem st5 y = mem st y"
proof -
  have dis: "\<not> in_area t x" if "t \<in> set ts" "in_area a x" for t x using d that by blast
  let ?l = "last ts"
  have ne: "ts \<noteq> []" and l: "?l \<in> set ts" using tasks_okD(2) [OF ok] by simp_all
  have tb: "unat t + 8192 \<le> 4294967296" if "t \<in> set ts" for t
    using mapped_bound [OF tasks_okD(8) [OF ok that]] .
  have ul: "unat (?l + 40) = unat ?l + 40" using tb [OF l] by (simp add: unat_plus_small)
  have ap: "apart a 8192 t 8192" if t: "t \<in> set ts" for t
  proof (rule ccontr)
    assume "\<not> apart a 8192 t 8192"
    then have "unat t < unat a + 8192" "unat a < unat t + 8192" using a(2) tb [OF t] by (auto simp: apart_def)
    then have "in_area a (if unat a \<le> unat t then t else a)" "in_area t (if unat a \<le> unat t then t else a)"
      by (auto simp: in_area_def)
    then show False using dis [OF t] by blast
  qed
  have m4: "mem st4 x = mem st x" if "\<not> in_area a x" for x
    using thread_mem_outside [OF a(2) that] by (simp add: st4_def)
  have m5: "mem st5 x = mem st4 x" if "\<not> (unat ?l + 40 \<le> unat x \<and> unat x < unat ?l + 44)" for x
    using that tb [OF l] ul unat_less_u32 [of x]
    by (simp add: st5_def) (rule store32_byte_apart, auto simp: apart_def)
  have nt: "next_of (mem st4) t = next_of (mem st) t" if "t \<in> set ts" for t
  proof (rule next_of_cong [OF tb [OF that] m4])
    show "\<not> in_area a x" if "unat t + 40 \<le> unat x" "unat x < unat t + 44" for x
      using dis [OF \<open>t \<in> set ts\<close>, of x] that by (auto simp: in_area_def)
  qed
  then have r4: "ring (mem st4) ts" using tasks_okD(7) [OF ok] by (simp add: ring_def cong: map_cong)
  have mp4: "mapped st4 t 8192" if "t \<in> set ts" for t
    using tasks_okD(8) [OF ok that] by (simp add: st4_def)
  have di: "distinct ts" by (rule areas_distinct [OF tasks_okD(6) [OF ok]])
  show "last_task (hd ts) (hd ts) st4 = Some (Inr ?l)"
    by (rule last_task_ring [OF r4 di ne mp4])
  have "mapped st4 (?l + 40) 4" using mapped_words [OF mp4 [OF l], of 40] by simp
  then show "write32 (?l + 40) a st4 = Inr st5" by (simp add: word_access st5_def)
  show mpa: "mapped st5 a 8192" using a(3) by (simp add: st5_def st4_def)
  show "mem st5 x = mem st4 x" if "in_area a x" for x
    using dis [OF l that] by (intro m5) (auto simp: in_area_def)
  show out: "mem st5 y = mem st y"
    if "t \<in> set ts" "in_area t y" "\<not> (unat t + 40 \<le> unat y \<and> unat y < unat t + 44)" for t y
  proof -
    have "\<not> (unat ?l + 40 \<le> unat y \<and> unat y < unat ?l + 44)"
    proof (cases "t = ?l")
      case False
      then have "apart t 8192 ?l 8192" using areas_apartD [OF tasks_okD(6) [OF ok] that(1) l] by simp
      then show ?thesis using that(2) by (auto simp: in_area_def apart_def)
    qed (use that(3) in simp)
    then show ?thesis using m5 [of y] m4 [of y] dis [OF that(1)] that(2) by auto
  qed
  show "tasks_ok bs (ts @ [a]) st5"
    unfolding tasks_ok_def
  proof (intro conjI)
    have "heap_ok bs (st\<lparr>mem := mem st5\<rparr>)"
    proof (rule heap_ok_payload [OF tasks_okD(1) [OF ok]])
      fix x
      assume x: "0xE0000000 \<le> unat x" "\<not> in_use 0xE0000000 bs x"
      then have "\<not> in_area ?l x" using task_byte [OF ok l, of x] by auto
      then have "mem st5 x = mem st4 x" by (intro m5) (auto simp: in_area_def)
      also have "\<dots> = mem st x" using a(4) x by (intro m4) auto
      finally show "mem st5 x = mem st x" .
    qed
    then show "heap_ok bs st5" by (subst heap_ok_cong [of st5 "st\<lparr>mem := mem st5\<rparr>"]) (simp_all add: st5_def st4_def)
    show "ring (mem st5) (ts @ [a])"
    proof (rule ring_snoc [OF r4 di ne])
      show "next_of (mem st5) ?l = a" by (simp add: next_of_def st5_def)
      have "next_of (mem st5) a = next_of (mem st4) a"
      proof (rule next_of_cong [OF a(2) m5])
        show "\<not> (unat ?l + 40 \<le> unat x \<and> unat x < unat ?l + 44)"
          if "unat a + 40 \<le> unat x" "unat x < unat a + 44" for x :: u32
          using dis [OF l, of x] that by (auto simp: in_area_def)
      qed
      also have "\<dots> = hd ts"
        using thread_mem_words(6) [OF a(2)] tasks_okD(3) [OF ok] by (simp add: next_of_def st4_def)
      finally show "next_of (mem st5) a = hd ts" .
      show "next_of (mem st5) t = next_of (mem st4) t" if "t \<in> set (butlast ts)" for t
      proof -
        have "t \<in> set ts" using that by (rule in_set_butlastD)
        moreover have "t \<noteq> ?l"
          using that di ne by (metis append_butlast_last_id distinct_append disjoint_iff list.set_intros(1))
        ultimately have "apart t 8192 ?l 8192" using areas_apartD [OF tasks_okD(6) [OF ok] _ l] by simp
        then show ?thesis using tb [OF \<open>t \<in> set ts\<close>]
          by (intro next_of_cong m5) (auto simp: apart_def)
      qed
    qed
    show "areas_apart (ts @ [a])"
      using tasks_okD(6) [OF ok] ap apart_sym [of a 8192] by (simp add: areas_apart_def sorted_wrt_append)
    show "\<forall>t \<in> set (ts @ [a]). mapped st5 t 8192"
      using mpa mp4 by (simp add: st5_def)
    show "\<forall>t \<in> set (tl (ts @ [a])). \<forall>x. in_area t x \<longrightarrow> in_use 0xE0000000 bs x"
      using ok a(4) ne unfolding tasks_ok_def by (cases ts) auto
    show "0 \<notin> set (ts @ [a])" using tasks_okD(5) [OF ok] a(1) by auto
  qed (use ok ne in \<open>simp_all add: tasks_ok_def st5_def st4_def\<close>)
qed

lemma kernel_thread_ok:
  fixes st :: "'a task_state_scheme"
  assumes ok: "tasks_ok bs ts st" and n: "8204 + total bs \<le> 0x1FFFF000"
  shows "case kernel_thread ke fn arg st of None \<Rightarrow> False
    | Some (Inl e) \<Rightarrow> e = Panic ''out of memory'' \<and> fit 8204 bs = None \<and>
        length (free_pages st) < 2 * (page_count (total bs + 8204) - page_count (total bs))
    | Some (Inr (pid, st')) \<Rightarrow> \<exists>a. pid = now_pid st \<and> now_pid st' = now_pid st + 1 \<and>
        current st' = current st \<and> kern_stack_top st' = kern_stack_top st \<and>
        tasks_ok (snd (heap_alloc 8204 bs)) (ts @ [a]) st' \<and>
        load32 (mem st') a = TASK_RUNNABLE \<and> load32 (mem st') (task_pid a) = pid \<and>
        load32 (mem st') (task_stack a) = current st \<and>
        load_context (mem st') (task_context a) = \<lparr>c_esp = a + 8180, c_ebp = 0, c_ebx = 0,
          c_esi = 0, c_edi = 0, c_eflags = 0x200\<rparr> \<and>
        load32 (mem st') (a + 8180) = fn \<and> load32 (mem st') (a + 8184) = ke \<and>
        load32 (mem st') (a + 8188) = arg \<and>
        (\<forall>t x. t \<in> set ts \<longrightarrow> in_area t x \<longrightarrow> \<not> (unat t + 40 \<le> unat x \<and> unat x < unat t + 44) \<longrightarrow>
          mem st' x = mem st x)"
proof -
  note h = tasks_okD(1) [OF ok]
  have n': "unat (8192 :: u32) + 12 + total bs \<le> 0x1FFFF000" using n by simp
  note r = kmalloc_refines [OF h n']
  consider e where "kmalloc 8192 st = Some (Inl e)" "e = Panic ''out of memory''" "fit 8204 bs = None"
      "length (free_pages st) < 2 * (page_count (total bs + 8204) - page_count (total bs))"
    | a st1 where "kmalloc 8192 st = Some (Inr (a, st1))"
    using r by (cases "kmalloc 8192 st") (auto split: sum.splits)
  then show ?thesis
  proof cases
    case 1
    then show ?thesis by (simp add: kernel_thread_def)
  next
    case k: 2
    let ?bs = "snd (heap_alloc 8204 bs)"
    have ok1: "tasks_ok ?bs ts st1" using alloc_keeps_tasks(1) [OF ok n' k] by simp
    note keep = alloc_keeps_tasks(2,3) [OF ok n' k] and same = alloc_keeps_tasks(4-7) [OF ok n' k]
    have a: "0xE000000C \<le> unat a" "unat a + 8192 \<le> 0xFFFFF000" "mapped st1 a 8192"
      using kmalloc_range [OF h n' k] by simp_all
    have live: "\<forall>x. in_area a x \<longrightarrow> in_use 0xE0000000 ?bs x"
      using kheap.fresh [OF h n' k] by (simp add: in_area_def)
    have dis: "\<forall>t \<in> set ts. \<forall>x. in_area a x \<longrightarrow> \<not> in_area t x"
      using keep(2) by (simp add: in_area_def)
    define st4 where "st4 = st1\<lparr>mem := thread_mem (mem st1) a (current st1) (now_pid st1) ke fn arg
      (running_proc_head st1), now_pid := now_pid st1 + 1\<rparr>"
    define st5 where "st5 = st4\<lparr>mem := store32 (mem st4) (last ts + 40) a\<rparr>"
    have ab: "0xE0000000 \<le> unat a" "unat a + 8192 \<le> 4294967296" using a by simp_all
    note T = thread_linked [OF ok1 ab a(3) live dis, where ke = ke and fn = fn and arg = arg, folded st4_def, folded st5_def]
    have w: "load32 (mem st5) (a + of_nat i) = load32 (mem st4) (a + of_nat i)" if "i + 4 \<le> 8192" for i
    proof (rule load32_cong)
      fix j :: nat
      assume "j < 4"
      then have "unat (a + of_nat (i + j)) = unat a + (i + j)"
        using that ab by (intro unat_plus_of_nat_small) simp
      then have "in_area a (a + of_nat (i + j))" using that \<open>j < 4\<close> unfolding in_area_def by linarith
      from T(5) [OF this]
      show "mem st5 (a + of_nat i + of_nat j) = mem st4 (a + of_nat i + of_nat j)"
        by (simp add: add.assoc)
    qed
    have c: "load_context (mem st5) (a + 16) = load_context (mem st4) (a + 16)"
      using w [of 16] w [of 20] w [of 24] w [of 28] w [of 32] w [of 36]
      by (simp add: load_context_def add.assoc)
    note W = thread_mem_words [OF ab(2), of "mem st1" "current st1" "now_pid st1" ke fn arg
        "running_proc_head st1"]
    have m4: "mem st4 = thread_mem (mem st1) a (current st1) (now_pid st1) ke fn arg (running_proc_head st1)"
      by (simp add: st4_def)
    have words: "load32 (mem st5) a = 2" "load32 (mem st5) (a + 4) = now_pid st"
      "load32 (mem st5) (a + 8) = current st" "load32 (mem st5) (a + 8180) = fn"
      "load32 (mem st5) (a + 8184) = ke" "load32 (mem st5) (a + 8188) = arg"
      using w [of 0] w [of 4] w [of 8] w [of 8180] w [of 8184] w [of 8188] W same by (simp_all add: m4)
    have head: "running_proc_head st4 = hd ts" "hd ts \<noteq> 0"
      using tasks_okD(2,3,5) [OF ok1] hd_in_set [of ts] by (auto simp: st4_def simp del: hd_in_set)
    have pid: "read32 (a + 4) st5 = Inr (now_pid st)"
      using mapped_words [OF T(3), of 4] words(2) by (simp add: word_access)
    have "a \<noteq> 0" using a(1) by auto
    then have run: "kernel_thread ke fn arg st = Some (Inr (now_pid st, st5))"
      unfolding kernel_thread_def STACK_SIZE_def k bindO_simps prod.case if_not_P [OF \<open>a \<noteq> 0\<close>]
        thread_filled [OF a(3)]
      using T(1,2) head pid by (simp flip: st4_def)
    show ?thesis
      unfolding run
      using T(4) T(6) words c W(5) same keep(1)
      by (auto simp: st5_def st4_def m4 intro!: exI [of _ a])
  qed
qed

section \<open>Switching keeps the invariant\<close>

text \<open>
  A suspended task has a saved stack pointer that leaves room for a word below and for the
  return address, above its structure. The stack pointer of the running task is in its own
  area; before a switch it needs 16 bytes of room, two words of which are taken again when it
  is resumed.
\<close>

definition suspended :: "bytes \<Rightarrow> u32 \<Rightarrow> bool" where
  "suspended m t \<longleftrightarrow> unat t + 48 \<le> unat (c_esp (load_context m (task_context t))) \<and>
     unat (c_esp (load_context m (task_context t))) + 4 \<le> unat t + 8192"

definition running :: "cpu \<Rightarrow> u32 \<Rightarrow> bool" where
  "running c t \<longleftrightarrow> unat t + 52 \<le> unat (esp c) \<and> unat (esp c) \<le> unat t + 8192"

definition has_room :: "cpu \<Rightarrow> u32 \<Rightarrow> bool" where
  "has_room c t \<longleftrightarrow> unat t + 60 \<le> unat (esp c) \<and> unat (esp c) \<le> unat t + 8192"

definition sched_inv :: "block list \<Rightarrow> u32 list \<Rightarrow> cpu \<times> 'a task_state_scheme \<Rightarrow> bool" where
  "sched_inv bs ts s \<longleftrightarrow> tasks_ok bs ts (snd s) \<and> running (fst s) (current (snd s)) \<and>
     (\<forall>t \<in> set ts. t \<noteq> current (snd s) \<longrightarrow> suspended (mem (snd s)) t)"

definition within :: "u32 \<Rightarrow> u32 \<Rightarrow> nat \<Rightarrow> bool" where
  "within t a n \<longleftrightarrow> unat t \<le> unat a \<and> unat a + n \<le> unat t + 8192"

lemma apart_within:
  "apart s 8192 t 8192 \<Longrightarrow> within s a n \<Longrightarrow> within t b k \<Longrightarrow> apart a n b k"
  by (auto simp: apart_def within_def)

lemma mapped_within: "mapped st t 8192 \<Longrightarrow> within t a n \<Longrightarrow> mapped st a n"
  by (rule mapped_sub) (auto simp: within_def)

lemma area_field:
  assumes "mapped st t 8192" and "i + n \<le> 8192" and "0 < n"
  shows "within t (t + of_nat i) n" and "unat (t + of_nat i) = unat t + i"
proof -
  show "unat (t + of_nat i) = unat t + i"
    using mapped_bound [OF assms(1)] assms(2,3) by (intro unat_plus_of_nat_small) simp
  then show "within t (t + of_nat i) n" using assms(2) by (simp add: within_def)
qed

lemma switch_room_tasks:
  assumes m: "mapped st t 8192" "mapped st n 8192" and ap: "apart t 8192 n 8192"
    and room: "has_room c t" and su: "suspended (mem st) n"
  defines "S \<equiv> esp c - 16" and "T \<equiv> c_esp (load_context (mem st) (task_context n)) - 4"
  shows "switch_room st S (task_context t) (task_context n) T"
    and "esp c = S + 16" and "c_esp (load_context (mem st) (task_context n)) = T + 4"
    and "unat S + 16 = unat (esp c)" and "within t S 16" and "within n T 8"
    and "unat T + 4 = unat (c_esp (load_context (mem st) (task_context n)))"
proof -
  let ?e = "c_esp (load_context (mem st) (task_context n))"
  show e: "esp c = S + 16" "?e = T + 4" by (simp_all add: S_def T_def)
  have "16 \<le> esp c" "4 \<le> ?e"
    using room su by (simp_all add: has_room_def suspended_def word_le_nat_alt)
  then have u: "unat S = unat (esp c) - 16" "unat T = unat ?e - 4"
    by (simp_all add: S_def T_def unat_minus_small)
  show uS: "unat S + 16 = unat (esp c)" and uT: "unat T + 4 = unat ?e"
    using u room su by (simp_all add: has_room_def suspended_def)
  show wS: "within t S 16" and wT: "within n T 8"
    using uS uT room su by (simp_all add: has_room_def suspended_def within_def)
  have c: "within t (t + 16) 24" "unat (t + 16) = unat t + 16" "within n (n + 16) 24"
      "unat (n + 16) = unat n + 16"
    using area_field [OF m(1), of 16 24] area_field [OF m(2), of 16 24] by simp_all
  have "apart S 16 (t + 16) 24" "apart (n + 16) 24 T 8"
    using uS uT c(2,4) room su mapped_bound [OF m(1)] mapped_bound [OF m(2)]
    by (simp_all add: has_room_def suspended_def apart_def)
  then show "switch_room st S (task_context t) (task_context n) T"
    unfolding switch_room_def
    using mapped_within [OF m(1) wS] mapped_within [OF m(1) c(1)] mapped_within [OF m(2) c(3)]
      mapped_within [OF m(2) wT] apart_within [OF ap wS c(3)] apart_within [OF ap wS wT]
      apart_within [OF ap c(1) c(3)] apart_within [OF ap c(1) wT]
    by simp
qed

text \<open>The words a switch writes lie in the stack and the context of the task it leaves, and in the
  stack of the task it enters.\<close>

lemma switch_changes:
  assumes "within t S 16" and "within n T 8" and "mapped st t 8192" and "mapped st n 8192"
    and "unat t + 44 \<le> unat S" and "unat n + 44 \<le> unat T"
    and "\<not> (unat t + 16 \<le> unat x \<and> unat x < unat t + 40)"
    and "\<not> (unat t + 44 \<le> unat x \<and> unat x < unat t + 8192)"
    and "\<not> (unat n + 44 \<le> unat x \<and> unat x < unat n + 8192)"
  shows "apart S 16 x 1 \<and> apart (task_context t) 24 x 1 \<and> apart T 4 x 1"
proof -
  have "unat (t + 16) = unat t + 16" using area_field(2) [OF assms(3), of 16 24] by simp
  then show ?thesis
    using assms mapped_bound [OF assms(3)] mapped_bound [OF assms(4)] unat_less_u32 [of x]
    by (auto simp: within_def apart_def)
qed

lemma load_context_area:
  assumes "mapped st t 8192"
    and "\<And>x. unat t + 16 \<le> unat x \<Longrightarrow> unat x < unat t + 40 \<Longrightarrow> m x = m' x"
  shows "load_context m (task_context t) = load_context m' (task_context t)"
  using area_field(2) [OF assms(1), of 16 24] mapped_bound [OF assms(1)] assms(2)
  by (intro load_context_cong) simp_all

lemma task_bound:
  assumes "tasks_ok bs ts st" and "t \<in> set ts"
  shows "unat t + 8192 < 4294967296"
proof -
  have m: "unat t + 8192 \<le> 4294967296" using mapped_bound [OF tasks_okD(8) [OF assms]] .
  then have u: "unat (t + 8191) = unat t + 8191" by (simp add: unat_plus_small)
  then have "in_area t (t + 8191)" by (simp add: in_area_def)
  from task_byte [OF assms this] show ?thesis
  proof
    assume "in_use 0xE0000000 bs (t + 8191)"
    then show ?thesis
      using in_use_bounds [of "0xE0000000" bs "t + 8191"] tasks_okD(1) [OF assms(1)] u
      by (simp add: heap_ok_def)
  qed (use u in simp)
qed

lemma schedule_step:
  fixes st :: "'a task_state_scheme"
  assumes inv: "sched_inv bs ts (c, st)" and room: "has_room c (current st)"
  defines "n \<equiv> next_of (mem st) (current st)"
  shows "\<exists>c' st'. schedule ret (c, st) = Inr (c', st') \<and> sched_inv bs ts (c', st') \<and> current st' = n \<and>
    (if n = current st then c' = c \<and> st' = st
     else eip c' = load32 (mem st) (c_esp (load_context (mem st) (task_context n))) \<and>
       esp c' = c_esp (load_context (mem st) (task_context n)) + 4)"
proof -
  let ?t = "current st"
  have ok: "tasks_ok bs ts st" and run: "running c ?t"
    and su: "\<And>t. t \<in> set ts \<Longrightarrow> t \<noteq> ?t \<Longrightarrow> suspended (mem st) t"
    using inv by (simp_all add: sched_inv_def)
  note t = tasks_okD(4) [OF ok] and r = tasks_okD(7) [OF ok] and m = tasks_okD(8) [OF ok]
  have n: "n \<in> set ts" unfolding n_def by (rule ring_in [OF r t])
  have "mapped st (?t + 40) 4" using mapped_words [OF m [OF t], of 40] by simp
  moreover have "?t \<noteq> 0" using tasks_okD(5) [OF ok] t by auto
  ultimately have s: "schedule ret (c, st) = change_task_to ret n (c, st)"
    by (simp add: schedule_def word_access n_def next_of_def)
  show ?thesis
  proof (cases "n = ?t")
    case True
    then show ?thesis using s inv by (auto simp: change_task_to_def)
  next
    case ne: False
    have ap: "apart ?t 8192 n 8192" using areas_apartD [OF tasks_okD(6) [OF ok] t n] ne by simp
    define S where "S = esp c - 16"
    define T where "T = c_esp (load_context (mem st) (task_context n)) - 4"
    note R = switch_room_tasks [OF m [OF t] m [OF n] ap room su [OF n ne], folded S_def T_def]
    let ?n = "load_context (mem st) (task_context n)"
    let ?m = "words.puts (mem st) (switch_stores c ret S (task_context ?t) (task_context n) T (c_eflags ?n))"
    let ?st = "st\<lparr>current := n, mem := ?m\<rparr>" and ?c = "resumed (mem st) T (eflags c) ?n"
    have go: "change_task_to ret n (c, st) = Inr (?c, ?st)"
      using change_task_switch [OF R(1) refl refl _ R(2,3), of ret] ne by simp
    note sv = switch_saves [OF R(1), where c = c and ret = ret and f = "c_eflags ?n"]
    have S44: "unat ?t + 44 \<le> unat S" "unat S + 16 \<le> unat ?t + 8192"
      and T44: "unat n + 44 \<le> unat T" "unat T + 8 \<le> unat n + 8192"
      using R(4,7) room su [OF n ne] by (simp_all add: has_room_def suspended_def)
    have out: "?m x = mem st x"
      if "\<not> (unat ?t + 16 \<le> unat x \<and> unat x < unat ?t + 40)"
        "\<not> (unat ?t + 44 \<le> unat x \<and> unat x < unat ?t + 8192)"
        "\<not> (unat n + 44 \<le> unat x \<and> unat x < unat n + 8192)" for x
      using switch_changes [OF R(5,6) m [OF t] m [OF n] S44(1) T44(1) that] sv(3) [of x] by simp
    have far: "\<not> in_area u x" if "u \<in> set ts" "v \<in> set ts" "u \<noteq> v" "in_area v x" for u v x
      using areas_apartD [OF tasks_okD(6) [OF ok] that(1-3)] that(4) by (auto simp: apart_def in_area_def)
    have "heap_ok bs (st\<lparr>mem := ?m\<rparr>)"
    proof (rule heap_ok_payload [OF tasks_okD(1) [OF ok]])
      fix x :: u32
      assume "0xE0000000 \<le> unat x" "\<not> in_use 0xE0000000 bs x"
      then have "\<not> in_area ?t x" "\<not> in_area n x"
        using task_byte [OF ok t, of x] task_byte [OF ok n, of x] by auto
      then show "?m x = mem st x" by (intro out) (auto simp: in_area_def)
    qed
    then have h: "heap_ok bs ?st" by (subst heap_ok_cong [of _ "st\<lparr>mem := ?m\<rparr>"]) simp_all
    have nx: "next_of ?m u = next_of (mem st) u" if u: "u \<in> set ts" for u
    proof (rule next_of_cong [OF mapped_bound [OF m [OF u]] out])
      fix x :: u32
      assume x: "unat u + 40 \<le> unat x" "unat x < unat u + 44"
      then have "in_area u x" by (simp add: in_area_def)
      with far [OF _ u, of ?t x] far [OF _ u, of n x] t n
      have "unat u = unat ?t \<or> \<not> in_area ?t x" "unat u = unat n \<or> \<not> in_area n x" by auto
      then show "\<not> (unat ?t + 16 \<le> unat x \<and> unat x < unat ?t + 40)"
        "\<not> (unat ?t + 44 \<le> unat x \<and> unat x < unat ?t + 8192)"
        "\<not> (unat n + 44 \<le> unat x \<and> unat x < unat n + 8192)"
        using x by (auto simp: in_area_def)
    qed
    have ok': "tasks_ok bs ts ?st"
      using h n m nx by (intro tasks_ok_step [OF ok]) simp_all
    have "suspended ?m u" if u: "u \<in> set ts" "u \<noteq> n" for u
    proof (cases "u = ?t")
      case True
      have "unat (S + 4) = unat S + 4"
        using S44 mapped_bound [OF m [OF t]] by (simp add: unat_plus_small)
      then show ?thesis using sv(1) S44 True by (simp add: suspended_def)
    next
      case False
      have "load_context ?m (task_context u) = load_context (mem st) (task_context u)"
      proof (rule load_context_area [OF m [OF u(1)] out])
        fix x :: u32
        assume "unat u + 16 \<le> unat x" "unat x < unat u + 40"
        then have "in_area u x" by (simp add: in_area_def)
        then have "\<not> in_area ?t x" "\<not> in_area n x" using far u t n False by blast+
        then show "\<not> (unat ?t + 16 \<le> unat x \<and> unat x < unat ?t + 40)"
          "\<not> (unat ?t + 44 \<le> unat x \<and> unat x < unat ?t + 8192)"
          "\<not> (unat n + 44 \<le> unat x \<and> unat x < unat n + 8192)" by (auto simp: in_area_def)
      qed
      then show ?thesis using su [OF u(1) False] by (simp add: suspended_def)
    qed
    moreover have "unat (T + 8) = unat T + 8"
      using T44 task_bound [OF ok n] by (simp add: unat_plus_small)
    then have "running ?c n" using T44 by (simp add: running_def resumed_def)
    ultimately have "sched_inv bs ts (?c, ?st)" using ok' by (simp add: sched_inv_def)
    then show ?thesis
      using s go ne R(3) by (intro exI [of _ ?c] exI [of _ ?st]) (simp add: resumed_def)
  qed
qed

end
