(* ===== verification/Sched_Run.thy ===== *)
theory Sched_Run
  imports Sched
begin

text \<open>
  Runs of the kernel: timer ticks, thread creation, allocations and the work of the running
  thread in any order. The invariant of \<open>Sched\<close> holds in every state of a run, and the timer
  runs the tasks round robin.
\<close>

section \<open>Steps\<close>

datatype kernel_event = Tick | Spawn | Alloc | Work

text \<open>
  What the running thread may change by itself: its own stack above its structure, and memory
  below the heap that is not the stack of the first task.
\<close>

definition own_byte :: "'a task_state_scheme \<Rightarrow> u32 \<Rightarrow> bool" where
  "own_byte st x \<longleftrightarrow> (unat (current st) + 44 \<le> unat x \<and> unat x < unat (current st) + 8192) \<or>
     (unat x < 0xE0000000 \<and> \<not> in_area (kern_stack_top st - STACK_SIZE) x)"

text \<open>
  One step. A tick is a call of \<open>schedule\<close> in the context of the running thread, whose stack must
  have room for it. \<open>kernel_thread\<close> and \<open>kmalloc\<close> are atomic: the kernel calls them with
  interrupts disabled.
\<close>

inductive kernel_step ::
  "kernel_event \<Rightarrow> cpu \<times> 'a task_state_scheme \<Rightarrow> cpu \<times> 'a task_state_scheme \<Rightarrow> bool" where
  tick: "has_room c (current st) \<Longrightarrow> schedule ret (c, st) = Inr s \<Longrightarrow> kernel_step Tick (c, st) s"
| spawn: "unat (heap_max st) + 8204 \<le> 0xFFFFF000 \<Longrightarrow>
    kernel_thread ke fn arg st = Some (Inr (pid, st')) \<Longrightarrow> running c' (current st) \<Longrightarrow>
    kernel_step Spawn (c, st) (c', st')"
| alloc: "unat (heap_max st) + unat n + 12 \<le> 0xFFFFF000 \<Longrightarrow>
    kmalloc n st = Some (Inr (a, st')) \<Longrightarrow> running c' (current st) \<Longrightarrow>
    kernel_step Alloc (c, st) (c', st')"
| work: "(\<And>x. \<not> own_byte st x \<Longrightarrow> m x = mem st x) \<Longrightarrow> running c' (current st) \<Longrightarrow>
    kernel_step Work (c, st) (c', st\<lparr>mem := m\<rparr>)"

inductive_cases tickE: "kernel_step Tick s t"
inductive_cases spawnE: "kernel_step Spawn s t"
inductive_cases allocE: "kernel_step Alloc s t"
inductive_cases workE: "kernel_step Work s t"

inductive kernel_run ::
  "kernel_event list \<Rightarrow> cpu \<times> 'a task_state_scheme \<Rightarrow> cpu \<times> 'a task_state_scheme \<Rightarrow> bool" where
  stop: "kernel_run [] s s"
| go: "kernel_step e s t \<Longrightarrow> kernel_run es t u \<Longrightarrow> kernel_run (e # es) s u"

inductive_cases run_NilE: "kernel_run [] s t"
inductive_cases run_ConsE: "kernel_run (e # es) s t"

inductive_simps run_Nil [simp]: "kernel_run [] s t"
inductive_simps run_Cons: "kernel_run (e # es) s t"

section \<open>Every step keeps the invariant\<close>

lemma heap_max_total:
  assumes "heap_ok bs st"
  shows "0xE0000000 + total bs \<le> unat (heap_max st)"
proof -
  have "pages_ok (page_count (total bs)) st" using assms by (simp add: heap_ok_def)
  then have "unat (heap_max st) = 0xE0000000 + 4096 * page_count (total bs)"
    using pages_okD(3,4) unat_heap_page by metis
  moreover have "total bs \<le> 4096 * page_count (total bs)" using page_count_le_iff by blast
  ultimately show ?thesis by simp
qed

lemma suspended_cong:
  assumes "mapped st t 8192"
    and "\<And>x. unat t + 16 \<le> unat x \<Longrightarrow> unat x < unat t + 40 \<Longrightarrow> m' x = m x"
  shows "suspended m' t = suspended m t"
  using load_context_area [OF assms] by (simp add: suspended_def)

lemma sched_invD:
  assumes "sched_inv bs ts (c, st)"
  shows "tasks_ok bs ts st" "running c (current st)"
    "t \<in> set ts \<Longrightarrow> t \<noteq> current st \<Longrightarrow> suspended (mem st) t"
  using assms by (simp_all add: sched_inv_def)

lemma tick_step:
  assumes "sched_inv bs ts s" and "kernel_step Tick s s'"
  shows "sched_inv bs ts s' \<and> current (snd s') = next_of (mem (snd s)) (current (snd s))"
proof -
  from assms(2) obtain c st ret where s: "s = (c, st)" "has_room c (current st)"
    "schedule ret (c, st) = Inr s'" by (rule tickE) blast
  with schedule_step [of bs ts c st ret] assms(1) show ?thesis by auto
qed

lemma spawn_step:
  fixes s s' :: "cpu \<times> 'a task_state_scheme"
  assumes inv: "sched_inv bs ts s" and step: "kernel_step Spawn s s'"
  shows "\<exists>bs' a. sched_inv bs' (ts @ [a]) s' \<and> current (snd s') = current (snd s)"
proof -
  from step obtain c st c' st' ke fn arg pid where s: "s = (c, st)" "s' = (c', st')"
    and n: "unat (heap_max st) + 8204 \<le> 0xFFFFF000"
    and k: "kernel_thread ke fn arg st = Some (Inr (pid, st'))" and run: "running c' (current st)"
    by (auto elim!: spawnE)
  have ok: "tasks_ok bs ts st" and su: "\<And>t. t \<in> set ts \<Longrightarrow> t \<noteq> current st \<Longrightarrow> suspended (mem st) t"
    using inv by (auto simp: s sched_inv_def)
  have n': "8204 + total bs \<le> 0x1FFFF000"
    using n heap_max_total [OF tasks_okD(1) [OF ok]] by simp
  from kernel_thread_ok [OF ok n', where ke = ke and fn = fn and arg = arg] k obtain a where
    a: "tasks_ok (snd (heap_alloc 8204 bs)) (ts @ [a]) st'" "current st' = current st"
      "load_context (mem st') (task_context a) = \<lparr>c_esp = a + 8180, c_ebp = 0, c_ebx = 0,
        c_esi = 0, c_edi = 0, c_eflags = 0x200\<rparr>"
    and out: "\<And>t x. t \<in> set ts \<Longrightarrow> in_area t x \<Longrightarrow> \<not> (unat t + 40 \<le> unat x \<and> unat x < unat t + 44) \<Longrightarrow>
      mem st' x = mem st x" by auto
  have "suspended (mem st') t" if t: "t \<in> set ts" "t \<noteq> current st" for t
    using su [OF t] suspended_cong [OF tasks_okD(8) [OF ok t(1)], of "mem st'" "mem st"] out [OF t(1)]
    by (simp add: in_area_def)
  moreover have "suspended (mem st') a"
  proof -
    have "unat (a + 8180) = unat a + 8180"
      using task_bound [OF a(1), of a] by (simp add: unat_plus_small)
    then show ?thesis using a(3) by (simp add: suspended_def)
  qed
  ultimately have "sched_inv (snd (heap_alloc 8204 bs)) (ts @ [a]) (c', st')"
    using a(1,2) run by (auto simp: sched_inv_def)
  then show ?thesis using a(2) s by auto
qed

lemma alloc_step:
  fixes s s' :: "cpu \<times> 'a task_state_scheme"
  assumes inv: "sched_inv bs ts s" and step: "kernel_step Alloc s s'"
  shows "\<exists>bs'. sched_inv bs' ts s' \<and> current (snd s') = current (snd s)"
proof -
  from step obtain c st c' st' n a where s: "s = (c, st)" "s' = (c', st')"
    and n: "unat (heap_max st) + unat n + 12 \<le> 0xFFFFF000"
    and k: "kmalloc n st = Some (Inr (a, st'))" and run: "running c' (current st)"
    by (auto elim!: allocE)
  have ok: "tasks_ok bs ts st" and su: "\<And>t. t \<in> set ts \<Longrightarrow> t \<noteq> current st \<Longrightarrow> suspended (mem st) t"
    using inv by (auto simp: s sched_inv_def)
  have n': "unat n + 12 + total bs \<le> 0x1FFFF000"
    using n heap_max_total [OF tasks_okD(1) [OF ok]] by simp
  note keep = alloc_keeps_tasks [OF ok n' k]
  have "suspended (mem st') t" if t: "t \<in> set ts" "t \<noteq> current st" for t
    using su [OF t] suspended_cong [OF tasks_okD(8) [OF ok t(1)], of "mem st'" "mem st"] keep(2) [OF t(1)]
    by (simp add: in_area_def)
  then have "sched_inv (snd (heap_alloc (unat n + 12) bs)) ts (c', st')"
    using keep(1,4) run by (auto simp: sched_inv_def)
  then show ?thesis using keep(4) s by auto
qed

lemma own_byte_other:
  assumes ok: "tasks_ok bs ts st" and t: "t \<in> set ts" and x: "in_area t x" and o: "own_byte st x"
  shows "t = current st \<and> unat (current st) + 44 \<le> unat x"
proof -
  have hd: "kern_stack_top st - STACK_SIZE = hd ts" and tl: "\<And>t x. t \<in> set (tl ts) \<Longrightarrow> in_area t x \<Longrightarrow> in_use 0xE0000000 bs x"
    using ok by (auto simp: tasks_ok_def)
  show ?thesis
  proof (cases "unat (current st) + 44 \<le> unat x \<and> unat x < unat (current st) + 8192")
    case True
    then have "in_area (current st) x" by (simp add: in_area_def)
    then have "t = current st"
      using areas_apartD [OF tasks_okD(6) [OF ok] t tasks_okD(4) [OF ok]] x
      by (auto simp: apart_def in_area_def)
    then show ?thesis using True by simp
  next
    case False
    then have "unat x < 0xE0000000" "\<not> in_area (hd ts) x" using o hd by (auto simp: own_byte_def)
    moreover from this have "t \<in> set (tl ts)" using t x by (cases ts) auto
    ultimately show ?thesis
      using tl [OF _ x] in_use_above [OF tasks_okD(1) [OF ok], of x] by auto
  qed
qed

lemma work_step:
  fixes s s' :: "cpu \<times> 'a task_state_scheme"
  assumes inv: "sched_inv bs ts s" and step: "kernel_step Work s s'"
  shows "sched_inv bs ts s' \<and> current (snd s') = current (snd s)"
proof -
  from step obtain c st c' m where s: "s = (c, st)" "s' = (c', st\<lparr>mem := m\<rparr>)"
    and m: "\<And>x. \<not> own_byte st x \<Longrightarrow> m x = mem st x" and run: "running c' (current st)"
    by (rule workE) blast
  have ok: "tasks_ok bs ts st" and su: "\<And>t. t \<in> set ts \<Longrightarrow> t \<noteq> current st \<Longrightarrow> suspended (mem st) t"
    using inv by (auto simp: s sched_inv_def)
  have keep: "m x = mem st x" if "t \<in> set ts" "in_area t x" "t \<noteq> current st \<or> unat x < unat t + 44" for t x
    using own_byte_other [OF ok that(1,2)] that(3) by (intro m) auto
  have h: "heap_ok bs (st\<lparr>mem := m\<rparr>)"
  proof (rule heap_ok_payload [OF tasks_okD(1) [OF ok]])
    fix x :: u32
    assume "0xE0000000 \<le> unat x" "\<not> in_use 0xE0000000 bs x"
    then show "m x = mem st x"
      using task_byte [OF ok tasks_okD(4) [OF ok], of x]
      by (intro m) (auto simp: own_byte_def in_area_def)
  qed
  have nx: "next_of m t = next_of (mem st) t" if t: "t \<in> set ts" for t
    by (rule next_of_cong [OF mapped_bound [OF tasks_okD(8) [OF ok t]] keep [OF t]])
      (simp_all add: in_area_def)
  have "tasks_ok bs ts (st\<lparr>mem := m\<rparr>)"
    using tasks_okD(4,8) [OF ok] h nx by (intro tasks_ok_step [OF ok]) simp_all
  moreover have "suspended m t" if t: "t \<in> set ts" "t \<noteq> current st" for t
    using su [OF t] suspended_cong [OF tasks_okD(8) [OF ok t(1)], of m "mem st"] keep [OF t(1)] t(2)
    by (simp add: in_area_def)
  ultimately show ?thesis using run s by (simp add: sched_inv_def)
qed

section \<open>Runs\<close>

text \<open>The effect of one step on the ring and on the position of the current task in it.\<close>

definition advance :: "kernel_event \<Rightarrow> nat \<Rightarrow> nat \<Rightarrow> nat" where
  "advance e n i = (if e = Tick then Suc i mod n else i)"

lemma advance_less: "i < n \<Longrightarrow> advance e n i < n"
  by (auto simp: advance_def intro!: mod_less_divisor)

lemma step_position:
  assumes "kernel_step e s s'" and "sched_inv bs ts s" and "current (snd s) = ts ! i" and "i < length ts"
  shows "\<exists>bs' us. sched_inv bs' (ts @ us) s' \<and> length us = (if e = Spawn then 1 else 0) \<and>
    current (snd s') = ts ! advance e (length ts) i"
proof (cases e)
  case Tick
  have "ring (mem (snd s)) ts" using assms(2) by (simp add: sched_inv_def tasks_ok_def)
  from ring_nth [OF this assms(4)] tick_step [OF assms(2), of s'] assms(1,3) Tick
  show ?thesis by (intro exI [of _ bs] exI [of _ "[]"]) (simp add: advance_def)
next
  case Spawn
  then obtain bs' a where "sched_inv bs' (ts @ [a]) s'" "current (snd s') = current (snd s)"
    using spawn_step [OF assms(2), of s'] assms(1) by blast
  then show ?thesis using Spawn assms(3)
    by (intro exI [of _ bs'] exI [of _ "[a]"]) (simp add: advance_def)
next
  case Alloc
  then obtain bs' where "sched_inv bs' ts s'" "current (snd s') = current (snd s)"
    using alloc_step [OF assms(2), of s'] assms(1) by blast
  then show ?thesis using Alloc assms(3)
    by (intro exI [of _ bs'] exI [of _ "[]"]) (simp add: advance_def)
next
  case Work
  then show ?thesis using work_step [OF assms(2)] assms(1,3)
    by (intro exI [of _ bs] exI [of _ "[]"]) (simp add: advance_def)
qed

lemma kernel_run_inv:
  "kernel_run es s s' \<Longrightarrow> sched_inv bs ts s \<Longrightarrow>
    \<exists>bs' us. sched_inv bs' (ts @ us) s' \<and> length us = count_list es Spawn"
proof (induction es s s' arbitrary: bs ts rule: kernel_run.induct)
  case (stop s)
  then show ?case by (intro exI [of _ bs] exI [of _ "[]"]) simp
next
  case (go e s t es u)
  have "current (snd s) \<in> set ts" using go.prems by (simp add: sched_inv_def tasks_ok_def)
  then obtain i where "i < length ts" "current (snd s) = ts ! i" by (metis in_set_conv_nth)
  with step_position [OF go.hyps(1) go.prems] obtain bs' us where
    t: "sched_inv bs' (ts @ us) t" "length us = (if e = Spawn then 1 else 0)" by blast
  from go.IH [OF t(1)] obtain bs'' vs where
    "sched_inv bs'' ((ts @ us) @ vs) u" "length vs = count_list es Spawn" by blast
  with t(2) show ?case by (intro exI [of _ bs''] exI [of _ "us @ vs"]) simp
qed

text \<open>Without new threads, \<open>k\<close> ticks move the processor \<open>k\<close> places on in the ring.\<close>

lemma run_position:
  "kernel_run es s s' \<Longrightarrow> sched_inv bs ts s \<Longrightarrow> current (snd s) = ts ! i \<Longrightarrow> i < length ts \<Longrightarrow>
    Spawn \<notin> set es \<Longrightarrow> current (snd s') = ts ! ((i + count_list es Tick) mod length ts)"
proof (induction es s s' arbitrary: bs i rule: kernel_run.induct)
  case (stop s)
  then show ?case by simp
next
  case (go e s t es u)
  from step_position [OF go.hyps(1) go.prems(1-3)] go.prems(4) obtain bs' where
    t: "sched_inv bs' ts t" "current (snd t) = ts ! advance e (length ts) i" by auto
  have "advance e (length ts) i < length ts" using go.prems(3) by (rule advance_less)
  from go.IH [OF t this] go.prems(4) show ?case
    by (simp add: advance_def mod_add_left_eq [of "Suc i" "length ts", simplified])
qed

text \<open>Tasks wait for at most one round: the distance to a task shrinks with every tick and grows
  with every new thread only, when the task lies behind the current one.\<close>

definition wait :: "nat \<Rightarrow> nat \<Rightarrow> nat \<Rightarrow> nat" where
  "wait n i j = (if i \<le> j then j - i else n - i + j)"

lemma wait_step:
  assumes "i < n" and "j < n" and "i \<noteq> j"
  shows "Suc (wait n (advance Tick n i) j) = wait n i j"
    and "wait (n + 1) i j \<le> wait n i j + 1" and "e \<noteq> Tick \<Longrightarrow> advance e n i = i"
  using assms by (auto simp: wait_def advance_def mod_Suc)

lemma run_visits:
  "kernel_run es s s' \<Longrightarrow> sched_inv bs ts s \<Longrightarrow> current (snd s) = ts ! i \<Longrightarrow> i < length ts \<Longrightarrow>
    j < length ts \<Longrightarrow> wait (length ts) i j + count_list es Spawn \<le> count_list es Tick \<Longrightarrow>
    \<exists>es1 es2 s1. es = es1 @ es2 \<and> kernel_run es1 s s1 \<and> kernel_run es2 s1 s' \<and> current (snd s1) = ts ! j"
proof (induction es s s' arbitrary: bs ts i rule: kernel_run.induct)
  case (stop s)
  then have "i = j" by (auto simp: wait_def split: if_splits)
  then show ?case using stop.prems(2)
    by (intro exI [of _ "[]"] exI [of _ s]) (auto intro: kernel_run.stop)
next
  case (go e s t es u)
  show ?case
  proof (cases "i = j")
    case True
    then show ?thesis using go.hyps go.prems(2)
      by (intro exI [of _ "[]"] exI [of _ "e # es"] exI [of _ s]) (auto intro: kernel_run.intros)
  next
    case False
    note w = wait_step [OF go.prems(3,4) False]
    from step_position [OF go.hyps(1) go.prems(1-3)] obtain bs' us where
      t: "sched_inv bs' (ts @ us) t" "length us = (if e = Spawn then 1 else 0)"
        "current (snd t) = ts ! advance e (length ts) i" by blast
    have a: "advance e (length ts) i < length ts" using go.prems(3) by (rule advance_less)
    have "wait (length (ts @ us)) (advance e (length ts) i) j + count_list es Spawn \<le> count_list es Tick"
      using go.prems(5) t(2) w by (cases e) auto
    with go.IH [OF t(1), of "advance e (length ts) i"] a t(3) go.prems(4)
    obtain es1 es2 s1 where "es = es1 @ es2" "kernel_run es1 t s1" "kernel_run es2 s1 u"
      "current (snd s1) = ts ! j" by (auto simp: nth_append)
    then show ?thesis using go.hyps(1)
      by (intro exI [of _ "e # es1"] exI [of _ es2] exI [of _ s1]) (auto intro: kernel_run.go)
  qed
qed

section \<open>A concrete kernel\<close>

text \<open>The kernel stack and 4 MB from \<open>0xC0000000\<close> are mapped, eight pages are free, the heap is empty.\<close>

definition boot_state :: task_state where
  "boot_state = \<lparr>pmm_stack = (\<lambda>i. push_bit 12 i), pmm_stack_top = 8, phy_page_count = 8,
     pgd_kern = 0xC0110000, pte_kern = 0xC0120000, pgd = pgd (flat_space (\<lambda>_. 0)),
     ptab = ptab (flat_space (\<lambda>_. 0)), cr3 = 0x110000, mem = (\<lambda>_. 0), frame = (\<lambda>_. 0),
     heap_max = HEAP_START, heap_first = 0, now_pid = 0, running_proc_head = 0,
     wait_proc_head = 0, current = 0, kern_stack_top = 0xC0003000\<rparr>"

lemma boot_mapped:
  assumes "0xC0000000 \<le> unat a" and "unat a + n \<le> 0xC0400000"
  shows "mapped boot_state a n"
proof -
  have "translate boot_state x = translate (flat_space (\<lambda>_. 0)) x" for x
    by (simp add: translate_def walk_def boot_state_def) (simp add: flat_space_def)
  then show ?thesis using flat_space_mapped [OF assms, of "\<lambda>_. 0"] by (simp add: mapped_def)
qed

lemma boot_free: "free_pages boot_state =
    [0x8000, 0x7000, 0x6000, 0x5000, 0x4000, 0x3000, 0x2000, 0x1000]"
  by (simp add: free_pages_def boot_state_def upt_rec push_bit_eq_mult)

lemma boot_heap: "heap_ok [] boot_state"
proof -
  have t: "table boot_state d i = (if d = 0xC0110000 \<and> i = 768 then 0x120000 else 0)" for d i
    by (simp add: boot_state_def flat_space_def)
  have p: "pgd boot_state d i AND 1 = (if d = 0xC0110000 \<and> i = 768 then 1 else 0)" for d i
    by (simp add: boot_state_def flat_space_def)
  have e: "ptab boot_state 0x120000 i AND 1 \<noteq> 0" for i
  proof
    assume "ptab boot_state 0x120000 i AND 1 = 0"
    then have "\<not> bit (ptab boot_state 0x120000 i AND 1) 0" by simp
    then show False by (simp add: boot_state_def flat_space_def bit_simps)
  qed
  have "pmm_ok boot_state" by (simp add: pmm_ok_def boot_state_def)
  then have v: "vm_ok (pgd_kern boot_state) boot_state"
    by (intro vm_okI) (auto simp: t p e boot_free split: if_splits)
  have w: "walk boot_state (pgd_kern boot_state) x = None" if "0xE0000000 \<le> unat x" for x
  proof -
    have "unat (PGD_INDEX x) \<noteq> 768"
      using div_le_mono [OF that, of 4194304] by (simp add: unat_PGD_INDEX vpn_def div_mult2_eq [symmetric])
    then have "PGD_INDEX x \<noteq> 768" by auto
    then show ?thesis by (simp add: walk_def p)
  qed
  have "pages_ok 0 boot_state"
    unfolding pages_ok_def using v w by (auto simp: heap_frames_def boot_free) (auto simp: boot_state_def heap_page_def)
  then show ?thesis by (simp add: heap_ok_def) (simp add: boot_state_def)
qed

definition boot_cpu :: cpu where
  "boot_cpu = \<lparr>eip = 0, esp = 0xC0002F00, ebp = 0, ebx = 0, esi = 0, edi = 0, eax = 0, ecx = 0,
     eflags = 0x202\<rparr>"

lemma boot_sched:
  obtains st where "init_sched boot_state = Inr st" and "tasks_ok [] [0xC0001000] st"
    and "current st = 0xC0001000" and "free_pages st = free_pages boot_state"
    and "sched_inv [] [0xC0001000] (boot_cpu, st)"
proof -
  have k: "kern_stack_top boot_state = 0xC0003000" by (simp add: boot_state_def)
  obtain st where st: "init_sched boot_state = Inr st" "tasks_ok [] [0xC0001000] st"
      "current st = 0xC0001000" "free_pages st = free_pages boot_state"
    using init_sched_ok [OF boot_heap] boot_mapped [of "0xC0001000" 8192] by (auto simp: k)
  have "sched_inv [] [0xC0001000] (boot_cpu, st)"
    using st by (simp add: sched_inv_def running_def boot_cpu_def)
  with st show ?thesis by (rule that)
qed

text \<open>The same with a second thread, and two ticks: to that thread and back.\<close>

lemma boot_thread:
  obtains st st' a bs where "init_sched boot_state = Inr st"
    and "kernel_thread 0xC0100600 0xC0100500 7 st = Some (Inr (now_pid st, st'))"
    and "tasks_ok [] [0xC0001000] st" and "current st = 0xC0001000"
    and "kernel_run [Spawn] (boot_cpu, st) (boot_cpu, st')"
    and "sched_inv bs [0xC0001000, a] (boot_cpu, st')" and "current st' = 0xC0001000"
proof -
  obtain st where st: "init_sched boot_state = Inr st" "tasks_ok [] [0xC0001000] st"
      "current st = 0xC0001000" "free_pages st = free_pages boot_state"
      "sched_inv [] [0xC0001000] (boot_cpu, st)" by (rule boot_sched)
  have l: "length (free_pages st) = 8" by (simp add: st(4) boot_free)
  obtain st' where k: "kernel_thread 0xC0100600 0xC0100500 7 st = Some (Inr (now_pid st, st'))"
    using kernel_thread_ok [OF st(2), where ke = "0xC0100600" and fn = "0xC0100500" and arg = 7] l
    by (auto simp: page_count_def split: option.splits sum.splits)
  have "pages_ok 0 st" using tasks_okD(1) [OF st(2)] by (simp add: heap_ok_def page_count_def)
  then have "unat (heap_max st) = 0xE0000000" using pages_okD(4) [of 0 st] by (simp add: heap_page_def)
  then have s: "kernel_step Spawn (boot_cpu, st) (boot_cpu, st')"
    using k by (intro kernel_step.spawn) (simp_all add: st(3) running_def boot_cpu_def)
  obtain bs a where "sched_inv bs [0xC0001000, a] (boot_cpu, st')" "current st' = 0xC0001000"
    using spawn_step [OF st(5) s] st(3) by auto
  moreover have "kernel_run [Spawn] (boot_cpu, st) (boot_cpu, st')"
    using s by (auto intro: kernel_run.intros)
  ultimately show ?thesis using that st(1-3) k by blast
qed

lemma tick_to:
  fixes st :: "'a task_state_scheme"
  assumes "sched_inv bs ts (c, st)" and "has_room c (current st)" and "current st = ts ! i" and "i < length ts"
  obtains c' st' where "kernel_step Tick (c, st) (c', st')" and "sched_inv bs ts (c', st')"
    and "current st' = ts ! (Suc i mod length ts)"
proof -
  have "ring (mem st) ts" using assms(1) by (simp add: sched_inv_def tasks_ok_def)
  from schedule_step [OF assms(1,2), of 0] ring_nth [OF this assms(4)] assms(3)
  show ?thesis using that kernel_step.tick [OF assms(2), of 0] by auto
qed

text \<open>A ring of two tasks: the other one runs for a while and is preempted in turn.\<close>

lemma pair_runs:
  fixes st :: "'a task_state_scheme"
  assumes inv: "sched_inv bs [t, a] (c, st)" and t: "current st = t" and room: "has_room c t"
  shows "\<exists>s'. kernel_run [Tick, Work, Tick] (c, st) s'"
proof -
  have "has_room c (current st)" "current st = [t, a] ! 0" "0 < length [t, a]" using t room by simp_all
  then obtain c1 st1 where s1: "kernel_step Tick (c, st) (c1, st1)" "sched_inv bs [t, a] (c1, st1)" "current st1 = a"
    by (rule tick_to [OF inv]) simp
  define c2 where "c2 = c1\<lparr>esp := a + 4096\<rparr>"
  have "unat (a + 4096) = unat a + 4096"
    using task_bound [of bs "[t, a]" st1 a] s1(2) by (simp add: sched_inv_def unat_plus_small)
  then have c2: "running c2 (current st1)" "has_room c2 (current st1)"
    by (simp_all add: c2_def s1(3) running_def has_room_def)
  have "kernel_step Work (c1, st1) (c2, st1\<lparr>mem := mem st1\<rparr>)"
    by (rule kernel_step.work) (simp_all add: c2(1))
  then have s2: "kernel_step Work (c1, st1) (c2, st1)" by simp
  have i2: "sched_inv bs [t, a] (c2, st1)" using work_step [OF s1(2) s2] by simp
  obtain c3 st3 where "kernel_step Tick (c2, st1) (c3, st3)"
    by (rule tick_to [OF i2 c2(2), of 1]) (simp_all add: s1(3))
  with s1(1) s2 show ?thesis by (auto intro!: kernel_run.intros)
qed

section \<open>Properties\<close>

text \<open>C2: From \<open>init_sched\<close> on, in every run of ticks, thread creations, allocations and work of the
  running thread, the invariant holds: the heap is well formed, the tasks form a ring from
  \<open>running_proc_head\<close>, their areas are mapped and disjoint, \<open>current\<close> is in the ring with the
  stack pointer in its area, and every other task can be resumed. The ring has one task more
  than threads were created.\<close>

theorem scheduler_invariant:
  fixes st st0 :: "'a task_state_scheme"
  assumes "heap_ok bs st" and "8192 < unat (kern_stack_top st)" and "unat (kern_stack_top st) \<le> 0xE0000000"
    and "mapped st (kern_stack_top st - 8192) 8192"
    and "init_sched st = Inr st0" and "running c (current st0)" and "kernel_run es (c, st0) s"
  shows "\<exists>bs' ts. sched_inv bs' ts s \<and> length ts = Suc (count_list es Spawn) \<and>
    hd ts = kern_stack_top st - 8192"
proof -
  have "tasks_ok bs [kern_stack_top st - 8192] st0" "current st0 = kern_stack_top st - 8192"
    using init_sched_ok [OF assms(1-4)] assms(5) by simp_all
  then have "sched_inv bs [kern_stack_top st - 8192] (c, st0)"
    using assms(6) by (simp add: sched_inv_def)
  from kernel_run_inv [OF assms(7) this] obtain bs' us where
    "sched_inv bs' ([kern_stack_top st - 8192] @ us) s" "length us = count_list es Spawn" by blast
  then show ?thesis by (intro exI [of _ bs'] exI [of _ "[kern_stack_top st - 8192] @ us"]) simp
qed

theorem scheduler_invariant_witness:
  "\<exists>st0 s bs' ts. init_sched boot_state = Inr st0 \<and> kernel_run [Spawn] (boot_cpu, st0) s \<and>
    sched_inv bs' ts s \<and> length ts = Suc (count_list [Spawn] Spawn) \<and>
    hd ts = kern_stack_top boot_state - 8192"
proof -
  obtain st st' where st: "init_sched boot_state = Inr st" "current st = 0xC0001000"
    "kernel_run [Spawn] (boot_cpu, st) (boot_cpu, st')" by (rule boot_thread) blast
  have run: "running boot_cpu (current st)" by (simp add: st(2) running_def boot_cpu_def)
  have m: "mapped boot_state (kern_stack_top boot_state - 8192) 8192"
    using boot_mapped [of "0xC0001000" 8192] by (simp add: boot_state_def)
  have "8192 < unat (kern_stack_top boot_state)" "unat (kern_stack_top boot_state) \<le> 0xE0000000"
    by (simp_all add: boot_state_def)
  from scheduler_invariant [OF boot_heap this m st(1) run st(3)] st(1,3) show ?thesis by blast
qed

text \<open>A tick never faults and switches to the next task of the ring: when there is another
  one, the processor continues at the return address on top of its saved stack, with that
  address taken off, and the invariant holds again; the only task simply goes on.\<close>

theorem schedule_next:
  fixes st :: "'a task_state_scheme"
  assumes "sched_inv bs ts (c, st)" and "has_room c (current st)" and "current st = ts ! i" and "i < length ts"
  shows "\<exists>c' st'. schedule ret (c, st) = Inr (c', st') \<and> sched_inv bs ts (c', st') \<and>
    current st' = ts ! (Suc i mod length ts) \<and>
    (if length ts = 1 then c' = c \<and> st' = st
     else eip c' = load32 (mem st) (c_esp (load_context (mem st) (task_context (current st')))) \<and>
       esp c' = c_esp (load_context (mem st) (task_context (current st'))) + 4)"
proof -
  have ok: "tasks_ok bs ts st" using assms(1) by (simp add: sched_inv_def)
  have n: "next_of (mem st) (current st) = ts ! (Suc i mod length ts)"
    unfolding assms(3) by (rule ring_nth [OF tasks_okD(7) [OF ok] assms(4)])
  have "Suc i mod length ts < length ts" using assms(4) by (auto intro!: mod_less_divisor)
  moreover have "Suc i mod length ts = i \<longleftrightarrow> length ts = 1"
    using assms(4) by (auto simp: mod_Suc)
  ultimately have "next_of (mem st) (current st) = current st \<longleftrightarrow> length ts = 1"
    using nth_eq_iff_index_eq [OF areas_distinct [OF tasks_okD(6) [OF ok]]] assms(3,4) n by simp
  then show ?thesis using schedule_step [OF assms(1,2), of ret] n by auto
qed

theorem schedule_next_witness:
  "\<exists>bs a st c' st'. sched_inv bs [0xC0001000, a] (boot_cpu, st :: task_state) \<and> current st = 0xC0001000 \<and>
    schedule 0xC0101234 (boot_cpu, st) = Inr (c', st') \<and> sched_inv bs [0xC0001000, a] (c', st') \<and>
    current st' = [0xC0001000, a] ! (Suc 0 mod length [0xC0001000, a]) \<and>
    (if length [0xC0001000, a] = 1 then c' = boot_cpu \<and> st' = st
     else eip c' = load32 (mem st) (c_esp (load_context (mem st) (task_context (current st')))) \<and>
       esp c' = c_esp (load_context (mem st) (task_context (current st'))) + 4)"
proof -
  obtain bs a and st :: task_state where st: "sched_inv bs [0xC0001000, a] (boot_cpu, st)"
    "current st = 0xC0001000" by (rule boot_thread) blast
  have "has_room boot_cpu (current st)" "current st = [0xC0001000, a] ! 0" "0 < length [0xC0001000, a]"
    by (simp_all add: st(2) has_room_def boot_cpu_def)
  from schedule_next [OF st(1) this, of "0xC0101234"] st show ?thesis by blast
qed

text \<open>Round robin: as long as no thread is created, \<open>k\<close> ticks move the processor exactly \<open>k\<close>
  places on in the ring, whatever the threads do in between.\<close>

theorem round_robin:
  assumes "sched_inv bs ts s" and "current (snd s) = ts ! i" and "i < length ts"
    and "kernel_run es s s'" and "Spawn \<notin> set es"
  shows "current (snd s') = ts ! ((i + count_list es Tick) mod length ts)"
  by (rule run_position [OF assms(4,1-3,5)])

theorem round_robin_witness:
  "\<exists>a st s'. current st = 0xC0001000 \<and> kernel_run [Tick] (boot_cpu, st) s' \<and>
    current (snd s' :: task_state) = [0xC0001000, a] ! ((0 + count_list [Tick] Tick) mod length [0xC0001000, a])"
proof -
  obtain bs a and st :: task_state where st: "sched_inv bs [0xC0001000, a] (boot_cpu, st)"
    "current st = 0xC0001000" by (rule boot_thread) blast
  have h: "has_room boot_cpu (current st)" "current st = [0xC0001000, a] ! 0" "0 < length [0xC0001000, a]"
    by (simp_all add: st(2) has_room_def boot_cpu_def)
  then obtain c' st' where "kernel_step Tick (boot_cpu, st) (c', st')" by (rule tick_to [OF st(1)])
  then have k: "kernel_run [Tick] (boot_cpu, st) (c', st')" by (auto intro: kernel_run.intros)
  have "current (snd (boot_cpu, st)) = [0xC0001000, a] ! 0" "Spawn \<notin> set [Tick]" by (simp_all add: st(2))
  from round_robin [OF st(1) this(1) h(3) k this(2)] k st(2) show ?thesis by blast
qed

text \<open>C11: No task starves: in every run with at least as many ticks as the ring has tasks at the
  start and threads are created on the way, every task of the ring has its turn.\<close>

theorem every_task_runs:
  assumes "sched_inv bs ts s" and "t \<in> set ts" and "kernel_run es s s'"
    and "length ts + count_list es Spawn \<le> count_list es Tick"
  shows "\<exists>es1 es2 s1. es = es1 @ es2 \<and> kernel_run es1 s s1 \<and> kernel_run es2 s1 s' \<and> current (snd s1) = t"
proof -
  obtain j where j: "j < length ts" "t = ts ! j" using assms(2) by (metis in_set_conv_nth)
  have "current (snd s) \<in> set ts" using assms(1) by (simp add: sched_inv_def tasks_ok_def)
  then obtain i where i: "i < length ts" "current (snd s) = ts ! i" by (metis in_set_conv_nth)
  have "wait (length ts) i j \<le> length ts" using i j by (auto simp: wait_def)
  with assms(4) run_visits [OF assms(3,1) i(2,1) j(1)] j(2) show ?thesis by simp
qed

theorem every_task_runs_witness:
  "\<exists>a st s'. current (st :: task_state) = 0xC0001000 \<and> kernel_run [Tick, Work, Tick] (boot_cpu, st) s' \<and>
    (\<exists>es1 es2 s1. [Tick, Work, Tick] = es1 @ es2 \<and> kernel_run es1 (boot_cpu, st) s1 \<and>
      kernel_run es2 s1 s' \<and> current (snd s1) = a)"
proof -
  obtain bs a and st :: task_state where st: "sched_inv bs [0xC0001000, a] (boot_cpu, st)"
    "current st = 0xC0001000" by (rule boot_thread) blast
  have "has_room boot_cpu 0xC0001000" by (simp add: has_room_def boot_cpu_def)
  from pair_runs [OF st this] obtain s' where k: "kernel_run [Tick, Work, Tick] (boot_cpu, st) s'" by blast
  have "length [0xC0001000, a] + count_list [Tick, Work, Tick] Spawn \<le> count_list [Tick, Work, Tick] Tick"
    by simp
  from every_task_runs [OF st(1) _ k this, of a] k st(2) show ?thesis by (metis list.set_intros)
qed

text \<open>C16: \<open>kernel_thread\<close> always returns. Either it panics because the heap has no room, or it
  returns the next thread number and puts a new task behind the last one of the ring: runnable,
  with an empty context, its stack pointer at the three words \<open>fn\<close>, \<open>kthread_exit\<close>, \<open>arg\<close> on top
  of its own 8192 bytes, interrupts enabled in its flags. Its field \<open>stack\<close>, however, holds the
  address of the task that created it. Of the other tasks nothing changes but the \<open>next\<close>
  pointer of the last one.\<close>

theorem kernel_thread_appends:
  fixes st :: "'a task_state_scheme"
  assumes "tasks_ok bs ts st" and "8204 + total bs \<le> 0x1FFFF000"
  shows "case kernel_thread ke fn arg st of None \<Rightarrow> False
    | Some (Inl e) \<Rightarrow> e = Panic ''out of memory'' \<and> fit 8204 bs = None \<and>
        length (free_pages st) < 2 * (page_count (total bs + 8204) - page_count (total bs))
    | Some (Inr (pid, st')) \<Rightarrow> \<exists>a. pid = now_pid st \<and> now_pid st' = now_pid st + 1 \<and>
        current st' = current st \<and> kern_stack_top st' = kern_stack_top st \<and>
        tasks_ok (snd (heap_alloc 8204 bs)) (ts @ [a]) st' \<and>
        load32 (mem st') a = TASK_RUNNABLE \<and> load32 (mem st') (task_pid a) = pid \<and>
        load32 (mem st') (task_stack a) = current st \<and>
        load_context (mem st') (task_context a) = \<lparr>c_esp = a + 8180, c_ebp = 0, c_ebx = 0,
          c_esi = 0, c_edi = 0, c_eflags = 0x200\<rparr> \<and>
        load32 (mem st') (a + 8180) = fn \<and> load32 (mem st') (a + 8184) = ke \<and>
        load32 (mem st') (a + 8188) = arg \<and>
        (\<forall>t x. t \<in> set ts \<longrightarrow> in_area t x \<longrightarrow> \<not> (unat t + 40 \<le> unat x \<and> unat x < unat t + 44) \<longrightarrow>
          mem st' x = mem st x)"
  by (rule kernel_thread_ok [OF assms])

theorem kernel_thread_appends_witness:
  "\<exists>st st' a. init_sched boot_state = Inr st \<and>
    kernel_thread 0xC0100600 0xC0100500 7 st = Some (Inr (now_pid st, st')) \<and>
    tasks_ok (snd (heap_alloc 8204 [])) ([0xC0001000] @ [a]) st' \<and>
    load32 (mem st') (task_stack a) = 0xC0001000 \<and> load32 (mem st') (a + 8180) = 0xC0100500"
proof -
  obtain st st' where st: "init_sched boot_state = Inr st"
    "kernel_thread 0xC0100600 0xC0100500 7 st = Some (Inr (now_pid st, st'))"
    "tasks_ok [] [0xC0001000] st" "current st = 0xC0001000" by (rule boot_thread) blast
  have "8204 + total [] \<le> 0x1FFFF000" by simp
  from kernel_thread_appends [OF st(3) this, where ke = "0xC0100600" and fn = "0xC0100500" and arg = 7]
    st show ?thesis by auto
qed

text \<open>C17: The first switch to a new thread starts its function: right after \<open>kernel_thread\<close>, a
  switch to the new task continues at \<open>fn\<close> with \<open>kthread_exit\<close> as the return address on top of
  the stack and \<open>arg\<close> as the argument above it, on the thread's own stack and with interrupts
  enabled.\<close>

theorem thread_first_run:
  fixes st :: "'a task_state_scheme"
  assumes "sched_inv bs ts (c, st)" and "8204 + total bs \<le> 0x1FFFF000"
    and "kernel_thread ke fn arg st = Some (Inr (pid, st'))" and "has_room c (current st)"
  shows "\<exists>a c2 st2. tasks_ok (snd (heap_alloc 8204 bs)) (ts @ [a]) st' \<and>
    change_task_to ret a (c, st') = Inr (c2, st2) \<and> current st2 = a \<and>
    eip c2 = fn \<and> load32 (mem st2) (esp c2) = ke \<and> load32 (mem st2) (esp c2 + 4) = arg \<and>
    running c2 a \<and> bit (eflags c2) 9"
proof -
  have ok: "tasks_ok bs ts st" using assms(1) by (simp add: sched_inv_def)
  from kernel_thread_ok [OF ok assms(2), where ke = ke and fn = fn and arg = arg] assms(3) obtain a where
    a: "tasks_ok (snd (heap_alloc 8204 bs)) (ts @ [a]) st'" "current st' = current st"
      "load_context (mem st') (task_context a) = \<lparr>c_esp = a + 8180, c_ebp = 0, c_ebx = 0,
        c_esi = 0, c_edi = 0, c_eflags = 0x200\<rparr>"
      "load32 (mem st') (a + 8180) = fn" "load32 (mem st') (a + 8184) = ke" "load32 (mem st') (a + 8188) = arg"
    by auto
  have b: "unat a + 8192 < 4294967296" using task_bound [OF a(1), of a] by simp
  have u: "unat (a + 8180) = unat a + 8180" "unat (a + 8184) = unat a + 8184" "unat (a + 8188) = unat a + 8188"
    using b by (simp_all add: unat_plus_small)
  have su: "suspended (mem st') a" using a(3) u by (simp add: suspended_def)
  have cur: "current st \<in> set ts" by (rule tasks_okD(4) [OF ok])
  have ne: "current st' \<noteq> a" using areas_distinct [OF tasks_okD(6) [OF a(1)]] cur a(2) by auto
  have m: "mapped st' (current st') 8192" "mapped st' a 8192"
    using tasks_okD(8) [OF a(1)] cur a(2) by auto
  have ap: "apart (current st') 8192 a 8192"
    using areas_apartD [OF tasks_okD(6) [OF a(1)], of "current st'" a] cur a(2) ne by simp
  define S where "S = esp c - 16"
  define T where "T = c_esp (load_context (mem st') (task_context a)) - 4"
  have room: "has_room c (current st')" using assms(4) a(2) by simp
  note R = switch_room_tasks [OF m ap room su, folded S_def T_def]
  let ?m = "words.puts (mem st') (switch_stores c ret S (task_context (current st')) (task_context a) T 0x200)"
  note go = change_task_switch [OF R(1) refl refl ne R(2,3), of ret]
  have T: "T = a + 8176" by (simp add: T_def a(3))
  note sv = switch_saves(3) [OF R(1), where c = c and ret = ret and f = "0x200"]
  have keep: "?m x = mem st' x" if "unat a + 8180 \<le> unat x" "unat x < unat a + 8192" for x :: u32
  proof (rule sv)
    have t: "unat T + 4 = unat a + 8180" using R(7) by (simp add: a(3) u)
    have "within a x 1" using that by (simp add: within_def)
    moreover have "within (current st') (task_context (current st')) 24"
      using area_field(1) [OF m(1), of 16 24] by simp
    ultimately show "apart S 16 x 1" "apart (task_context (current st')) 24 x 1"
      using apart_within [OF ap R(5)] apart_within [OF ap] by blast+
    show "apart T 4 x 1" using t that unat_less_u32 [of x] by (simp add: apart_def)
  qed
  have w: "load32 ?m (a + of_nat i) = load32 (mem st') (a + of_nat i)" if "8180 \<le> i" "i + 4 \<le> 8192" for i
  proof (rule load32_cong)
    fix j :: nat
    assume "j < 4"
    then have "unat (a + of_nat (i + j)) = unat a + (i + j)"
      using that b by (intro unat_plus_of_nat_small) simp
    then have "?m (a + of_nat (i + j)) = mem st' (a + of_nat (i + j))"
      using that \<open>j < 4\<close> by (intro keep) linarith+
    then show "?m (a + of_nat i + of_nat j) = mem st' (a + of_nat i + of_nat j)" by (simp add: add.assoc)
  qed
  have T4: "T + 4 = a + 8180" "T + 8 = a + 8184" by (simp_all add: T add.commute)
  define c2 where "c2 = resumed (mem st') T (eflags c) (load_context (mem st') (task_context a))"
  have c2: "eip c2 = fn" "esp c2 = a + 8184" "eflags c2 = popf_flags 0x200"
    by (simp_all add: c2_def resumed_def T4 a(3,4))
  have "load32 ?m (esp c2) = ke" "load32 ?m (esp c2 + 4) = arg"
    using w [of 8184] w [of 8188] by (simp_all add: c2(2) a(5,6) add.assoc del: words.puts.simps)
  moreover have "running c2 a" using u(2) by (simp add: running_def c2(2))
  moreover have "bit (eflags c2) 9" by (simp add: c2(3) popf_flags_def)
  moreover have "change_task_to ret a (c, st') = Inr (c2, st'\<lparr>current := a, mem := ?m\<rparr>)"
    using go by (simp add: c2_def a(3) del: words.puts.simps)
  ultimately show ?thesis using a(1) c2(1)
    by (intro exI [of _ a] exI [of _ c2] exI [of _ "st'\<lparr>current := a, mem := ?m\<rparr>"]) simp
qed

theorem thread_first_run_witness:
  "\<exists>st st' a c2 st2. kernel_thread 0xC0100600 0xC0100500 7 st = Some (Inr (now_pid st, st')) \<and>
    change_task_to 0xC0101234 a (boot_cpu, st') = Inr (c2, st2 :: task_state) \<and> current st2 = a \<and>
    eip c2 = 0xC0100500 \<and> load32 (mem st2) (esp c2) = 0xC0100600 \<and> load32 (mem st2) (esp c2 + 4) = 7 \<and>
    running c2 a \<and> bit (eflags c2) 9"
proof -
  obtain st st' where st: "init_sched boot_state = Inr st"
    "kernel_thread 0xC0100600 0xC0100500 7 st = Some (Inr (now_pid st, st'))"
    "tasks_ok [] [0xC0001000] st" "current st = 0xC0001000" by (rule boot_thread) blast
  have "sched_inv [] [0xC0001000] (boot_cpu, st)" "has_room boot_cpu (current st)" "8204 + total [] \<le> 0x1FFFF000"
    using st(3,4) by (simp_all add: sched_inv_def running_def has_room_def boot_cpu_def)
  from thread_first_run [OF this(1,3) st(2) this(2), of "0xC0101234"] st(2) show ?thesis by blast
qed

end
