(* ===== verification/Preempt.thy ===== *)
theory Preempt
  imports Sched_Run
begin

text \<open>
  What a thread finds when it runs again: while other threads run, create threads and allocate,
  nothing of its stack and of its saved context changes, so the switch back to it is the
  return from the switch away. And what it finds the first time: the words \<^verbatim>\<open>kernel_thread\<close> has
  prepared, however long it waits for its turn.
\<close>

section \<open>The switch of a tick\<close>

text \<open>The bytes of a task but for its \<open>next\<close> pointer, which the creation of a thread may set.\<close>

definition task_private :: "u32 \<Rightarrow> u32 \<Rightarrow> bool" where
  "task_private t x \<longleftrightarrow> in_area t x \<and> \<not> (unat t + 40 \<le> unat x \<and> unat x < unat t + 44)"

lemma schedule_switch:
  fixes st :: "'a task_state_scheme"
  assumes inv: "sched_inv bs ts (c, st)" and room: "has_room c (current st)"
    and ne: "next_of (mem st) (current st) \<noteq> current st"
  defines "n \<equiv> next_of (mem st) (current st)" and "S \<equiv> esp c - 16"
    and "T \<equiv> c_esp (load_context (mem st) (task_context (next_of (mem st) (current st)))) - 4"
  shows "schedule ret (c, st) = Inr (resumed (mem st) T (eflags c) (load_context (mem st) (task_context n)),
      st\<lparr>current := n, mem := words.puts (mem st) (switch_stores c ret S (task_context (current st)) (task_context n) T
        (c_eflags (load_context (mem st) (task_context n))))\<rparr>)"
    and "switch_room st S (task_context (current st)) (task_context n) T"
    and "unat S + 16 = unat (esp c)" and "within (current st) S 16" and "within n T 8"
    and "unat T + 4 = unat (c_esp (load_context (mem st) (task_context n)))" and "n \<in> set ts"
    and "unat (current st) + 44 \<le> unat S"
proof -
  let ?t = "current st"
  have ok: "tasks_ok bs ts st"
    and su: "\<And>t. t \<in> set ts \<Longrightarrow> t \<noteq> ?t \<Longrightarrow> suspended (mem st) t"
    using inv by (simp_all add: sched_inv_def)
  note t = tasks_okD(4) [OF ok] and r = tasks_okD(7) [OF ok] and m = tasks_okD(8) [OF ok]
  show n: "n \<in> set ts" unfolding n_def by (rule ring_in [OF r t])
  have "mapped st (?t + 40) 4" using mapped_words [OF m [OF t], of 40] by simp
  moreover have "?t \<noteq> 0" using tasks_okD(5) [OF ok] t by auto
  ultimately have s: "schedule ret (c, st) = change_task_to ret n (c, st)"
    by (simp add: schedule_def word_access n_def next_of_def)
  have ne': "n \<noteq> ?t" using ne by (simp add: n_def)
  have ap: "apart ?t 8192 n 8192" using areas_apartD [OF tasks_okD(6) [OF ok] t n] ne' by simp
  note R = switch_room_tasks [OF m [OF t] m [OF n] ap room su [OF n ne'],
      folded S_def T_def [folded n_def]]
  show "schedule ret (c, st) = Inr (resumed (mem st) T (eflags c) (load_context (mem st) (task_context n)),
      st\<lparr>current := n, mem := words.puts (mem st) (switch_stores c ret S (task_context (current st)) (task_context n) T
        (c_eflags (load_context (mem st) (task_context n))))\<rparr>)"
    using change_task_switch [OF R(1) refl refl _ R(2,3), of ret] ne' s by simp
  show "switch_room st S (task_context (current st)) (task_context n) T" "unat S + 16 = unat (esp c)"
    "within (current st) S 16" "within n T 8" "unat T + 4 = unat (c_esp (load_context (mem st) (task_context n)))"
    by (fact R)+
  show "unat (current st) + 44 \<le> unat S" using R(4) room by (simp add: has_room_def)
qed

text \<open>Where the switch writes: below the stack pointer of the task it leaves, in the context of that
  task, and below the saved stack pointer of the task it enters.\<close>

lemma schedule_keeps:
  fixes st :: "'a task_state_scheme"
  assumes inv: "sched_inv bs ts (c, st)" and room: "has_room c (current st)"
    and go: "schedule ret (c, st) = Inr (c', st')" and x: "in_area t x" and t: "t \<in> set ts"
    and leave: "t = current st \<Longrightarrow> unat (esp c) \<le> unat x"
    and enter: "t = next_of (mem st) (current st) \<Longrightarrow>
      \<not> (unat (c_esp (load_context (mem st) (task_context t))) \<le> unat x + 4 \<and>
         unat x < unat (c_esp (load_context (mem st) (task_context t))))"
  shows "mem st' x = mem st x"
proof (cases "next_of (mem st) (current st) = current st")
  case True
  then show ?thesis using schedule_step [OF inv room, of ret] go by auto
next
  case False
  note s = schedule_switch [OF inv room False] and s1 = schedule_switch(1) [OF inv room False, of ret]
  have ok: "tasks_ok bs ts st" using inv by (simp add: sched_inv_def)
  let ?S = "esp c - 16" and ?n = "next_of (mem st) (current st)"
  let ?T = "c_esp (load_context (mem st) (task_context ?n)) - 4"
  have mt: "mapped st (current st) 8192" "mapped st ?n 8192"
    using tasks_okD(8) [OF ok] tasks_okD(4) [OF ok] s(7) by blast+
  have p: "within (current st) (task_context (current st)) 24" "unat (task_context (current st)) = unat (current st) + 16"
    using area_field [OF mt(1), of 16 24] by simp_all
  have w: "within t x 1" using x by (simp add: in_area_def within_def)
  have b: "unat ?S + 16 \<le> 4294967296" "unat ?T + 8 \<le> 4294967296"
    using s(2) by (simp_all add: switch_room_def mapped_def)
  have "apart ?S 16 x 1 \<and> apart (task_context (current st)) 24 x 1"
  proof (cases "t = current st")
    case True
    then show ?thesis
      using leave s(3,8) p(2) unat_less_u32 [of x] b(1) mapped_bound [OF mt(1)] by (auto simp: apart_def)
  next
    case f: False
    have "apart (current st) 8192 t 8192" using areas_apartD [OF tasks_okD(6) [OF ok] tasks_okD(4) [OF ok] t] f by simp
    then show ?thesis using apart_within s(4) p(1) w by blast
  qed
  moreover have "apart ?T 4 x 1"
  proof (cases "t = ?n")
    case True
    then show ?thesis using enter s(6) unat_less_u32 [of x] b(2) by (auto simp: apart_def)
  next
    case f: False
    have "apart ?n 8192 t 8192" using areas_apartD [OF tasks_okD(6) [OF ok] s(7) t] f by simp
    moreover have "within ?n ?T 4" using s(5) by (simp add: within_def)
    ultimately show ?thesis using apart_within w by blast
  qed
  ultimately show ?thesis
    using switch_saves(3) [OF s(2), where c = c and ret = ret and x = x] s1 go by auto
qed

section \<open>A sleeping thread keeps its memory\<close>

lemma step_keeps_sleeping:
  fixes s s' :: "cpu \<times> 'a task_state_scheme"
  assumes inv: "sched_inv bs ts s" and step: "kernel_step e s s'" and t: "t \<in> set ts"
    and away: "t \<noteq> current (snd s)" "t \<noteq> current (snd s')" and x: "task_private t x"
  shows "mem (snd s') x = mem (snd s) x"
proof -
  obtain c st where s: "s = (c, st)" by (cases s)
  have ok: "tasks_ok bs ts st" using inv by (simp add: s sched_inv_def)
  have a: "in_area t x" using x by (simp add: task_private_def)
  show ?thesis
  proof (cases e)
    case Tick
    with step s obtain ret where "has_room c (current st)" "schedule ret (c, st) = Inr s'" by (auto elim!: tickE)
    moreover have "current (snd s') = next_of (mem st) (current st)"
      using tick_step [OF inv] step Tick s by auto
    ultimately show ?thesis
      using schedule_keeps [of bs ts c st ret "fst s'" "snd s'" t x] inv t a away s by auto
  next
    case Spawn
    with step s obtain st' ke fn arg pid where n: "unat (heap_max st) + 8204 \<le> 0xFFFFF000"
      and k: "kernel_thread ke fn arg st = Some (Inr (pid, st'))" and s': "snd s' = st'"
      by (auto elim!: spawnE)
    have "8204 + total bs \<le> 0x1FFFF000" using n heap_max_total [OF tasks_okD(1) [OF ok]] by simp
    from kernel_thread_ok [OF ok this, where ke = ke and fn = fn and arg = arg] k s' s t x
    show ?thesis by (auto simp: task_private_def)
  next
    case Alloc
    with step s obtain st' n b where n: "unat (heap_max st) + unat n + 12 \<le> 0xFFFFF000"
      and k: "kmalloc n st = Some (Inr (b, st'))" and s': "snd s' = st'"
      by (auto elim!: allocE)
    have "unat n + 12 + total bs \<le> 0x1FFFF000" using n heap_max_total [OF tasks_okD(1) [OF ok]] by simp
    from alloc_keeps_tasks(2) [OF ok this k t a] s' s show ?thesis by simp
  next
    case Work
    with step have "kernel_step Work s s'" by simp
    then obtain c1 st1 c2 m where w: "s = (c1, st1)" "s' = (c2, st1\<lparr>mem := m\<rparr>)"
      and m: "\<And>x. \<not> own_byte st1 x \<Longrightarrow> m x = mem st1 x" by (rule workE) blast
    have "\<not> own_byte st x" using own_byte_other [OF ok t a] away s by auto
    then show ?thesis using m w s by simp
  qed
qed

text \<open>A run that the thread \<open>t\<close> sleeps through.\<close>

inductive slept ::
  "u32 \<Rightarrow> kernel_event list \<Rightarrow> cpu \<times> 'a task_state_scheme \<Rightarrow> cpu \<times> 'a task_state_scheme \<Rightarrow> bool" where
  stay: "current (snd s) \<noteq> t \<Longrightarrow> slept t [] s s"
| step: "current (snd s) \<noteq> t \<Longrightarrow> kernel_step e s u \<Longrightarrow> slept t es u v \<Longrightarrow> slept t (e # es) s v"

lemma slept_run: "slept t es s s' \<Longrightarrow> kernel_run es s s'"
  by (induction rule: slept.induct) (auto intro: kernel_run.intros)

lemma kernel_run_append: "kernel_run es s t \<Longrightarrow> kernel_run es' t u \<Longrightarrow> kernel_run (es @ es') s u"
  by (induction rule: kernel_run.induct) (auto intro: kernel_run.intros)

lemma slept_ends: "slept t es s s' \<Longrightarrow> current (snd s) \<noteq> t \<and> current (snd s') \<noteq> t"
  by (induction rule: slept.induct) auto

lemma slept_keeps:
  fixes s s' :: "cpu \<times> 'a task_state_scheme"
  shows "slept t es s s' \<Longrightarrow> sched_inv bs ts s \<Longrightarrow> t \<in> set ts \<Longrightarrow> task_private t x \<Longrightarrow> mem (snd s') x = mem (snd s) x"
proof (induction arbitrary: bs ts rule: slept.induct)
  case (step s t e u es v)
  have "mem (snd u) x = mem (snd s) x"
    using step_keeps_sleeping [OF step.prems(1) step.hyps(2) step.prems(2) _ _ step.prems(3)] step.hyps(1)
      slept_ends [OF step.hyps(3)] by metis
  moreover have "kernel_run [e] s u" using step.hyps(2) by (auto intro: kernel_run.intros)
  from kernel_run_inv [OF this step.prems(1)] obtain bs' us where "sched_inv bs' (ts @ us) u" by blast
  from step.IH [OF this] step.prems(2,3) have "mem (snd v) x = mem (snd u) x" by simp
  ultimately show ?case by simp
qed simp

section \<open>The switch back\<close>

lemma thread_resumes:
  fixes st :: "'a task_state_scheme"
  assumes inv: "sched_inv bs ts (c, st)" and room: "has_room c (current st)"
    and go: "schedule ret (c, st) = Inr s1" and slept: "slept (current st) es s1 (c2, st2)"
    and room2: "has_room c2 (current st2)" and nx: "next_of (mem st2) (current st2) = current st"
  shows "\<exists>c3 st3. schedule ret2 (c2, st2) = Inr (c3, st3) \<and> current st3 = current st \<and> eip c3 = ret \<and>
    esp c3 = esp c - 8 \<and> ebp c3 = ebp c \<and> ebx c3 = ebx c \<and> esi c3 = esi c \<and> edi c3 = edi c \<and>
    eflags c3 = popf_flags (eflags c) \<and> (\<exists>bs' us. sched_inv bs' (ts @ us) (c3, st3)) \<and>
    (\<forall>x. in_area (current st) x \<longrightarrow> unat (esp c) \<le> unat x \<longrightarrow> mem st3 x = mem st x)"
proof -
  let ?t = "current st" and ?S = "esp c - 16"
  let ?P = "task_context ?t"
  note run = slept_run [OF slept] and away = slept_ends [OF slept]
  have ok: "tasks_ok bs ts st" using inv by (simp add: sched_inv_def)
  note t = tasks_okD(4) [OF ok] and m = tasks_okD(8) [OF ok]
  obtain c1 st1 where s1: "s1 = (c1, st1)" by (cases s1)
  have i1: "sched_inv bs ts (c1, st1)" "current st1 = next_of (mem st) ?t"
    using schedule_step [OF inv room, of ret] go s1 by auto
  have ne: "next_of (mem st) ?t \<noteq> ?t"
    using away i1(2) s1 by simp
  note sw = schedule_switch [OF inv room ne]
  have st1: "mem st1 = words.puts (mem st) (switch_stores c ret ?S ?P (task_context (next_of (mem st) ?t))
      (c_esp (load_context (mem st) (task_context (next_of (mem st) ?t))) - 4)
      (c_eflags (load_context (mem st) (task_context (next_of (mem st) ?t)))))"
    using schedule_switch(1) [OF inv room ne, of ret] go s1 by auto
  note saved = switch_saves(1,2) [OF sw(2), where c = c and ret = ret and
      f = "c_eflags (load_context (mem st) (task_context (next_of (mem st) ?t)))", folded st1]
  have keep: "mem st2 x = mem st1 x" if "task_private ?t x" for x
    using slept_keeps [OF slept _ t that] i1(1) s1 by simp
  obtain bs' us where i2: "sched_inv bs' (ts @ us) (c2, st2)"
    using kernel_run_inv [OF run] i1(1) s1 by blast
  have tb: "unat ?t + 8192 < 4294967296" by (rule task_bound [OF ok t])
  have S: "unat ?S + 16 = unat (esp c)" "unat ?t + 44 \<le> unat ?S" "unat (esp c) \<le> unat ?t + 8192"
    using sw(3,8) room by (simp_all add: has_room_def)
  have ctx: "load_context (mem st2) ?P = \<lparr>c_esp = ?S + 4, c_ebp = ebp c, c_ebx = ebx c, c_esi = esi c,
      c_edi = edi c, c_eflags = pushf_image (eflags c)\<rparr>"
    using load_context_area [OF m [OF t], of "mem st2" "mem st1"] keep saved(1)
    by (simp add: task_private_def in_area_def)
  have S4: "unat (?S + 4) = unat ?S + 4" using S tb unat_plus_small [of ?S 4] by simp
  have r: "load32 (mem st2) (?S + 4) = ret"
  proof -
    have "load32 (mem st2) (?S + 4) = load32 (mem st1) (?S + 4)"
    proof (rule load32_cong)
      fix i :: nat
      assume "i < 4"
      then have "unat (?S + 4 + of_nat i) = unat ?S + 4 + i"
        using S S4 tb unat_plus_of_nat_small [of "?S + 4" i] by simp
      then show "mem st2 (?S + 4 + of_nat i) = mem st1 (?S + 4 + of_nat i)"
        using S \<open>i < 4\<close> by (intro keep) (simp add: task_private_def in_area_def)
    qed
    then show ?thesis using saved(2) by simp
  qed
  have ne2: "next_of (mem st2) (current st2) \<noteq> current st2"
    using away nx by auto
  define T where "T = c_esp (load_context (mem st2) (task_context (next_of (mem st2) (current st2)))) - 4"
  have T: "T = ?S" by (simp add: T_def nx ctx)
  obtain c3 st3 where g: "schedule ret2 (c2, st2) = Inr (c3, st3)" "current st3 = ?t"
      and c3: "c3 = resumed (mem st2) ?S (eflags c2) (load_context (mem st2) ?P)"
    using schedule_switch(1) [OF i2 room2 ne2, of ret2, folded T_def] unfolding T nx by simp
  have "mem st3 x = mem st x" if "in_area ?t x" "unat (esp c) \<le> unat x" for x
  proof -
    have "mem st3 x = mem st2 x"
    proof (rule schedule_keeps [OF i2 room2 g(1) that(1)])
      show "?t \<in> set (ts @ us)" using t by simp
      show "unat (esp c2) \<le> unat x" if "?t = current st2" using that nx ne2 by simp
      have "c_esp (load_context (mem st2) ?P) = ?S + 4" using ctx by simp
      then show "\<not> (unat (c_esp (load_context (mem st2) ?P)) \<le> unat x + 4 \<and>
          unat x < unat (c_esp (load_context (mem st2) ?P)))" using S(1) S4 that(2) by (simp only:) linarith
    qed
    also have "\<dots> = mem st1 x" using S that by (intro keep) (simp add: task_private_def)
    also have "\<dots> = mem st x"
      using schedule_keeps [OF inv room _ that(1) t, of ret c1 st1] go s1 that(2) ne by simp
    finally show ?thesis .
  qed
  moreover have "sched_inv bs' (ts @ us) (c3, st3)"
    using schedule_step [OF i2 room2, of ret2] g(1) by auto
  ultimately show ?thesis
    using g c3 ctx r by (intro exI [of _ c3] exI [of _ st3]) (auto simp: resumed_def popf_pushf)
qed

text \<open>A ring of two tasks: the other one runs for a while and is preempted in turn.\<close>

lemma pair_sleeps:
  fixes st :: "'a task_state_scheme"
  assumes inv: "sched_inv bs [t, a] (c, st)" and t: "current st = t" and room: "has_room c t"
    and go: "schedule ret (c, st) = Inr s1"
  shows "\<exists>c2 st2. slept t [Work] s1 (c2, st2) \<and> has_room c2 (current st2) \<and>
    next_of (mem st2) (current st2) = t"
proof -
  have nx: "next_of m ([t, a] ! i) = [t, a] ! (Suc i mod length [t, a])" if "ring m [t, a]" "i < 2" for m i
    using ring_nth [OF that(1), of i] that(2) by simp
  have ok: "tasks_ok bs [t, a] st" by (rule sched_invD(1) [OF inv])
  from nx [OF tasks_okD(7) [OF ok], of 0] have n: "next_of (mem st) (current st) = a" by (simp add: t)
  obtain c1 st1 where s1: "s1 = (c1, st1)" "sched_inv bs [t, a] (c1, st1)" "current st1 = a"
    using schedule_step [OF inv, of ret] go n room t by auto
  define c2 where "c2 = c1\<lparr>esp := a + 4096\<rparr>"
  have ok1: "tasks_ok bs [t, a] st1" by (rule sched_invD(1) [OF s1(2)])
  have "unat (a + 4096) = unat a + 4096" using task_bound [OF ok1, of a] by (simp add: unat_plus_small)
  then have c2: "running c2 (current st1)" "has_room c2 (current st1)"
    by (simp_all add: c2_def s1(3) running_def has_room_def)
  have "kernel_step Work (c1, st1) (c2, st1\<lparr>mem := mem st1\<rparr>)"
    by (rule kernel_step.work) (simp_all add: c2(1))
  then have w: "kernel_step Work s1 (c2, st1)" by (simp add: s1(1))
  have "a \<noteq> t" using areas_distinct [OF tasks_okD(6) [OF ok1]] by auto
  with w have "slept t [Work] s1 (c2, st1)" by (auto simp: s1(1,3) intro!: slept.intros)
  moreover have "next_of (mem st1) (current st1) = t"
    using nx [OF tasks_okD(7) [OF ok1], of 1] by (simp add: s1(3))
  ultimately show ?thesis using c2(2) by blast
qed

section \<open>The first switch to a thread\<close>

text \<open>What \<^verbatim>\<open>kernel_thread\<close> leaves in a new task: an empty context whose stack pointer is at the three
  words on top of the area.\<close>

definition prepared :: "u32 \<Rightarrow> u32 \<Rightarrow> u32 \<Rightarrow> u32 \<Rightarrow> bytes \<Rightarrow> bool" where
  "prepared ke fn arg a m \<longleftrightarrow> load_context m (task_context a) = \<lparr>c_esp = a + 8180, c_ebp = 0, c_ebx = 0,
     c_esi = 0, c_edi = 0, c_eflags = 0x200\<rparr> \<and>
   load32 m (a + 8180) = fn \<and> load32 m (a + 8184) = ke \<and> load32 m (a + 8188) = arg"

lemma prepared_words:
  assumes b: "unat a + 8192 < 4294967296" and i: "44 \<le> i" "i + 4 \<le> 8192"
    and k: "\<And>x. unat a + i \<le> unat x \<Longrightarrow> unat x < unat a + i + 4 \<Longrightarrow> m' x = m x"
  shows "load32 m' (a + of_nat i) = load32 m (a + of_nat i)"
proof (rule load32_cong)
  fix j :: nat
  assume "j < 4"
  then have "unat (a + of_nat (i + j)) = unat a + (i + j)" using b i by (intro unat_plus_of_nat_small) simp
  then show "m' (a + of_nat i + of_nat j) = m (a + of_nat i + of_nat j)"
    using k [of "a + of_nat (i + j)"] \<open>j < 4\<close> by (simp add: add.assoc)
qed

lemma slept_prepared:
  fixes s s' :: "cpu \<times> 'a task_state_scheme"
  assumes sl: "slept a es s s'" and inv: "sched_inv bs ts s" and a: "a \<in> set ts" and p: "prepared ke fn arg a (mem (snd s))"
  shows "prepared ke fn arg a (mem (snd s'))"
proof -
  have ok: "tasks_ok bs ts (snd s)" using inv by (simp add: sched_inv_def)
  have b: "unat a + 8192 < 4294967296" by (rule task_bound [OF ok a])
  have k: "mem (snd s') x = mem (snd s) x" if "task_private a x" for x by (rule slept_keeps [OF sl inv a that])
  have "load_context (mem (snd s')) (task_context a) = load_context (mem (snd s)) (task_context a)"
    by (rule load_context_area [OF tasks_okD(8) [OF ok a] k]) (simp add: task_private_def in_area_def)
  moreover have "load32 (mem (snd s')) (a + of_nat i) = load32 (mem (snd s)) (a + of_nat i)" if "44 \<le> i" "i + 4 \<le> 8192" for i
    by (rule prepared_words [OF b that k]) (use that in \<open>simp add: task_private_def in_area_def\<close>)
  note this [of 8180] this [of 8184] this [of 8188]
  ultimately show ?thesis using p by (simp add: prepared_def)
qed

text \<open>The tick that brings it to the processor.\<close>

lemma prepared_starts:
  fixes st :: "'a task_state_scheme"
  assumes inv: "sched_inv bs ts (c, st)" and p: "prepared ke fn arg a (mem st)" and ne: "current st \<noteq> a"
    and tick: "kernel_step Tick (c, st) (c2, st2)" and nx: "current st2 = a"
  shows "eip c2 = fn \<and> esp c2 = a + 8184 \<and> load32 (mem st2) (esp c2) = ke \<and> load32 (mem st2) (esp c2 + 4) = arg \<and>
    bit (eflags c2) 9"
proof -
  obtain ret where room: "has_room c (current st)" and go: "schedule ret (c, st) = Inr (c2, st2)"
    using tick by (auto elim!: tickE)
  have n: "next_of (mem st) (current st) = a" using tick_step [OF inv tick] nx by simp
  have ok: "tasks_ok bs ts st" by (rule sched_invD(1) [OF inv])
  have a: "a \<in> set ts" using schedule_switch(7) [OF inv room] n ne by auto
  have b: "unat a + 8192 < 4294967296" by (rule task_bound [OF ok a])
  have u: "unat (a + 8180) = unat a + 8180" using b by (simp add: unat_plus_small)
  have ctx: "load_context (mem st) (task_context a) = \<lparr>c_esp = a + 8180, c_ebp = 0, c_ebx = 0, c_esi = 0, c_edi = 0,
      c_eflags = 0x200\<rparr>" using p by (simp add: prepared_def)
  have c2: "eip c2 = fn" "esp c2 = a + 8184"
    using schedule_step [OF inv room, of ret] go n ne p by (auto simp: ctx prepared_def)
  have fl: "eflags c2 = popf_flags 0x200"
    using schedule_switch(1) [OF inv room, of ret] go n ne by (auto simp: ctx resumed_def)
  have k: "load32 (mem st2) (a + of_nat i) = load32 (mem st) (a + of_nat i)" if "8184 \<le> i" "i + 4 \<le> 8192" for i
  proof (rule prepared_words [OF b])
    fix x :: u32
    assume x: "unat a + i \<le> unat x" "unat x < unat a + i + 4"
    show "mem st2 x = mem st x"
      by (rule schedule_keeps [OF inv room go _ a]) (use x that ne n u in \<open>auto simp: in_area_def ctx\<close>)
  qed (use that in simp_all)
  show ?thesis using k [of 8184] k [of 8188] c2 fl p by (simp add: prepared_def popf_flags_def add.assoc)
qed

text \<open>A run that brings a thread to the processor does so by a tick, and before it the thread sleeps.\<close>

lemma first_turn:
  fixes s s' :: "cpu \<times> 'a task_state_scheme"
  shows "kernel_run es s s' \<Longrightarrow> sched_inv bs ts s \<Longrightarrow> current (snd s) \<noteq> t \<Longrightarrow> current (snd s') = t \<Longrightarrow>
    \<exists>es1 es2 u v. es = es1 @ Tick # es2 \<and> slept t es1 s u \<and> kernel_step Tick u v \<and> current (snd v) = t \<and> kernel_run es2 v s'"
proof (induction es s s' arbitrary: bs ts rule: kernel_run.induct)
  case (go e s v es u)
  show ?case
  proof (cases "current (snd v) = t")
    case True
    then have "e = Tick"
      using spawn_step [OF go.prems(1)] alloc_step [OF go.prems(1)] work_step [OF go.prems(1)] go.hyps(1) go.prems(2)
      by (cases e) auto
    with True go show ?thesis
      by (intro exI [of _ "[]"] exI [of _ es] exI [of _ s] exI [of _ v]) (auto intro: slept.intros)
  next
    case False
    have "kernel_run [e] s v" using go.hyps(1) by (auto intro: kernel_run.intros)
    from kernel_run_inv [OF this go.prems(1)] obtain bs' us where "sched_inv bs' (ts @ us) v" by blast
    from go.IH [OF this False go.prems(3)] obtain es1 es2 w x where
      "es = es1 @ Tick # es2" "slept t es1 v w" "kernel_step Tick w x" "current (snd x) = t" "kernel_run es2 x u" by blast
    with go.hyps(1) go.prems(2) show ?thesis
      by (intro exI [of _ "e # es1"] exI [of _ es2] exI [of _ w] exI [of _ x]) (auto intro: slept.intros)
  qed
qed simp

section \<open>Properties\<close>

text \<open>C4: A preempted thread goes on as if nothing had happened. A tick switches away from it, then
  other threads run, create threads and allocate, in any order and as long as they like, and at
  last a tick switches back to it: it continues at the point behind its call of \<^verbatim>\<open>switch_to\<close>,
  with \<open>ebp\<close>, \<open>ebx\<close>, \<open>esi\<close>, \<open>edi\<close> and the flags it had, its stack pointer as it was with the two
  arguments still to be removed, and every byte of its stack unchanged. So the frame of the interrupt
  that preempted it is intact, as \<open>interrupt_transparent\<close> of \<open>Stubs\<close> asks.\<close>

theorem preempted_thread_resumes:
  fixes st :: "'a task_state_scheme"
  assumes inv: "sched_inv bs ts (c, st)" and room: "has_room c (current st)" and flags: "popf_flags (eflags c) = eflags c"
    and go: "schedule ret (c, st) = Inr s1" and slept: "slept (current st) es s1 (c2, st2)"
    and room2: "has_room c2 (current st2)" and nx: "next_of (mem st2) (current st2) = current st"
  shows "\<exists>c3 st3. schedule ret2 (c2, st2) = Inr (c3, st3) \<and> current st3 = current st \<and> eip c3 = ret \<and>
    esp c3 = esp c - 8 \<and> ebp c3 = ebp c \<and> ebx c3 = ebx c \<and> esi c3 = esi c \<and> edi c3 = edi c \<and>
    eflags c3 = eflags c \<and>
    (\<forall>x. in_area (current st) x \<longrightarrow> unat (esp c) \<le> unat x \<longrightarrow> mem st3 x = mem st x)"
  using thread_resumes [OF inv room go slept room2 nx, of ret2] unfolding flags by blast

theorem preempted_thread_resumes_witness:
  "\<exists>st s1 c2 st2 c3 st3. schedule 0xC0101234 (boot_cpu, st :: task_state) = Inr s1 \<and> kernel_run [Work] s1 (c2, st2) \<and>
    schedule 0xC0101234 (c2, st2) = Inr (c3, st3) \<and> current st3 = current st \<and> eip c3 = 0xC0101234 \<and>
    esp c3 = 0xC0002EF8"
proof -
  obtain bs a and st :: task_state where st: "sched_inv bs [0xC0001000, a] (boot_cpu, st)"
    "current st = 0xC0001000" by (rule boot_thread) blast
  have room: "has_room boot_cpu (current st)" by (simp add: st(2) has_room_def boot_cpu_def)
  obtain s1 where s1: "schedule 0xC0101234 (boot_cpu, st) = Inr s1"
    using schedule_step [OF st(1) room, of "0xC0101234"] by blast
  from pair_sleeps [OF st(1,2) room [unfolded st(2)] s1] obtain c2 st2
    where r: "slept (current st) [Work] s1 (c2, st2)" "has_room c2 (current st2)" "next_of (mem st2) (current st2) = current st" by (auto simp: st(2))
  have f: "popf_flags (eflags boot_cpu) = eflags boot_cpu" by (simp add: boot_cpu_def popf_flags_def)
  have "\<exists>c3 st3. schedule 0xC0101234 (c2, st2) = Inr (c3, st3) \<and> current st3 = current st \<and> eip c3 = 0xC0101234 \<and>
      esp c3 = esp boot_cpu - 8"
    using preempted_thread_resumes [OF st(1) room f s1 r, of "0xC0101234"] by blast
  then obtain c3 st3 where "schedule 0xC0101234 (c2, st2) = Inr (c3, st3)" "current st3 = current st" "eip c3 = 0xC0101234"
    "esp c3 = esp boot_cpu - 8" by blast
  moreover have "esp boot_cpu - 8 = 0xC0002EF8" by (simp add: boot_cpu_def)
  ultimately show ?thesis using s1 slept_run [OF r(1)] by metis
qed

end
