(* ===== verification/Idt.thy ===== *)
theory Idt
  imports Gdt Printk
begin

text \<open>
  Interrupts: \<^verbatim>\<open>idt/idt.c\<close>, \<^verbatim>\<open>include/idt.h\<close> and \<^verbatim>\<open>idt_flush\<close>; the stubs of \<^verbatim>\<open>idt/idt_s.s\<close> are in
  \<open>Stubs\<close>. The addresses of the
  stubs and of the handlers are chosen by the linker and are parameters, and so is \<open>call\<close>, what
  the function at an address does. A null pointer is the address 0.
\<close>

section \<open>State\<close>

record idt_entry =
  base_lo :: u16
  sel :: u16
  always0 :: u8
  flags :: u8
  base_hi :: u16

record idt_ptr =
  idt_ptr_limit :: u16
  idt_ptr_base :: u32

record idt_state =
  idt_entries :: "idt_entry list"
  idt_ptr_var :: idt_ptr
  idtr :: idt_ptr
  interrupt_handlers :: "u32 list"

text \<open>What the stubs and the processor leave on the stack, from the lowest address.\<close>

record pt_regs =
  r_ds :: u32
  r_edi :: u32
  r_esi :: u32
  r_ebp :: u32
  r_esp :: u32
  r_ebx :: u32
  r_edx :: u32
  r_ecx :: u32
  r_eax :: u32
  r_int_no :: u32
  r_err_code :: u32
  r_eip :: u32
  r_cs :: u32
  r_eflags :: u32
  r_user_esp :: u32
  r_ss :: u32

definition zero_entry :: idt_entry where
  "zero_entry = \<lparr>base_lo = 0, sel = 0, always0 = 0, flags = 0, base_hi = 0\<rparr>"

definition IRQ0 :: u8 where [simp]: "IRQ0 = 32"

section \<open>Operations\<close>

definition register_interrupt_handler :: "u8 \<Rightarrow> u32 \<Rightarrow> idt_state \<Rightarrow> idt_state" where
  "register_interrupt_handler num func st =
     st\<lparr>interrupt_handlers := (interrupt_handlers st)[unat num := func]\<rparr>"

definition idt_set_gate :: "u8 \<Rightarrow> u32 \<Rightarrow> u16 \<Rightarrow> u8 \<Rightarrow> idt_state \<Rightarrow> idt_state" where
  "idt_set_gate num bas s f st =
     st\<lparr>idt_entries := (idt_entries st)[unat num := \<lparr>base_lo = ucast (bas AND 0xffff), sel = s, always0 = 0,
       flags = f, base_hi = ucast (drop_bit 16 bas AND 0xffff)\<rparr>]\<rparr>"

definition init_8259APIC :: "'a port_state_scheme \<Rightarrow> 'a port_state_scheme" where
  "init_8259APIC st =
     (let st = outb 0x20 0x11 st; st = outb 0xA0 0x11 st;
          st = outb 0x21 0x20 st; st = outb 0xA1 0x28 st;
          st = outb 0x21 0x04 st; st = outb 0xA1 0x02 st;
          st = outb 0x21 0x01 st; st = outb 0xA1 0x01 st;
          st = outb 0x21 0x0 st in outb 0xA1 0x0 st)"

text \<open>The gates in the order they are set.\<close>

definition gates :: "(nat \<Rightarrow> u32) \<Rightarrow> (nat \<Rightarrow> u32) \<Rightarrow> (u8 \<times> u32) list" where
  "gates isr irq = map (\<lambda>i. (of_nat i, isr i)) [0..<32] @ map (\<lambda>i. (of_nat (32 + i), irq i)) [0..<16] @
     [(255, isr 255)]"

definition idt_flush :: "idt_state \<Rightarrow> idt_state" where
  "idt_flush st = st\<lparr>idtr := idt_ptr_var st\<rparr>"

definition init_idt ::
  "(nat \<Rightarrow> u32) \<Rightarrow> (nat \<Rightarrow> u32) \<Rightarrow> u32 \<Rightarrow> idt_state \<times> 'a port_state_scheme \<Rightarrow> idt_state \<times> 'a port_state_scheme" where
  "init_idt isr irq idt_addr = (\<lambda>(st, io).
     (let io = init_8259APIC io;
          st = st\<lparr>interrupt_handlers := replicate 256 0\<rparr>;
          st = st\<lparr>idt_ptr_var := \<lparr>idt_ptr_limit = 8 * 256 - 1, idt_ptr_base = idt_addr\<rparr>\<rparr>;
          st = st\<lparr>idt_entries := replicate 256 zero_entry\<rparr>;
          st = fold (\<lambda>(n, a). idt_set_gate n a 0x08 0x8E) (gates isr irq) st
      in (idt_flush st, io)))"

text \<open>
  The handlers run on the state \<open>'m\<close> of the machine and on the ports and the console. An
  interrupt number from 256 on would read past the table; the stubs push numbers below.
\<close>

type_synonym ('m, 'a) handler = "pt_regs \<Rightarrow> 'm \<times> 'a console_state_scheme \<Rightarrow> ('m \<times> 'a console_state_scheme) res"

definition handler_at :: "idt_state \<Rightarrow> pt_regs \<Rightarrow> u32 res" where
  "handler_at st regs = (if unat (r_int_no regs) < length (interrupt_handlers st)
     then Inr (interrupt_handlers st ! unat (r_int_no regs)) else Inl (Undefined ''interrupt_handlers''))"

definition isr_handler :: "(u32 \<Rightarrow> ('m, 'a) handler) \<Rightarrow> idt_state \<Rightarrow> ('m, 'a) handler" where
  "isr_handler call st regs = (\<lambda>(m, io).
     bindE (handler_at st regs) (\<lambda>h.
     if h \<noteq> 0 then call h regs (m, io)
     else bindE (printk_color rc_black rc_blue (''Unhandled interrupt: %d'' @ [CHR 0x0A]) [Num (r_int_no regs)] io)
       (\<lambda>io. Inr (m, io))))"

definition irq_handler :: "(u32 \<Rightarrow> ('m, 'a) handler) \<Rightarrow> idt_state \<Rightarrow> ('m, 'a) handler" where
  "irq_handler call st regs = (\<lambda>(m, io).
     let io = (if 40 \<le> r_int_no regs then outb 0xA0 0x20 io else io);
         io = outb 0x20 0x20 io in
     bindE (handler_at st regs) (\<lambda>h. if h \<noteq> 0 then call h regs (m, io) else Inr (m, io)))"

section \<open>The devices' and the processor's view\<close>

text \<open>A gate as the processor decodes an entry.\<close>

record gate =
  gate_offset :: u32
  gate_selector :: u16
  gate_present :: bool
  gate_dpl :: nat
  gate_type :: u8

definition gate_of :: "idt_entry \<Rightarrow> gate" where
  "gate_of e = \<lparr>gate_offset = ucast (base_lo e) OR push_bit 16 (ucast (base_hi e)), gate_selector = sel e,
     gate_present = bit (flags e) 7, gate_dpl = unat (drop_bit 5 (flags e) AND 3), gate_type = flags e AND 0x1f\<rparr>"

text \<open>
  The 8259A as its manual describes the initialisation: a command with bit 4 starts it and
  clears the mask; the next three bytes on the data port are the vector base, the cascade
  wiring and the mode; after them the data port is the mask.
\<close>

record pic =
  icw :: nat
  vector_base :: u8
  cascade :: u8
  mode_8086 :: bool
  irq_mask :: u8

definition pic_command :: "u8 \<Rightarrow> pic \<Rightarrow> pic" where
  "pic_command v p = (if bit v 4 then p\<lparr>icw := 1, irq_mask := 0\<rparr> else p)"

definition pic_data :: "u8 \<Rightarrow> pic \<Rightarrow> pic" where
  "pic_data v p = (if icw p = 1 then p\<lparr>icw := 2, vector_base := v AND 0xf8\<rparr>
     else if icw p = 2 then p\<lparr>icw := 3, cascade := v\<rparr>
     else if icw p = 3 then p\<lparr>icw := 0, mode_8086 := bit v 0\<rparr>
     else p\<lparr>irq_mask := v\<rparr>)"

definition pics_write :: "u16 \<times> u8 \<Rightarrow> pic \<times> pic \<Rightarrow> pic \<times> pic" where
  "pics_write = (\<lambda>(port, v) (m, s).
     if port = 0x20 then (pic_command v m, s) else if port = 0x21 then (pic_data v m, s)
     else if port = 0xA0 then (m, pic_command v s) else if port = 0xA1 then (m, pic_data v s) else (m, s))"

text \<open>The vector of an interrupt line, 8 to 15 being those of the second chip.\<close>

definition irq_vector :: "pic \<times> pic \<Rightarrow> nat \<Rightarrow> u8" where
  "irq_vector = (\<lambda>(m, s) i. if i < 8 then vector_base m + of_nat i else vector_base s + of_nat (i - 8))"

section \<open>Setting gates\<close>

lemma gate_of_set:
  fixes bas :: u32
  shows
  "gate_of \<lparr>base_lo = ucast (bas AND 0xffff), sel = s, always0 = z, flags = f, base_hi = ucast (drop_bit 16 bas AND 0xffff)\<rparr> =
    \<lparr>gate_offset = bas, gate_selector = s, gate_present = bit f 7, gate_dpl = unat (drop_bit 5 f AND 3),
     gate_type = f AND 0x1f\<rparr>"
proof -
  have "ucast (ucast (bas AND 0xffff) :: u16) OR push_bit 16 (ucast (ucast (drop_bit 16 bas AND 0xffff) :: u16)) = bas"
  proof (rule bit_word_eqI)
    fix n
    assume n: "n < LENGTH(32)"
    show "bit (ucast (ucast (bas AND 0xffff) :: u16) OR
        push_bit 16 (ucast (ucast (drop_bit 16 bas AND 0xffff) :: u16)) :: u32) n = bit bas n"
      by (cases "16 \<le> n") (use n in \<open>auto simp: mask_words bit_simps\<close>)
  qed
  then show ?thesis by (simp add: gate_of_def)
qed

lemma set_gates:
  "idt_entries (fold (\<lambda>(n, a). idt_set_gate n a s f) gs st) =
    fold (\<lambda>(n, a) es. es[unat n := \<lparr>base_lo = ucast (a AND 0xffff), sel = s, always0 = 0, flags = f,
      base_hi = ucast (drop_bit 16 a AND 0xffff)\<rparr>]) gs (idt_entries st)"
  by (induction gs arbitrary: st) (auto simp: idt_set_gate_def)

lemma fold_update_length: "length (fold (\<lambda>(n, a) es. es[unat n := g a]) gs es) = length es"
  by (induction gs arbitrary: es) auto

lemma fold_update_other:
  "k \<notin> unat ` fst ` set gs \<Longrightarrow> fold (\<lambda>(n, a) es. es[unat n := g a]) gs es ! k = es ! k"
  by (induction gs arbitrary: es) auto

lemma fold_update_nth:
  "distinct (map fst gs) \<Longrightarrow> \<forall>n \<in> fst ` set gs. unat n < length es \<Longrightarrow> (n, a) \<in> set gs \<Longrightarrow>
    fold (\<lambda>(n, a) es. es[unat n := g a]) gs es ! unat n = g a"
proof (induction gs arbitrary: es)
  case Nil
  then show ?case by simp
next
  case (Cons p gs)
  obtain m b where p: "p = (m, b)" by (cases p)
  show ?case
  proof (cases "(n, a) = p")
    case True
    have "unat m \<notin> unat ` fst ` set gs"
      using Cons.prems(1) by (auto simp: p word_unat_eq_iff image_iff)
    then show ?thesis using fold_update_other [of "unat m" gs g "es[unat m := g b]"] Cons.prems(2) True p by simp
  next
    case False
    then show ?thesis using Cons.IH [of "es[unat m := g b]"] Cons.prems by (auto simp: p)
  qed
qed

lemma init_8259APIC_log:
  "port_log (init_8259APIC io) = port_log io @ [(0x20, 0x11), (0xA0, 0x11), (0x21, 0x20), (0xA1, 0x28),
     (0x21, 0x04), (0xA1, 0x02), (0x21, 0x01), (0xA1, 0x01), (0x21, 0), (0xA1, 0)]"
  by (simp add: init_8259APIC_def outb_def)

lemma gates_distinct: "distinct (map fst (gates isr irq))"
proof -
  have "distinct (map (of_nat :: nat \<Rightarrow> u8) [0..<32] @ map (\<lambda>i. of_nat (32 + i)) [0..<16] @ [255])"
    by code_simp
  moreover have "map fst (gates isr irq) =
      map (of_nat :: nat \<Rightarrow> u8) [0..<32] @ map (\<lambda>i. of_nat (32 + i)) [0..<16] @ [255]"
    by (simp add: gates_def comp_def)
  ultimately show ?thesis by (simp only:)
qed

lemma gates_vectors: "unat ` fst ` set (gates isr irq) = {..<48} \<union> {255}"
proof -
  have "fst ` set (gates isr irq) = set (map (of_nat :: nat \<Rightarrow> u8) [0..<48] @ [255])"
  proof -
    have "map fst (gates isr irq) = map (of_nat :: nat \<Rightarrow> u8) [0..<48] @ [255]"
      by (simp add: gates_def comp_def) (code_simp)
    then show ?thesis by (metis list.set_map)
  qed
  moreover have "unat ` set (map (of_nat :: nat \<Rightarrow> u8) [0..<48] @ [255]) = {..<48} \<union> {255}"
  proof -
    have "map unat (map (of_nat :: nat \<Rightarrow> u8) [0..<48] @ [255]) = [0..<48] @ [255]" by code_simp
    then have "set (map unat (map (of_nat :: nat \<Rightarrow> u8) [0..<48] @ [255])) = set ([0..<48] @ [255])"
      by (simp only:)
    then show ?thesis by (simp only: set_map) auto
  qed
  ultimately show ?thesis by (simp only:)
qed

text \<open>The table after \<open>init_idt\<close>.\<close>

definition idt_after :: "(nat \<Rightarrow> u32) \<Rightarrow> (nat \<Rightarrow> u32) \<Rightarrow> idt_entry list" where
  "idt_after isr irq = fold (\<lambda>(n, a) es. es[unat n := \<lparr>base_lo = ucast (a AND 0xffff), sel = 8, always0 = 0,
     flags = 0x8E, base_hi = ucast (drop_bit 16 a AND 0xffff)\<rparr>]) (gates isr irq) (replicate 256 zero_entry)"

lemma init_idt_entries: "idt_entries (fst (init_idt isr irq a (st, io))) = idt_after isr irq"
  by (simp add: init_idt_def Let_def idt_flush_def set_gates idt_after_def)

lemma zero_entry_absent: "gate_present (gate_of zero_entry) = False"
  by (simp add: gate_of_def zero_entry_def)

lemma idt_after_gates:
  fixes k :: nat
  shows "length (idt_after isr irq) = 256"
    and "(n, a) \<in> set (gates isr irq) \<Longrightarrow> gate_of (idt_after isr irq ! unat n) =
      \<lparr>gate_offset = a, gate_selector = 8, gate_present = True, gate_dpl = 0, gate_type = 0xE\<rparr>"
    and "k < 256 \<Longrightarrow> k \<notin> {..<48} \<union> {255} \<Longrightarrow> \<not> gate_present (gate_of (idt_after isr irq ! k))"
proof -
  let ?g = "\<lambda>a. \<lparr>base_lo = ucast (a AND 0xffff), sel = 8, always0 = 0, flags = 0x8E,
    base_hi = ucast (drop_bit 16 a AND 0xffff)\<rparr> :: idt_entry" and ?z = "replicate 256 zero_entry"
  have b: "\<forall>n \<in> fst ` set (gates isr irq). unat n < length ?z"
    using unsigned_less [where 'b = 8 and 'a = nat] by simp
  show "length (idt_after isr irq) = 256" by (simp add: idt_after_def fold_update_length)
  show "gate_of (idt_after isr irq ! unat n) =
      \<lparr>gate_offset = a, gate_selector = 8, gate_present = True, gate_dpl = 0, gate_type = 0xE\<rparr>"
    if "(n, a) \<in> set (gates isr irq)"
    using fold_update_nth [OF gates_distinct b that, where g = ?g] gate_of_set [of a 8 0 "0x8E"]
    by (simp add: idt_after_def)
  show "\<not> gate_present (gate_of (idt_after isr irq ! k))"
    if "k < 256" "k \<notin> {..<48} \<union> {255}"
  proof -
    have "k \<notin> unat ` fst ` set (gates isr irq)" using that(2) by (simp add: gates_vectors)
    then have "idt_after isr irq ! k = zero_entry"
      using that(1) by (simp add: idt_after_def fold_update_other)
    then show ?thesis by (simp only: zero_entry_absent not_False_eq_True)
  qed
qed

lemma map_zip_eq:
  assumes "length xs = length ys" and "\<And>x y. (x, y) \<in> set (zip xs ys) \<Longrightarrow> f x = g y"
  shows "map f xs = map g ys"
  using assms by (induction xs ys rule: list_induct2) auto

lemma zip_blocks:
  "zip ([0..<m] @ map (\<lambda>i. m + i) [0..<n] @ [k]) (map f [0..<m] @ map g [0..<n] @ [f k]) =
    map (\<lambda>i. (i, f i)) [0..<m] @ map (\<lambda>i. (m + i, g i)) [0..<n] @ [(k, f k)]"
  by (simp add: zip_append zip_map1 zip_map2 zip_same_conv_map comp_def)

lemma set_gates_handlers:
  "interrupt_handlers (fold (\<lambda>(n, a). idt_set_gate n a s f) gs st) = interrupt_handlers st"
  by (induction gs arbitrary: st) (auto simp: idt_set_gate_def)

lemma init_idt_log:
  "drop (length (port_log io)) (port_log (snd (init_idt isr irq a (st, io)))) =
    [(0x20, 0x11), (0xA0, 0x11), (0x21, 0x20), (0xA1, 0x28), (0x21, 0x04), (0xA1, 0x02), (0x21, 0x01),
     (0xA1, 0x01), (0x21, 0), (0xA1, 0)]"
  by (simp add: init_idt_def Let_def init_8259APIC_log)

lemma init_idt_handlers: "interrupt_handlers (fst (init_idt isr irq a (st, io))) = replicate 256 0"
  by (simp add: init_idt_def Let_def idt_flush_def set_gates_handlers)

lemma pics_programmed:
  assumes "ms = fold pics_write [(0x20, 0x11), (0xA0, 0x11), (0x21, 0x20), (0xA1, 0x28), (0x21, 0x04),
      (0xA1, 0x02), (0x21, 0x01), (0xA1, 0x01), (0x21, 0), (0xA1, 0)] ms0"
  shows "irq_mask (fst ms) = 0 \<and> irq_mask (snd ms) = 0 \<and> icw (fst ms) = 0 \<and> icw (snd ms) = 0 \<and>
    vector_base (fst ms) = 0x20 \<and> vector_base (snd ms) = 0x28"
  unfolding assms by (cases ms0) (simp add: pics_write_def pic_command_def pic_data_def)

lemma irq_vectors:
  assumes "vector_base (fst ms) = 0x20" and "vector_base (snd ms) = 0x28"
  shows "map (\<lambda>i. unat (irq_vector ms i)) [0..<16] = map (\<lambda>i. 32 + i) [0..<16]"
  using assms by (cases ms) (simp add: irq_vector_def upt_rec)

lemma gates_found:
  "map (\<lambda>n. gate_of (idt_after isr irq ! n)) ([0..<32] @ map (\<lambda>i. 32 + i) [0..<16] @ [255]) =
    map (\<lambda>f. \<lparr>gate_offset = f, gate_selector = 8, gate_present = True, gate_dpl = 0, gate_type = 0xE\<rparr>)
      (map isr [0..<32] @ map irq [0..<16] @ [isr 255])"
proof (rule map_zip_eq)
  fix n f
  assume "(n, f) \<in> set (zip ([0..<32] @ map (\<lambda>i. 32 + i) [0..<16] @ [255]) (map isr [0..<32] @ map irq [0..<16] @ [isr 255]))"
  then have "(of_nat n, f) \<in> set (gates isr irq) \<and> n < 256"
    unfolding zip_blocks gates_def by (auto simp del: upt_rec_numeral)
  then show "gate_of (idt_after isr irq ! n) = \<lparr>gate_offset = f, gate_selector = 8, gate_present = True,
      gate_dpl = 0, gate_type = 0xE\<rparr>"
    using idt_after_gates(2) [of "of_nat n" f isr irq] by (simp add: unat_of_nat)
qed (simp del: upt_rec_numeral)

lemma gates_present:
  "{n. n < 256 \<and> gate_present (gate_of (idt_after isr irq ! n))} = {..<48} \<union> {255}"
proof -
  have "gate_present (gate_of (idt_after isr irq ! n))" if n: "n \<in> {..<48} \<union> {255}" for n
  proof -
    obtain v f where "(v, f) \<in> set (gates isr irq)" "unat v = n"
      using n gates_vectors [of isr irq] by (metis (no_types, lifting) image_iff prod.collapse)
    then show ?thesis using idt_after_gates(2) [of v f isr irq] by simp
  qed
  moreover have "n < 256" if "n \<in> {..<48} \<union> {255}" for n :: nat using that by auto
  ultimately show ?thesis using idt_after_gates(3) by blast
qed

section \<open>Properties\<close>

text \<open>C33: \<open>init_idt\<close> connects every exception and interrupt line to its stub: afterwards the
  processor finds at vector \<open>i\<close> below 32 the stub \<open>isr i\<close>, the two interrupt controllers, whatever
  their state before, deliver line \<open>i\<close> below 16 unmasked at a vector where it finds \<open>irq i\<close>, and
  vector 255 holds \<open>isr 255\<close>. All these gates are present 32-bit interrupt gates of privilege 0
  with the kernel's code segment, no other gate is present, and no handler is registered.\<close>

theorem init_idt_vectors:
  "case init_idt isr irq a (st, io) of (idt, io') \<Rightarrow>
     let ms = fold pics_write (drop (length (port_log io)) (port_log io')) ms0 in
     irq_mask (fst ms) = 0 \<and> irq_mask (snd ms) = 0 \<and> icw (fst ms) = 0 \<and> icw (snd ms) = 0 \<and>
     map (\<lambda>n. gate_of (idt_entries idt ! n)) ([0..<32] @ map (\<lambda>i. unat (irq_vector ms i)) [0..<16] @ [255]) =
       map (\<lambda>f. \<lparr>gate_offset = f, gate_selector = 8, gate_present = True, gate_dpl = 0, gate_type = 0xE\<rparr>)
         (map isr [0..<32] @ map irq [0..<16] @ [isr 255]) \<and>
     {n. n < 256 \<and> gate_present (gate_of (idt_entries idt ! n))} = {..<48} \<union> {255} \<and>
     interrupt_handlers idt = replicate 256 0"
proof -
  obtain idt io' where s: "init_idt isr irq a (st, io) = (idt, io')" by fastforce
  have e: "idt_entries idt = idt_after isr irq"
    using init_idt_entries [of isr irq a st io] s by simp
  have h: "interrupt_handlers idt = replicate 256 0"
    using init_idt_handlers [of isr irq a st io] s by simp
  define ms where "ms = fold pics_write (drop (length (port_log io)) (port_log io')) ms0"
  have "ms = fold pics_write [(0x20, 0x11), (0xA0, 0x11), (0x21, 0x20), (0xA1, 0x28), (0x21, 0x04),
      (0xA1, 0x02), (0x21, 0x01), (0xA1, 0x01), (0x21, 0), (0xA1, 0)] ms0"
    using init_idt_log [of io isr irq a st] s by (simp only: ms_def snd_conv)
  note ms = pics_programmed [OF this]
  show ?thesis
    unfolding s prod.case ms_def [symmetric] Let_def e irq_vectors [OF ms [THEN conjunct2, THEN conjunct2,
        THEN conjunct2, THEN conjunct2, THEN conjunct1] ms [THEN conjunct2, THEN conjunct2,
        THEN conjunct2, THEN conjunct2, THEN conjunct2]]
    by (intro conjI gates_found gates_present h) (use ms in blast)+
qed

end
