(* ===== verification/Stubs.thy ===== *)
theory Stubs
  imports Task Idt
begin

text \<open>
  The way into and out of a handler: the stubs of \<^verbatim>\<open>idt/idt_s.s\<close>, with what the processor does
  before the first and with the last of their instructions. A stub pushes the number of the
  interrupt, saves all registers in the layout of \<^verbatim>\<open>struct pt_regs_t\<close>, loads the kernel's data
  segment, calls \<^verbatim>\<open>isr_handler\<close> or \<^verbatim>\<open>irq_handler\<close> with a pointer to that structure, and undoes it
  all. \<^verbatim>\<open>isr_common_stub\<close> and \<^verbatim>\<open>irq_common_stub\<close> differ only in the function they call.
\<close>

section \<open>State\<close>

text \<open>The registers of a thread switch and those only the stubs touch.\<close>

record stub_cpu = cpu +
  edx :: u32
  seg_cs :: u16
  seg_ds :: u16
  seg_es :: u16
  seg_fs :: u16
  seg_gs :: u16
  seg_ss :: u16

fun push_all :: "u32 list \<Rightarrow> 'c cpu_scheme \<times> 'a vmm_state_scheme \<Rightarrow> ('c cpu_scheme \<times> 'a vmm_state_scheme) res" where
  "push_all [] s = Inr s"
| "push_all (w # ws) s = bindE (push w s) (push_all ws)"

fun pop_all :: "nat \<Rightarrow> 'c cpu_scheme \<times> 'a vmm_state_scheme \<Rightarrow> (u32 list \<times> 'c cpu_scheme \<times> 'a vmm_state_scheme) res" where
  "pop_all 0 s = Inr ([], s)"
| "pop_all (Suc n) s = bindE (pop s) (\<lambda>(w, s). bindE (pop_all n s) (\<lambda>(ws, s). Inr (w # ws, s)))"

section \<open>The processor\<close>

text \<open>
  An interrupt through a gate of the kernel's code segment, from code of the same privilege: flags,
  code segment and instruction pointer are pushed, then the error code when the vector has one. The
  gate clears \<open>IF\<close>, \<open>TF\<close>, \<open>NT\<close>, \<open>RF\<close> and \<open>VM\<close>.
\<close>

definition take_interrupt ::
  "u32 option \<Rightarrow> u32 \<Rightarrow> stub_cpu \<times> 'a vmm_state_scheme \<Rightarrow> (stub_cpu \<times> 'a vmm_state_scheme) res" where
  "take_interrupt err stub = (\<lambda>(c, st).
     bindE (push_all ([eflags c, ucast (seg_cs c), eip c] @ (case err of None \<Rightarrow> [] | Some e \<Rightarrow> [e])) (c, st))
       (\<lambda>(c, st). Inr (c\<lparr>eip := stub, seg_cs := 0x08, eflags := eflags c AND NOT 0x34300\<rparr>, st)))"

text \<open>The flags \<^verbatim>\<open>iret\<close> sets at privilege level 0 without a change of mode.\<close>

definition iret_flags :: "u32 \<Rightarrow> u32" where "iret_flags w = (w AND 0x3d7fd5) OR 2"

definition iret :: "stub_cpu \<times> 'a vmm_state_scheme \<Rightarrow> (stub_cpu \<times> 'a vmm_state_scheme) res" where
  "iret s = bindE (pop s) (\<lambda>(w, c, st). let c = c\<lparr>eip := w\<rparr> in
     bindE (pop (c, st)) (\<lambda>(w, c, st). let c = c\<lparr>seg_cs := ucast w\<rparr> in
     bindE (pop (c, st)) (\<lambda>(w, c, st). Inr (c\<lparr>eflags := iret_flags w\<rparr>, st))))"

section \<open>The stubs\<close>

text \<open>The vectors declared with \<^verbatim>\<open>ISR_ERRCODE\<close>.\<close>

definition isr_errcode :: "nat \<Rightarrow> bool" where
  "isr_errcode n \<longleftrightarrow> n \<in> {8, 10, 11, 12, 13, 14, 17}"

text \<open>The macros: \<^verbatim>\<open>cli\<close>, a zero in place of the error code, the number.\<close>

definition isr_stub_push ::
  "bool \<Rightarrow> nat \<Rightarrow> stub_cpu \<times> 'a vmm_state_scheme \<Rightarrow> (stub_cpu \<times> 'a vmm_state_scheme) res" where
  "isr_stub_push errcode n = (\<lambda>(c, st). let c = c\<lparr>eflags := eflags c AND NOT 0x200\<rparr> in
     push_all ((if errcode then [] else [0]) @ [of_nat n]) (c, st))"

text \<open>
  The common part up to and with the call, which pushes the return address \<open>ret\<close>. \<^verbatim>\<open>mov ax, ds\<close>
  leaves the upper half of \<^verbatim>\<open>eax\<close> as it was, so the saved word has the selector in its lower half
  only.
\<close>

definition stub_enter ::
  "u32 \<Rightarrow> stub_cpu \<times> 'a vmm_state_scheme \<Rightarrow> (stub_cpu \<times> 'a vmm_state_scheme) res" where
  "stub_enter ret = (\<lambda>(c, st).
     bindE (push_all [eax c, ecx c, edx c, ebx c, esp c, ebp c, esi c, edi c] (c, st)) (\<lambda>(c, st).
     let c = c\<lparr>eax := (eax c AND 0xffff0000) OR ucast (seg_ds c)\<rparr> in
     bindE (push (eax c) (c, st)) (\<lambda>(c, st).
     let c = c\<lparr>eax := (eax c AND 0xffff0000) OR 0x10\<rparr>;
         c = c\<lparr>seg_ds := 0x10, seg_es := 0x10, seg_fs := 0x10, seg_gs := 0x10, seg_ss := 0x10\<rparr> in
     bindE (push (esp c) (c, st)) (\<lambda>(c, st). push ret (c, st)))))"

text \<open>
  From the \<^verbatim>\<open>ret\<close> of the called function to the \<^verbatim>\<open>iret\<close>. The arithmetic flags \<^verbatim>\<open>add\<close> sets are
  not tracked: \<^verbatim>\<open>iret\<close> replaces all flags. \<^verbatim>\<open>popa\<close> skips the saved \<^verbatim>\<open>esp\<close>.
\<close>

definition popa :: "stub_cpu \<times> 'a vmm_state_scheme \<Rightarrow> (stub_cpu \<times> 'a vmm_state_scheme) res" where
  "popa s = bindE (pop_all 8 s) (\<lambda>(ws, c, st).
     Inr (c\<lparr>edi := ws ! 0, esi := ws ! 1, ebp := ws ! 2, ebx := ws ! 4, edx := ws ! 5, ecx := ws ! 6, eax := ws ! 7\<rparr>, st))"

definition stub_leave :: "stub_cpu \<times> 'a vmm_state_scheme \<Rightarrow> (stub_cpu \<times> 'a vmm_state_scheme) res" where
  "stub_leave s = bindE (pop s) (\<lambda>(r, c, st). let c = c\<lparr>eip := r\<rparr>; c = c\<lparr>esp := esp c + 4\<rparr> in
     bindE (pop (c, st)) (\<lambda>(w, c, st). let c = c\<lparr>ebx := w\<rparr>;
       c = c\<lparr>seg_ds := ucast (ebx c), seg_es := ucast (ebx c), seg_fs := ucast (ebx c), seg_gs := ucast (ebx c), seg_ss := ucast (ebx c)\<rparr> in
     bindE (popa (c, st)) (\<lambda>(c, st). iret (c\<lparr>esp := esp c + 8\<rparr>, st))))"

text \<open>The structure the handler finds at its argument.\<close>

definition pt_regs_at :: "bytes \<Rightarrow> u32 \<Rightarrow> pt_regs" where
  "pt_regs_at m p = \<lparr>r_ds = load32 m p, r_edi = load32 m (p + 4), r_esi = load32 m (p + 8), r_ebp = load32 m (p + 12),
     r_esp = load32 m (p + 16), r_ebx = load32 m (p + 20), r_edx = load32 m (p + 24), r_ecx = load32 m (p + 28),
     r_eax = load32 m (p + 32), r_int_no = load32 m (p + 36), r_err_code = load32 m (p + 40), r_eip = load32 m (p + 44),
     r_cs = load32 m (p + 48), r_eflags = load32 m (p + 52), r_user_esp = load32 m (p + 56), r_ss = load32 m (p + 60)\<rparr>"

text \<open>
  An interrupt from beginning to end. \<open>handler\<close> is \<^verbatim>\<open>isr_handler\<close> or \<^verbatim>\<open>irq_handler\<close>; it runs on
  registers and memory from the call to its \<^verbatim>\<open>ret\<close>.
\<close>

definition interrupt_enter ::
  "u32 \<Rightarrow> bool \<Rightarrow> nat \<Rightarrow> u32 option \<Rightarrow> u32 \<Rightarrow> stub_cpu \<times> 'a vmm_state_scheme \<Rightarrow> (stub_cpu \<times> 'a vmm_state_scheme) res" where
  "interrupt_enter stub errcode n err ret s =
     bindE (take_interrupt err stub s) (\<lambda>s. bindE (isr_stub_push errcode n s) (stub_enter ret))"

definition interrupt ::
  "(stub_cpu \<times> 'a vmm_state_scheme, 'b) handler \<Rightarrow> u32 \<Rightarrow> bool \<Rightarrow> nat \<Rightarrow> u32 option \<Rightarrow> u32 \<Rightarrow>
    (stub_cpu \<times> 'a vmm_state_scheme) \<times> 'b console_state_scheme \<Rightarrow>
    ((stub_cpu \<times> 'a vmm_state_scheme) \<times> 'b console_state_scheme) res" where
  "interrupt handler stub errcode n err ret = (\<lambda>(s, io).
     bindE (interrupt_enter stub errcode n err ret s) (\<lambda>(c, st).
     bindE (handler (pt_regs_at (mem st) (esp c + 8)) ((c, st), io)) (\<lambda>(s, io).
     bindE (stub_leave s) (\<lambda>s. Inr (s, io)))))"

text \<open>
  Vector \<open>n\<close> of \<^verbatim>\<open>isr\<close>, and line \<open>k\<close> of \<^verbatim>\<open>irq\<close>. There are stubs for the vectors 0 to 31 and 255 and
  for 16 lines, and no others.
\<close>

definition isr_interrupt where
  "isr_interrupt call idt stub n err ret s =
     (if n \<le> 31 \<or> n = 255 then interrupt (isr_handler call idt) stub (isr_errcode n) n err ret s
      else Inl (Undefined ''isr''))"

definition irq_interrupt where
  "irq_interrupt call idt stub k ret s =
     (if k < 16 then interrupt (irq_handler call idt) stub False (32 + k) None ret s else Inl (Undefined ''irq''))"

section \<open>Words on the stack\<close>

definition words_at :: "bytes \<Rightarrow> u32 \<Rightarrow> u32 list \<Rightarrow> bool" where
  "words_at m a ws \<longleftrightarrow> (\<forall>i < length ws. load32 m (a + 4 * of_nat i) = ws ! i)"

lemma words_at_simps:
  "words_at m a []"
  "words_at m a (w # ws) \<longleftrightarrow> load32 m a = w \<and> words_at m (a + 4) ws"
proof -
  show "words_at m a []" by (simp add: words_at_def)
  have "(\<forall>i < length (w # ws). load32 m (a + 4 * of_nat i) = (w # ws) ! i) \<longleftrightarrow>
      load32 m a = w \<and> (\<forall>i < length ws. load32 m (a + 4 + 4 * of_nat i) = ws ! i)"
    by (simp add: All_less_Suc2 algebra_simps)
  then show "words_at m a (w # ws) \<longleftrightarrow> load32 m a = w \<and> words_at m (a + 4) ws"
    by (simp add: words_at_def)
qed

lemma words_at_append:
  "words_at m a (xs @ ys) \<longleftrightarrow> words_at m a xs \<and> words_at m (a + 4 * of_nat (length xs)) ys"
  by (induction xs arbitrary: a) (simp_all add: words_at_simps algebra_simps)

text \<open>Bytes a range of the stack leaves alone.\<close>

definition same_outside :: "u32 \<Rightarrow> nat \<Rightarrow> bytes \<Rightarrow> bytes \<Rightarrow> bool" where
  "same_outside a n m m' \<longleftrightarrow> (\<forall>x. \<not> (unat a \<le> unat x \<and> unat x < unat a + n) \<longrightarrow> m' x = m x)"

lemma words_at_cong:
  assumes "words_at m b ws" and "unat b + 4 * length ws \<le> 4294967296"
    and "\<And>x. unat b \<le> unat x \<Longrightarrow> unat x < unat b + 4 * length ws \<Longrightarrow> m' x = m x"
  shows "words_at m' b ws"
  unfolding words_at_def
proof (intro allI impI)
  fix i
  assume i: "i < length ws"
  have "load32 m' (b + of_nat (4 * i)) = load32 m (b + of_nat (4 * i))"
  proof (rule load32_cong)
    fix j :: nat
    assume "j < 4"
    moreover from this i assms(2) have "unat (b + of_nat (4 * i + j)) = unat b + (4 * i + j)"
      by (intro unat_plus_of_nat_small) simp
    ultimately show "m' (b + of_nat (4 * i) + of_nat j) = m (b + of_nat (4 * i) + of_nat j)"
      using i assms(3) [of "b + of_nat (4 * i + j)"] by (simp add: add.assoc)
  qed
  then show "load32 m' (b + 4 * of_nat i) = ws ! i"
    using assms(1) i by (simp add: words_at_def)
qed

lemma push_all_ok:
  "esp c = a + of_nat (4 * length ws) \<Longrightarrow> mapped st a (4 * length ws) \<Longrightarrow>
    \<exists>m. push_all ws (c, st) = Inr (c\<lparr>esp := a\<rparr>, st\<lparr>mem := m\<rparr>) \<and> words_at m a (rev ws) \<and>
      same_outside a (4 * length ws) (mem st) m"
proof (induction ws arbitrary: c st)
  case Nil
  then show ?case by (intro exI [of _ "mem st"]) (simp add: words_at_simps same_outside_def)
next
  case (Cons w ws)
  let ?b = "a + of_nat (4 * length ws)"
  let ?m = "store32 (mem st) ?b w"
  have le: "unat a + 4 * length ws + 4 \<le> 4294967296" using Cons.prems(2) by (simp add: mapped_def)
  have b: "unat ?b = unat a + 4 * length ws" using le by (intro unat_plus_of_nat_small) simp
  have "mapped st ?b 4" by (rule mapped_sub [OF Cons.prems(2)]) (unfold b, simp_all)
  from push_at [OF _ this, of c w] Cons.prems(1)
  have p: "push w (c, st) = Inr (c\<lparr>esp := ?b\<rparr>, st\<lparr>mem := ?m\<rparr>)" by (simp add: algebra_simps)
  have "mapped (st\<lparr>mem := ?m\<rparr>) a (4 * length ws)"
    using mapped_sub [OF Cons.prems(2), of a "4 * length ws"] by simp
  from Cons.IH [OF _ this, of "c\<lparr>esp := ?b\<rparr>"] obtain m
    where m: "push_all ws (c\<lparr>esp := ?b\<rparr>, st\<lparr>mem := ?m\<rparr>) = Inr (c\<lparr>esp := a\<rparr>, st\<lparr>mem := m\<rparr>)"
      "words_at m a (rev ws)" "same_outside a (4 * length ws) ?m m"
    by auto
  have "words_at m ?b [w]"
    by (rule words_at_cong [of ?m]) (use m(3) le b in \<open>auto simp: words_at_simps same_outside_def\<close>)
  then have "words_at m a (rev (w # ws))" using m(2) by (simp add: words_at_append)
  moreover have "same_outside a (4 * length (w # ws)) (mem st) m"
    unfolding same_outside_def
  proof (intro allI impI)
    fix x :: u32
    assume x: "\<not> (unat a \<le> unat x \<and> unat x < unat a + 4 * length (w # ws))"
    then have "?m x = mem st x"
      using le b unat_less_u32 [of x] by (intro store32_byte_apart) (auto simp: apart_def)
    moreover have "\<not> (unat a \<le> unat x \<and> unat x < unat a + 4 * length ws)" using x by auto
    then have "m x = ?m x" using m(3) unfolding same_outside_def by blast
    ultimately show "m x = mem st x" by simp
  qed
  ultimately show ?case using p m(1) by auto
qed

lemma pop_all_ok:
  "words_at (mem st) (esp c) ws \<Longrightarrow> mapped st (esp c) (4 * length ws) \<Longrightarrow>
    pop_all (length ws) (c, st) = Inr (ws, c\<lparr>esp := esp c + of_nat (4 * length ws)\<rparr>, st)"
proof (induction ws arbitrary: c)
  case (Cons w ws)
  have le: "unat (esp c) + 4 * length ws + 4 \<le> 4294967296" using Cons.prems(2) by (simp add: mapped_def)
  have "mapped st (esp c) 4" using mapped_sub [OF Cons.prems(2), of "esp c" 4] by simp
  then have p: "pop (c, st) = Inr (w, c\<lparr>esp := esp c + 4\<rparr>, st)"
    using Cons.prems(1) by (simp add: stack_access words_at_simps)
  show ?case
  proof (cases "ws = []")
    case True
    then show ?thesis using p by simp
  next
    case False
    then have "unat (esp c + 4) = unat (esp c) + 4"
      using unat_plus_small [of "esp c" 4] le by (cases ws) auto
    then have "mapped st (esp c + 4) (4 * length ws)"
      by (intro mapped_sub [OF Cons.prems(2)]) simp_all
    then show ?thesis using Cons.IH [of "c\<lparr>esp := esp c + 4\<rparr>"] Cons.prems(1) p by (simp add: words_at_simps algebra_simps)
  qed
qed simp

section \<open>The frame of an interrupt\<close>

text \<open>
  The words \<open>ws\<close> have been pushed, from the state \<open>st0\<close> on, onto a stack with room for 16 words
  that begins at \<open>G\<close>.
\<close>

definition stacked :: "'a vmm_state_scheme \<Rightarrow> u32 \<Rightarrow> u32 list \<Rightarrow> u32 \<Rightarrow> 'a vmm_state_scheme \<Rightarrow> bool" where
  "stacked st0 G ws e st \<longleftrightarrow> st = st0\<lparr>mem := mem st\<rparr> \<and> length ws \<le> 16 \<and> e = G + of_nat (64 - 4 * length ws) \<and>
     words_at (mem st) e ws \<and> same_outside G 64 (mem st0) (mem st)"

lemma words_at_keep:
  assumes "words_at m b ws" and "same_outside a n m m'" and "unat a + n \<le> unat b"
    and "unat b + 4 * length ws \<le> 4294967296"
  shows "words_at m' b ws"
  by (rule words_at_cong [OF assms(1,4)]) (use assms(2,3) in \<open>simp add: same_outside_def\<close>)

lemma same_outside_trans:
  "same_outside a n m m' \<Longrightarrow> same_outside b k m' m'' \<Longrightarrow> unat a \<le> unat b \<Longrightarrow> unat b + k \<le> unat a + n \<Longrightarrow>
    same_outside a n m m''"
  unfolding same_outside_def by (metis le_trans less_le_trans)

lemma stacked_push_all:
  assumes s: "stacked st0 G ws (esp c) st" and r: "mapped st0 G 64" and l: "length xs + length ws \<le> 16"
  shows "\<exists>e m. push_all xs (c, st) = Inr (c\<lparr>esp := e\<rparr>, st\<lparr>mem := m\<rparr>) \<and> stacked st0 G (rev xs @ ws) e (st\<lparr>mem := m\<rparr>)"
proof (cases "xs = []")
  case True
  then show ?thesis using s by (intro exI [of _ "esp c"] exI [of _ "mem st"]) simp
next
  case False
  let ?k = "64 - 4 * (length xs + length ws)" and ?b = "esp c"
  let ?a = "G + of_nat ?k"
  have le: "unat G + 64 \<le> 4294967296" using r by (simp add: mapped_def)
  have f: "st = st0\<lparr>mem := mem st\<rparr>" "?b = G + of_nat (64 - 4 * length ws)" "words_at (mem st) ?b ws"
      "same_outside G 64 (mem st0) (mem st)" using s unfolding stacked_def by blast+
  have "0 < length xs" using False by simp
  then have a: "unat ?a = unat G + ?k" using le l by (intro unat_plus_of_nat_small) arith
  have "64 - 4 * length ws = ?k + 4 * length xs" using l by arith
  then have e: "?b = ?a + of_nat (4 * length xs)" by (simp only: f(2) of_nat_add add.assoc)
  have "mapped st0 ?a (4 * length xs)" using l by (intro mapped_sub [OF r]) (unfold a, arith+)
  moreover have "mapped st b n = mapped st0 b n" for b n by (subst f(1)) simp
  ultimately have "mapped st ?a (4 * length xs)" by simp
  from push_all_ok [OF e this] obtain m where m: "push_all xs (c, st) = Inr (c\<lparr>esp := ?a\<rparr>, st\<lparr>mem := m\<rparr>)"
    "words_at m ?a (rev xs)" "same_outside ?a (4 * length xs) (mem st) m" by blast
  have "words_at m ?b ws"
  proof (cases "ws = []")
    case True
    then show ?thesis by (simp add: words_at_simps)
  next
    case False
    then have "0 < length ws" by simp
    then have b: "unat ?b = unat G + (64 - 4 * length ws)"
      unfolding f(2) using le l by (intro unat_plus_of_nat_small) arith
    show ?thesis using l le by (intro words_at_keep [OF f(3) m(3)]) (unfold a b, arith+)
  qed
  then have "words_at m ?a (rev xs @ ws)" using m(2) e by (simp add: words_at_append)
  moreover have "same_outside G 64 (mem st0) m"
    using l by (intro same_outside_trans [OF f(4) m(3)]) (unfold a, arith+)
  moreover have "st\<lparr>mem := m\<rparr> = st0\<lparr>mem := m\<rparr>" by (subst f(1)) simp
  ultimately have "stacked st0 G (rev xs @ ws) ?a (st\<lparr>mem := m\<rparr>)"
    using l by (simp add: stacked_def add.commute)
  then show ?thesis using m(1) by blast
qed

lemma stacked_push:
  assumes "stacked st0 G ws (esp c) st" and "mapped st0 G 64" and "length ws < 16"
  shows "\<exists>e m. push w (c, st) = Inr (c\<lparr>esp := e\<rparr>, st\<lparr>mem := m\<rparr>) \<and> stacked st0 G (w # ws) e (st\<lparr>mem := m\<rparr>)"
proof -
  have "push_all [w] (c, st) = push w (c, st)" by (cases "push w (c, st)") simp_all
  then show ?thesis using stacked_push_all [OF assms(1,2), of "[w]"] assms(3) by simp
qed

text \<open>The frame below the stack pointer of the interrupted code, from the lowest word.\<close>

definition interrupt_frame :: "stub_cpu \<Rightarrow> nat \<Rightarrow> u32 option \<Rightarrow> u32 list" where
  "interrupt_frame c n err =
     [(eax c AND 0xffff0000) OR ucast (seg_ds c), edi c, esi c, ebp c, esp c - 20, ebx c, edx c, ecx c, eax c,
      of_nat n, (case err of None \<Rightarrow> 0 | Some e \<Rightarrow> e), eip c, ucast (seg_cs c), eflags c]"

lemma stacked_start: "esp c = G + 64 \<Longrightarrow> stacked st G [] (esp c) st"
  by (simp add: stacked_def words_at_simps same_outside_def)

lemma stacked_esp: "stacked st0 G ws e st \<Longrightarrow> e = G + of_nat (64 - 4 * length ws)"
  by (simp add: stacked_def)

lemma vector_pushed:
  assumes e: "esp c = G + 64" and r: "mapped st G 64" and err: "(err \<noteq> None) = errcode"
  shows "\<exists>c1 m. bindE (take_interrupt err stub (c, st)) (isr_stub_push errcode n) = Inr (c1, st\<lparr>mem := m\<rparr>) \<and>
    c1 = c\<lparr>eip := stub, seg_cs := 0x08, eflags := (eflags c AND NOT 0x34300) AND NOT 0x200, esp := G + 44\<rparr> \<and>
    stacked st G [of_nat n, (case err of None \<Rightarrow> 0 | Some e \<Rightarrow> e), eip c, ucast (seg_cs c), eflags c] (esp c1) (st\<lparr>mem := m\<rparr>)"
proof -
  let ?xs = "[eflags c, ucast (seg_cs c), eip c] @ (case err of None \<Rightarrow> [] | Some e \<Rightarrow> [e])"
  let ?ys = "(if errcode then [] else [0]) @ [of_nat n]"
  have xs: "length ?xs \<le> 4" by (simp split: option.split)
  obtain e1 m1 where p1: "push_all ?xs (c, st) = Inr (c\<lparr>esp := e1\<rparr>, st\<lparr>mem := m1\<rparr>)"
      and s1: "stacked st G (rev ?xs) e1 (st\<lparr>mem := m1\<rparr>)"
    using stacked_push_all [OF stacked_start [OF e] r, of ?xs] xs by auto
  let ?c = "c\<lparr>esp := e1, eip := stub, seg_cs := 0x08, eflags := (eflags c AND NOT 0x34300) AND NOT 0x200\<rparr>"
  have "stacked st G (rev ?xs) (esp ?c) (st\<lparr>mem := m1\<rparr>)" using s1 by simp
  moreover have "length ?ys + length (rev ?xs) \<le> 16" by (cases errcode; cases err) simp_all
  ultimately obtain e2 m2 where "push_all ?ys (?c, st\<lparr>mem := m1\<rparr>) = Inr (?c\<lparr>esp := e2\<rparr>, st\<lparr>mem := m1, mem := m2\<rparr>)"
      and "stacked st G (rev ?ys @ rev ?xs) e2 (st\<lparr>mem := m1, mem := m2\<rparr>)"
    using stacked_push_all [OF _ r, of "rev ?xs" ?c "st\<lparr>mem := m1\<rparr>" ?ys] by blast
  then have p2: "push_all ?ys (?c, st\<lparr>mem := m1\<rparr>) = Inr (?c\<lparr>esp := e2\<rparr>, st\<lparr>mem := m2\<rparr>)"
      and s2: "stacked st G (rev ?ys @ rev ?xs) e2 (st\<lparr>mem := m2\<rparr>)" by simp_all
  have w: "rev ?ys @ rev ?xs = [of_nat n, (case err of None \<Rightarrow> 0 | Some e \<Rightarrow> e), eip c, ucast (seg_cs c), eflags c]"
    using err by (cases err) auto
  have "e2 = G + 44" using stacked_esp [OF s2] unfolding w by simp
  let ?t = "c\<lparr>esp := e1, eip := stub, seg_cs := 0x08, eflags := eflags c AND NOT 0x34300\<rparr>"
  have "take_interrupt err stub (c, st) = Inr (?t, st\<lparr>mem := m1\<rparr>)"
    unfolding take_interrupt_def prod.case p1 bindE_simps by simp
  moreover have "?t\<lparr>eflags := eflags ?t AND NOT 0x200\<rparr> = ?c" by simp
  then have "isr_stub_push errcode n (?t, st\<lparr>mem := m1\<rparr>) = Inr (?c\<lparr>esp := e2\<rparr>, st\<lparr>mem := m2\<rparr>)"
    unfolding isr_stub_push_def prod.case Let_def using p2 by (simp only:)
  ultimately have "bindE (take_interrupt err stub (c, st)) (isr_stub_push errcode n) = Inr (?c\<lparr>esp := e2\<rparr>, st\<lparr>mem := m2\<rparr>)"
    by (simp only: bindE_simps)
  then show ?thesis using s2 \<open>e2 = G + 44\<close> unfolding w by (intro exI [of _ "?c\<lparr>esp := e2\<rparr>"] exI [of _ m2]) simp
qed

lemma registers_pushed:
  assumes s: "stacked st0 G ws (esp c) st" and r: "mapped st0 G 64" and l: "length ws = 5"
  shows "\<exists>c1 m. stub_enter ret (c, st) = Inr (c1, st\<lparr>mem := m\<rparr>) \<and> esp c1 = G \<and>
    stacked st0 G ([ret, G + 8, (eax c AND 0xffff0000) OR ucast (seg_ds c), edi c, esi c, ebp c, esp c, ebx c, edx c, ecx c,
      eax c] @ ws) G (st\<lparr>mem := m\<rparr>)"
proof -
  let ?xs = "[eax c, ecx c, edx c, ebx c, esp c, ebp c, esi c, edi c]"
  have "length ?xs + length ws \<le> 16" by (simp add: l)
  then obtain e1 m1 where p1: "push_all ?xs (c, st) = Inr (c\<lparr>esp := e1\<rparr>, st\<lparr>mem := m1\<rparr>)"
      and s1: "stacked st0 G (rev ?xs @ ws) e1 (st\<lparr>mem := m1\<rparr>)"
    using stacked_push_all [OF s r] by blast
  let ?d = "(eax c AND 0xffff0000) OR ucast (seg_ds c)"
  let ?c1 = "c\<lparr>esp := e1, eax := ?d\<rparr>"
  have "stacked st0 G (rev ?xs @ ws) (esp ?c1) (st\<lparr>mem := m1\<rparr>)" using s1 by simp
  from stacked_push [OF this r, of ?d] l obtain e2 m2
    where p2: "push ?d (?c1, st\<lparr>mem := m1\<rparr>) = Inr (?c1\<lparr>esp := e2\<rparr>, st\<lparr>mem := m2\<rparr>)"
      and s2: "stacked st0 G (?d # rev ?xs @ ws) e2 (st\<lparr>mem := m2\<rparr>)" by auto
  have e2: "e2 = G + 8" using stacked_esp [OF s2] l by simp
  let ?c2 = "?c1\<lparr>esp := e2, eax := (?d AND 0xffff0000) OR 0x10, seg_ds := 0x10, seg_es := 0x10, seg_fs := 0x10,
      seg_gs := 0x10, seg_ss := 0x10\<rparr>"
  have "stacked st0 G (?d # rev ?xs @ ws) (esp ?c2) (st\<lparr>mem := m2\<rparr>)" using s2 by simp
  from stacked_push [OF this r, of e2] l obtain e3 m3
    where p3: "push e2 (?c2, st\<lparr>mem := m2\<rparr>) = Inr (?c2\<lparr>esp := e3\<rparr>, st\<lparr>mem := m3\<rparr>)"
      and s3: "stacked st0 G (e2 # ?d # rev ?xs @ ws) e3 (st\<lparr>mem := m3\<rparr>)" by auto
  let ?c3 = "?c2\<lparr>esp := e3\<rparr>"
  have "stacked st0 G (e2 # ?d # rev ?xs @ ws) (esp ?c3) (st\<lparr>mem := m3\<rparr>)" using s3 by simp
  from stacked_push [OF this r, of ret] l obtain e4 m4
    where p4: "push ret (?c3, st\<lparr>mem := m3\<rparr>) = Inr (?c3\<lparr>esp := e4\<rparr>, st\<lparr>mem := m4\<rparr>)"
      and s4: "stacked st0 G (ret # e2 # ?d # rev ?xs @ ws) e4 (st\<lparr>mem := m4\<rparr>)" by auto
  have e4: "e4 = G" using stacked_esp [OF s4] l by simp
  have "stub_enter ret (c, st) = Inr (?c3\<lparr>esp := e4\<rparr>, st\<lparr>mem := m4\<rparr>)"
    using p2 p3 p4 unfolding stub_enter_def prod.case p1 bindE_simps Let_def by simp
  then show ?thesis using s4 e4 e2 by (intro exI [of _ "?c3\<lparr>esp := e4\<rparr>"] exI [of _ m4]) simp
qed

lemma interrupt_entered:
  assumes e: "esp c = G + 64" and r: "mapped st G 64" and err: "(err \<noteq> None) = errcode"
  shows "\<exists>c1 m. interrupt_enter stub errcode n err ret (c, st) = Inr (c1, st\<lparr>mem := m\<rparr>) \<and> esp c1 = G \<and>
    words_at m G (ret # (G + 8) # interrupt_frame c n err) \<and> same_outside G 64 (mem st) m"
proof -
  let ?ws = "[of_nat n, (case err of None \<Rightarrow> 0 | Some e \<Rightarrow> e), eip c, ucast (seg_cs c), eflags c]"
  obtain c1 m1 where v: "bindE (take_interrupt err stub (c, st)) (isr_stub_push errcode n) = Inr (c1, st\<lparr>mem := m1\<rparr>)"
      and c1: "c1 = c\<lparr>eip := stub, seg_cs := 0x08, eflags := (eflags c AND NOT 0x34300) AND NOT 0x200, esp := G + 44\<rparr>"
      and s: "stacked st G ?ws (esp c1) (st\<lparr>mem := m1\<rparr>)"
    using vector_pushed [OF e r err, of stub n] by blast
  obtain c2 m2 where p: "stub_enter ret (c1, st\<lparr>mem := m1\<rparr>) = Inr (c2, st\<lparr>mem := m2\<rparr>)" "esp c2 = G"
      and s2: "stacked st G ([ret, G + 8, (eax c1 AND 0xffff0000) OR ucast (seg_ds c1), edi c1, esi c1, ebp c1, esp c1,
        ebx c1, edx c1, ecx c1, eax c1] @ ?ws) G (st\<lparr>mem := m2\<rparr>)"
    using registers_pushed [OF s r, of ret] by auto
  have "interrupt_enter stub errcode n err ret (c, st) = Inr (c2, st\<lparr>mem := m2\<rparr>)"
    unfolding interrupt_enter_def bindE_assoc [symmetric] v bindE_simps by (rule p(1))
  moreover have f: "[ret, G + 8, (eax c1 AND 0xffff0000) OR ucast (seg_ds c1), edi c1, esi c1, ebp c1, esp c1,
        ebx c1, edx c1, ecx c1, eax c1] @ ?ws = ret # (G + 8) # interrupt_frame c n err"
    by (simp add: interrupt_frame_def c1 e)
  ultimately show ?thesis
    using s2 p(2) unfolding f stacked_def by (intro exI [of _ c2] exI [of _ m2]) simp
qed

text \<open>
  Leaving restores what the frame holds. \<open>went_on\<close> gives the registers of the interrupted code as
  \<^verbatim>\<open>iret\<close> leaves them.
\<close>

abbreviation went_on :: "stub_cpu \<Rightarrow> stub_cpu" where
  "went_on c \<equiv> c\<lparr>eflags := iret_flags (eflags c), seg_es := seg_ds c, seg_fs := seg_ds c, seg_gs := seg_ds c,
     seg_ss := seg_ds c\<rparr>"

lemma mapped_part: "mapped st a n \<Longrightarrow> i + k \<le> n \<Longrightarrow> 0 < k \<Longrightarrow> mapped st (a + of_nat i) k"
  by (rule mapped_sub) (auto simp: mapped_def unat_plus_of_nat_small)

lemma interrupt_left:
  assumes e: "esp c2 = G" and r: "mapped st G 64" and w: "words_at (mem st) (G + 8) (interrupt_frame c n err)"
    and E: "esp c = G + 64"
  shows "stub_leave (c2, st) = Inr (went_on c, st)"
proof -
  let ?f = "interrupt_frame c n err"
  have m: "mapped st G 4" "mapped st (G + 8) 4" "mapped st (G + 12) 32" "mapped st (G + 52) 4" "mapped st (G + 56) 4"
      "mapped st (G + 60) 4"
    using mapped_part [OF r, of 0 4] mapped_part [OF r, of 8 4] mapped_part [OF r, of 12 32] mapped_part [OF r, of 52 4]
      mapped_part [OF r, of 56 4] mapped_part [OF r, of 60 4] by simp_all
  have l: "load32 (mem st) (G + 8) = (eax c AND 0xffff0000) OR ucast (seg_ds c)"
      "words_at (mem st) (G + 12) [edi c, esi c, ebp c, esp c - 20, ebx c, edx c, ecx c, eax c]"
      "load32 (mem st) (G + 52) = eip c" "load32 (mem st) (G + 56) = ucast (seg_cs c)" "load32 (mem st) (G + 60) = eflags c"
    using w by (simp_all add: interrupt_frame_def words_at_simps add.assoc)
  have seg: "(ucast ((eax c AND 0xffff0000) OR ucast (seg_ds c)) :: u16) = seg_ds c"
  proof -
    have z: "(ucast (0xffff0000 :: u32) :: u16) = 0" by simp
    have i: "(ucast (ucast (seg_ds c) :: u32) :: u16) = seg_ds c" by (rule bit_word_eqI) (simp add: bit_ucast_iff)
    show ?thesis by (simp only: unsigned_or_eq unsigned_and_eq z i bit.conj_zero_right or.left_neutral)
  qed
  let ?ws = "[edi c, esi c, ebp c, esp c - 20, ebx c, edx c, ecx c, eax c]"
  let ?c3 = "c2\<lparr>eip := load32 (mem st) G, esp := G + 8\<rparr>"
  let ?w = "(eax c AND 0xffff0000) OR ucast (seg_ds c)"
  let ?c4 = "?c3\<lparr>esp := G + 12, ebx := ?w, seg_ds := seg_ds c, seg_es := seg_ds c, seg_fs := seg_ds c, seg_gs := seg_ds c,
      seg_ss := seg_ds c\<rparr>"
  let ?c5 = "?c4\<lparr>esp := G + 44, edi := edi c, esi := esi c, ebp := ebp c, ebx := ebx c, edx := edx c, ecx := ecx c, eax := eax c\<rparr>"
  have p1: "pop (c2, st) = Inr (load32 (mem st) G, c2\<lparr>esp := G + 4\<rparr>, st)"
    using stack_access(2) [of st c2] m(1) by (simp add: e)
  have p2: "pop (?c3, st) = Inr (?w, ?c3\<lparr>esp := G + 12\<rparr>, st)"
    using stack_access(2) [of st ?c3] m(2) l(1) by (simp add: add.assoc)
  have n: "length ?ws = 8" by simp
  have "pop_all 8 (?c4, st) = Inr (?ws, ?c4\<lparr>esp := G + 44\<rparr>, st)"
    using pop_all_ok [of st ?c4 ?ws] m(3) l(2) unfolding n by (simp add: add.assoc)
  then have p3: "popa (?c4, st) = Inr (?c5, st)"
    unfolding popa_def by simp
  have p4: "iret (?c5\<lparr>esp := G + 52\<rparr>, st) = Inr (?c5\<lparr>esp := G + 64, eip := eip c, seg_cs := seg_cs c,
      eflags := iret_flags (eflags c)\<rparr>, st)"
    using m(4-6) l(3-5) by (simp add: iret_def Let_def stack_access add.assoc ucast_up_ucast_id is_up)
  have "stub_leave (c2, st) = Inr (?c5\<lparr>esp := G + 64, eip := eip c, seg_cs := seg_cs c,
      eflags := iret_flags (eflags c)\<rparr>, st)"
    using p2 p3 p4 unfolding stub_leave_def p1 bindE_simps prod.case Let_def by (simp add: seg add.assoc)
  then show ?thesis by (simp add: E)
qed

section \<open>Properties\<close>

text \<open>C9: Interrupts are transparent. On a stack with room for 64 bytes the processor and the stub
  never fault, write only there, and the handler finds the registers of the interrupted code, the
  number of the interrupt and the error code, 0 when the vector has none, in the structure it
  gets. Whatever the handler does to the registers and to the rest of memory, as long as it returns with
  its stack pointer and leaves that structure as it was, a switch to other threads in between
  included, the interrupted code goes on with all its registers; only the segment registers \<open>es\<close>,
  \<open>fs\<close>, \<open>gs\<close> and \<open>ss\<close> get the value of \<open>ds\<close>, the one selector that is saved.\<close>

theorem interrupt_transparent:
  assumes "mapped st (esp c - 64) 64" and "(err \<noteq> None) = errcode"
  shows "\<exists>c1 st1. interrupt_enter stub errcode n err ret (c, st) = Inr (c1, st1) \<and> esp c1 = esp c - 64 \<and>
    st1 = st\<lparr>mem := mem st1\<rparr> \<and> same_outside (esp c1) 64 (mem st) (mem st1) \<and>
    (let r = pt_regs_at (mem st1) (esp c1 + 8) in
      [r_edi r, r_esi r, r_ebp r, r_ebx r, r_edx r, r_ecx r, r_eax r] = [edi c, esi c, ebp c, ebx c, edx c, ecx c, eax c] \<and>
      r_int_no r = of_nat n \<and> r_err_code r = (case err of None \<Rightarrow> 0 | Some e \<Rightarrow> e) \<and>
      r_eip r = eip c \<and> r_cs r = ucast (seg_cs c) \<and> r_eflags r = eflags c \<and> r_esp r = esp c - 20) \<and>
    (\<forall>c2 st2 io'. handler (pt_regs_at (mem st1) (esp c1 + 8)) ((c1, st1), io) = Inr ((c2, st2), io') \<longrightarrow>
      esp c2 = esp c1 \<longrightarrow> mapped st2 (esp c1) 64 \<longrightarrow>
      (\<forall>x. unat (esp c1) + 8 \<le> unat x \<and> unat x < unat (esp c1) + 64 \<longrightarrow> mem st2 x = mem st1 x) \<longrightarrow>
      interrupt handler stub errcode n err ret ((c, st), io) =
        Inr ((c\<lparr>eflags := iret_flags (eflags c), seg_es := seg_ds c, seg_fs := seg_ds c, seg_gs := seg_ds c,
          seg_ss := seg_ds c\<rparr>, st2), io'))"
proof -
  define G where "G = esp c - 64"
  have E: "esp c = G + 64" by (simp add: G_def)
  have r: "mapped st G 64" using assms(1) by (simp add: G_def)
  obtain c1 m where i: "interrupt_enter stub errcode n err ret (c, st) = Inr (c1, st\<lparr>mem := m\<rparr>)" "esp c1 = G"
      and w: "words_at m G (ret # (G + 8) # interrupt_frame c n err)" and o: "same_outside G 64 (mem st) m"
    using interrupt_entered [OF E r assms(2), of stub n ret] by blast
  have f: "words_at m (G + 8) (interrupt_frame c n err)" using w by (simp add: words_at_simps add.assoc)
  have "unat (G + 8) = unat G + 8" using r unat_plus_small [of G 8] by (simp add: mapped_def)
  then have k: "words_at m' (G + 8) (interrupt_frame c n err)"
    if "\<forall>x. unat G + 8 \<le> unat x \<and> unat x < unat G + 64 \<longrightarrow> m' x = m x" for m'
    using that r by (intro words_at_cong [OF f]) (simp_all add: interrupt_frame_def mapped_def)
  have leave: "interrupt handler stub errcode n err ret ((c, st), io) =
        Inr ((c\<lparr>eflags := iret_flags (eflags c), seg_es := seg_ds c, seg_fs := seg_ds c, seg_gs := seg_ds c,
          seg_ss := seg_ds c\<rparr>, st2), io')"
    if "handler (pt_regs_at m (G + 8)) ((c1, st\<lparr>mem := m\<rparr>), io) = Inr ((c2, st2), io')" "esp c2 = G" "mapped st2 G 64"
      "\<forall>x. unat G + 8 \<le> unat x \<and> unat x < unat G + 64 \<longrightarrow> mem st2 x = m x" for c2 st2 io'
    using i that(1) interrupt_left [OF that(2,3) k [OF that(4)] E] by (simp add: interrupt_def)
  have regs: "let r = pt_regs_at m (G + 8) in
      [r_edi r, r_esi r, r_ebp r, r_ebx r, r_edx r, r_ecx r, r_eax r] = [edi c, esi c, ebp c, ebx c, edx c, ecx c, eax c] \<and>
      r_int_no r = of_nat n \<and> r_err_code r = (case err of None \<Rightarrow> 0 | Some e \<Rightarrow> e) \<and>
      r_eip r = eip c \<and> r_cs r = ucast (seg_cs c) \<and> r_eflags r = eflags c \<and> r_esp r = esp c - 20"
    using f by (simp add: pt_regs_at_def interrupt_frame_def words_at_simps add.assoc)
  have sm: "mem (st\<lparr>mem := m\<rparr>) = m" by simp
  have "st\<lparr>mem := m\<rparr> = st\<lparr>mem := mem (st\<lparr>mem := m\<rparr>)\<rparr>" by simp
  then show ?thesis
    using i(1) o regs leave
    by (intro exI [of _ c1] exI [of _ "st\<lparr>mem := m\<rparr>"], unfold i(2) sm G_def [symmetric], intro conjI)
      (assumption | blast | rule refl)+
qed

text \<open>A tick of the timer, with a handler that overwrites registers.\<close>

definition cpu1 :: stub_cpu where
  "cpu1 = \<lparr>eip = 0xC0101234, esp = 0xC0002F00, ebp = 1, ebx = 2, esi = 3, edi = 4, eax = 5, ecx = 6, eflags = 0x246,
     edx = 7, seg_cs = 8, seg_ds = 16, seg_es = 16, seg_fs = 16, seg_gs = 16, seg_ss = 16\<rparr>"

definition tick_call :: "u32 \<Rightarrow> (stub_cpu \<times> task_state, unit) handler" where
  "tick_call a regs = (\<lambda>((c, st), io). Inr ((c\<lparr>eax := 0, ecx := 0, edx := 0\<rparr>, st), io))"

definition idt1 :: idt_state where
  "idt1 = \<lparr>idt_entries = [], idt_ptr_var = \<lparr>idt_ptr_limit = 0, idt_ptr_base = 0\<rparr>,
     idtr = \<lparr>idt_ptr_limit = 0, idt_ptr_base = 0\<rparr>, interrupt_handlers = (replicate 256 0)[32 := 0xC0103000]\<rparr>"

theorem interrupt_transparent_witness:
  "\<exists>st2 io'. irq_interrupt tick_call idt1 0xC0102000 0 0xC0102040 ((cpu1, two_tasks), console0) = Inr ((cpu1, st2), io')"
proof -
  let ?h = "irq_handler tick_call idt1"
  have "mapped two_tasks (esp cpu1 - 64) 64" by (simp add: cpu1_def two_tasks_mapped)
  from interrupt_transparent [OF this, of None False "0xC0102000" 32 "0xC0102040" ?h console0]
  obtain c1 st1 where c1: "esp c1 = esp cpu1 - 64"
    and i: "interrupt_enter 0xC0102000 False 32 None 0xC0102040 (cpu1, two_tasks) = Inr (c1, st1)"
    and m: "st1 = two_tasks\<lparr>mem := mem st1\<rparr>"
    and n: "r_int_no (pt_regs_at (mem st1) (esp c1 + 8)) = 32"
    and t: "\<forall>c2 st2 io'. ?h (pt_regs_at (mem st1) (esp c1 + 8)) ((c1, st1), console0) = Inr ((c2, st2), io') \<longrightarrow>
      esp c2 = esp c1 \<longrightarrow> mapped st2 (esp c1) 64 \<longrightarrow>
      (\<forall>x. unat (esp c1) + 8 \<le> unat x \<and> unat x < unat (esp c1) + 64 \<longrightarrow> mem st2 x = mem st1 x) \<longrightarrow>
      interrupt ?h 0xC0102000 False 32 None 0xC0102040 ((cpu1, two_tasks), console0) =
        Inr ((cpu1\<lparr>eflags := iret_flags (eflags cpu1), seg_es := seg_ds cpu1, seg_fs := seg_ds cpu1,
          seg_gs := seg_ds cpu1, seg_ss := seg_ds cpu1\<rparr>, st2), io')"
    by (auto simp: Let_def)
  have "?h (pt_regs_at (mem st1) (esp c1 + 8)) ((c1, st1), console0) =
      Inr ((c1\<lparr>eax := 0, ecx := 0, edx := 0\<rparr>, st1), outb 0x20 0x20 console0)"
    by (simp add: irq_handler_def handler_at_def n idt1_def tick_call_def)
  moreover have "mapped st1 (esp c1) 64"
    by (subst m) (simp add: c1 cpu1_def two_tasks_mapped)
  moreover have "cpu1\<lparr>eflags := iret_flags (eflags cpu1), seg_es := seg_ds cpu1, seg_fs := seg_ds cpu1,
      seg_gs := seg_ds cpu1, seg_ss := seg_ds cpu1\<rparr> = cpu1" by (simp add: cpu1_def iret_flags_def)
  ultimately show ?thesis using t by (simp add: irq_interrupt_def)
qed

end
