(* ===== verification/Timer.thy ===== *)
theory Timer
  imports Idt Sched_Run
begin

text \<open>
  The timer: \<^verbatim>\<open>drivers/timer.c\<close>, the page fault report of \<^verbatim>\<open>mm/page_fault.c\<close>, and how a timer
  interrupt reaches the scheduler.
\<close>

section \<open>Programming the timer\<close>

definition HZ :: u32 where [simp]: "HZ = 1193180"

text \<open>The division comes after the registration and before the first port write.\<close>

definition init_timer ::
  "u32 \<Rightarrow> u32 \<Rightarrow> idt_state \<times> 'a port_state_scheme \<Rightarrow> (idt_state \<times> 'a port_state_scheme) res" where
  "init_timer timer_callback_addr frequency = (\<lambda>(st, io).
     let st = register_interrupt_handler IRQ0 timer_callback_addr st in
     if frequency = 0 then Inl DivideError
     else let divisor = HZ div frequency;
              io = outb 0x43 0x36 io;
              low = ucast (divisor AND 0xff);
              high = ucast (drop_bit 8 divisor AND 0xff);
              io = outb 0x40 low io;
              io = outb 0x40 high io
          in Inr (st, io))"

text \<open>The handler runs \<open>schedule\<close> in the context of the interrupted thread.\<close>

definition timer_callback :: "u32 \<Rightarrow> (cpu \<times> 'b task_state_scheme, 'a) handler" where
  "timer_callback ret regs = (\<lambda>(m, io). bindE (schedule ret m) (\<lambda>m. Inr (m, io)))"

section \<open>The page fault report\<close>

abbreviation newline :: string where "newline \<equiv> [CHR 0x0A]"

text \<open>The state in which \<^verbatim>\<open>page_fault\<close> loops for ever.\<close>

definition note_if :: "bool \<Rightarrow> string \<Rightarrow> 'a console_state_scheme \<Rightarrow> 'a console_state_scheme res" where
  "note_if b s io = (if b then printk_color rc_black rc_red (s @ newline) [] io else Inr io)"

definition page_fault :: "u32 \<Rightarrow> pt_regs \<Rightarrow> 'a console_state_scheme \<Rightarrow> 'a console_state_scheme res" where
  "page_fault cr2 regs io =
     (let err = r_err_code regs in
      bindE (printk (''Page fault at 0x%x, virtual faulting address 0x%x'' @ newline) [Num (r_eip regs), Num cr2] io) (\<lambda>io.
      bindE (printk (''Error code: %x'' @ newline) [Num err] io) (\<lambda>io.
      bindE (note_if (err AND 0x1 = 0) ''Because the page wasn't present.'' io) (\<lambda>io.
      bindE (if err AND 0x2 \<noteq> 0 then note_if True ''Write error.'' io else note_if True ''Read error.'' io) (\<lambda>io.
      bindE (if err AND 0x4 \<noteq> 0 then note_if True ''In user mode.'' io else note_if True ''In kernel mode.'' io) (\<lambda>io.
      bindE (note_if (err AND 0x8 \<noteq> 0) ''Reserved bits being overwritten.'' io) (\<lambda>io.
        note_if (err AND 0x10 \<noteq> 0) ''The fault occurred during an instruction fetch.'' io)))))))"

section \<open>Interrupts\<close>

lemma low_byte:
  fixes d :: u32
  shows "unat (ucast (d AND 0xff) :: u8) = unat d mod 256"
  by (simp add: mask_words(2) unsigned_ucast_eq take_bit_eq_mod unat_mod)

section \<open>Properties\<close>

text \<open>C39: \<open>init_timer\<close> loads the counter of the timer with the low 16 bits of \<^verbatim>\<open>1193180 / frequency\<close>,
  mode byte first, then low and high byte, and registers the handler at vector 32. The counter
  is the divisor exactly for frequencies from 19 on; for 1 to 18 its high bits are lost, and 0
  is a division error, after the handler has been registered but before the timer is touched.\<close>

theorem init_timer_divisor:
  "if f = 0 then init_timer cb f (st, io) = Inl DivideError
   else \<exists>st' io' low high. init_timer cb f (st, io) = Inr (st', io') \<and>
     port_log io' = port_log io @ [(0x43, 0x36), (0x40, low), (0x40, high)] \<and>
     unat low + 256 * unat high = (1193180 div unat f) mod 65536 \<and>
     (unat low + 256 * unat high = 1193180 div unat f) = (19 \<le> unat f) \<and>
     interrupt_handlers st' = (interrupt_handlers st)[32 := cb]"
proof (cases "f = 0")
  case True
  then show ?thesis by (simp add: init_timer_def Let_def)
next
  case False
  define d where "d = HZ div f"
  define q where "q = 1193180 div unat f"
  have d: "unat d = q" by (simp add: d_def q_def unat_div)
  have f: "0 < unat f" using False by (simp add: unat_gt_0)
  have "q < 65536 \<longleftrightarrow> 1193180 < 65536 * unat f"
    using f by (simp add: q_def div_less_iff_less_mult)
  then have q: "q < 65536 \<longleftrightarrow> 19 \<le> unat f" by linarith
  have m: "q mod 65536 = q mod 256 + 256 * (q div 256 mod 256)"
    using mod_mult2_eq [of q 256 256] by simp
  have e: "q mod 65536 = q \<longleftrightarrow> 19 \<le> unat f"
    using q mod_less_divisor [of 65536 q] by (metis mod_less zero_less_numeral)
  have run: "init_timer cb f (st, io) = Inr (register_interrupt_handler IRQ0 cb st,
      outb 0x40 (ucast (drop_bit 8 d AND 0xff)) (outb 0x40 (ucast (d AND 0xff)) (outb 0x43 0x36 io)))"
    using False by (simp only: init_timer_def Let_def prod.case if_False d_def)
  have d8: "unat (drop_bit 8 d) = q div 256" by (simp add: drop_bit_eq_div unat_div d)
  let ?l = "ucast (d AND 0xff) :: u8" and ?h = "ucast (drop_bit 8 d AND 0xff) :: u8"
  have v: "unat ?l + 256 * unat ?h = q mod 65536" by (simp only: low_byte d d8 m)
  have log: "port_log (outb 0x40 ?h (outb 0x40 ?l (outb 0x43 0x36 io))) =
      port_log io @ [(0x43, 0x36), (0x40, ?l), (0x40, ?h)]" by (simp add: outb_def)
  have hs: "interrupt_handlers (register_interrupt_handler IRQ0 cb st) = (interrupt_handlers st)[32 := cb]"
    by (simp add: register_interrupt_handler_def)
  have "\<exists>st' io' low high. init_timer cb f (st, io) = Inr (st', io') \<and>
     port_log io' = port_log io @ [(0x43, 0x36), (0x40, low), (0x40, high)] \<and>
     unat low + 256 * unat high = q mod 65536 \<and>
     (unat low + 256 * unat high = q) = (19 \<le> unat f) \<and>
     interrupt_handlers st' = (interrupt_handlers st)[32 := cb]"
    using run log hs v e by (intro exI conjI) (assumption | simp only:)+
  then show ?thesis using False unfolding q_def by (simp only: if_False)
qed

text \<open>A timer interrupt switches threads: with the handler registered, the interrupt is
  acknowledged at the first controller before the switch, so that the next tick can arrive in
  the thread switched to; then the processor is in the next task of the ring, the invariant
  holds and nothing else was written to a port.\<close>

theorem timer_interrupt_switches:
  fixes st :: "'a task_state_scheme"
  assumes "sched_inv bs ts (c, st)" and "has_room c (current st)" and "current st = ts ! i" and "i < length ts"
    and "r_int_no regs = 32" and "32 < length (interrupt_handlers idt)"
    and "interrupt_handlers idt ! 32 = cb" and "cb \<noteq> 0" and "call cb = timer_callback ret"
  shows "\<exists>c' st'. irq_handler call idt regs ((c, st), io) = Inr ((c', st'), io\<lparr>port_log := port_log io @ [(0x20, 0x20)]\<rparr>) \<and>
    schedule ret (c, st) = Inr (c', st') \<and> sched_inv bs ts (c', st') \<and> current st' = ts ! (Suc i mod length ts)"
proof -
  obtain c' st' where s: "schedule ret (c, st) = Inr (c', st')" "sched_inv bs ts (c', st')"
      "current st' = next_of (mem st) (current st)"
    using schedule_step [OF assms(1,2), of ret] by blast
  have "ring (mem st) ts" using assms(1) by (simp add: sched_inv_def tasks_ok_def)
  then have "current st' = ts ! (Suc i mod length ts)" using s(3) ring_nth [OF _ assms(4)] assms(3) by simp
  then show ?thesis
    using s assms(5-9) by (simp add: irq_handler_def handler_at_def timer_callback_def outb_def Let_def)
qed

theorem timer_interrupt_switches_witness:
  "\<exists>a st regs idt c' st'. current st = 0xC0001000 \<and>
    irq_handler (\<lambda>_. timer_callback 0xC0101234) idt regs ((boot_cpu, st :: task_state), console0) =
      Inr ((c', st'), console0\<lparr>port_log := port_log console0 @ [(0x20, 0x20)]\<rparr>) \<and>
    current st' = [0xC0001000, a] ! (Suc 0 mod length [0xC0001000, a])"
proof -
  obtain bs a and st :: task_state where st: "sched_inv bs [0xC0001000, a] (boot_cpu, st)"
    "current st = 0xC0001000" by (rule boot_thread) blast
  define regs where "regs = \<lparr>r_ds = 0x10, r_edi = 0, r_esi = 0, r_ebp = 0, r_esp = 0, r_ebx = 0, r_edx = 0, r_ecx = 0,
    r_eax = 0, r_int_no = 32, r_err_code = 0, r_eip = 0, r_cs = 8, r_eflags = 0x202, r_user_esp = 0, r_ss = 0\<rparr>"
  define idt where "idt = \<lparr>idt_entries = [], idt_ptr_var = \<lparr>idt_ptr_limit = 0, idt_ptr_base = 0\<rparr>,
    idtr = \<lparr>idt_ptr_limit = 0, idt_ptr_base = 0\<rparr>, interrupt_handlers = replicate 256 1\<rparr>"
  have "has_room boot_cpu (current st)" "current st = [0xC0001000, a] ! 0" "0 < length [0xC0001000, a]"
      "r_int_no regs = 32" "32 < length (interrupt_handlers idt)" "interrupt_handlers idt ! 32 = 1" "(1 :: u32) \<noteq> 0"
    by (simp_all add: st(2) has_room_def boot_cpu_def regs_def idt_def)
  from timer_interrupt_switches [OF st(1) this, where call = "\<lambda>_. timer_callback 0xC0101234" and io = console0, OF refl] st(2) show ?thesis by blast
qed

end
