(* ===== verification/Tick.thy ===== *)
theory Tick
  imports Preempt Stubs Timer
begin

text \<open>
  A timer interrupt from the interrupted instruction back to it, through the stub, the handler,
  the scheduler, the other threads, the switch back and the rest of the stub. The theory puts the
  parts of \<open>Stubs\<close>, \<open>Timer\<close> and \<open>Preempt\<close> together.
\<close>

section \<open>The compiled code in between\<close>

text \<open>
  Between the stub's call and the call of \<^verbatim>\<open>switch_to\<close> runs compiled code, \<^verbatim>\<open>irq_handler\<close>,
  \<^verbatim>\<open>timer_callback\<close>, \<^verbatim>\<open>schedule\<close> and \<^verbatim>\<open>change_task_to\<close>: the calling convention is all that is
  assumed of it. On the way down it writes only to the stack of the thread \<open>t\<close>, below the
  argument of the call, and lowers the stack pointer.
\<close>

definition calls_down ::
  "u32 \<Rightarrow> stub_cpu \<times> 'a task_state_scheme \<Rightarrow> cpu \<times> 'a task_state_scheme \<Rightarrow> bool" where
  "calls_down t s sd \<longleftrightarrow> has_room (fst sd) t \<and> unat (esp (fst sd)) \<le> unat (esp (fst s)) \<and>
     snd sd = (snd s)\<lparr>mem := mem (snd sd)\<rparr> \<and>
     (\<forall>x. \<not> (unat t + 44 \<le> unat x \<and> unat x < unat (esp (fst s)) + 8) \<longrightarrow> mem (snd sd) x = mem (snd s) x)"

text \<open>
  On the way up, when \<^verbatim>\<open>switch_to\<close> returns in the state \<open>su\<close> with the registers a function keeps
  and the frames as they were in \<open>sd\<close>, the stack pointer comes back to where it was at the entry
  in \<open>s\<close>, and again only the stack of the thread below the argument is written.
\<close>

definition returns_up ::
  "u32 \<Rightarrow> stub_cpu \<times> 'a task_state_scheme \<Rightarrow> cpu \<times> 'a task_state_scheme \<Rightarrow> cpu \<times> 'a task_state_scheme \<Rightarrow>
    stub_cpu \<times> 'a task_state_scheme \<Rightarrow> bool" where
  "returns_up t s sd su s' \<longleftrightarrow>
     (esp (fst su) = esp (fst sd) - 8 \<and> ebp (fst su) = ebp (fst sd) \<and> ebx (fst su) = ebx (fst sd) \<and>
       esi (fst su) = esi (fst sd) \<and> edi (fst su) = edi (fst sd) \<and>
       (\<forall>x. unat (esp (fst sd)) \<le> unat x \<and> unat x < unat (esp (fst s)) + 8 \<longrightarrow> mem (snd su) x = mem (snd sd) x) \<longrightarrow>
     esp (fst s') = esp (fst s) \<and> snd s' = (snd su)\<lparr>mem := mem (snd s')\<rparr> \<and>
     (\<forall>x. \<not> (unat t + 44 \<le> unat x \<and> unat x < unat (esp (fst s)) + 8) \<longrightarrow> mem (snd s') x = mem (snd su) x))"

section \<open>Into the scheduler\<close>

text \<open>The way into the scheduler is work of the thread itself.\<close>

lemma own_stack_step:
  fixes st st' :: "'a task_state_scheme"
  assumes "sched_inv bs ts (c, st)" and "running c' (current st)" and "st' = st\<lparr>mem := mem st'\<rparr>"
    and "\<And>x. \<not> (unat (current st) + 44 \<le> unat x \<and> unat x < unat (current st) + 8192) \<Longrightarrow> mem st' x = mem st x"
  shows "sched_inv bs ts (c', st')"
proof -
  have "kernel_step Work (c, st) (c', st\<lparr>mem := mem st'\<rparr>)"
    using assms(2,4) by (intro kernel_step.work) (auto simp: own_byte_def)
  then have "kernel_step Work (c, st) (c', st')" unfolding assms(3) [symmetric] .
  with work_step [OF assms(1)] show ?thesis by simp
qed

lemma current_mem: "st' = st\<lparr>mem := m\<rparr> \<Longrightarrow> current st' = current st" by simp

lemma tick_enters:
  fixes st :: "'a task_state_scheme"
  assumes inv: "sched_inv bs ts (cpu.truncate c, st)" and room: "unat (current st) + 124 \<le> unat (esp c)"
  shows "\<exists>c1 st1. interrupt_enter stub False 32 None stub_ret (c, st) = Inr (c1, st1) \<and> esp c1 = esp c - 64 \<and>
    unat (esp c1) + 64 = unat (esp c) \<and> st1 = st\<lparr>mem := mem st1\<rparr> \<and> mapped st (esp c1) 64 \<and>
    r_int_no (pt_regs_at (mem st1) (esp c1 + 8)) = 32 \<and>
    words_at (mem st1) (esp c1 + 8) (interrupt_frame c 32 None) \<and> same_outside (esp c1) 64 (mem st) (mem st1) \<and>
    (\<forall>cd std. calls_down (current st) (c1, st1) (cd, std) \<longrightarrow> sched_inv bs ts (cd, std))"
proof -
  let ?t = "current st" and ?G = "esp c - 64"
  have ok: "tasks_ok bs ts st" and run: "unat (esp c) \<le> unat ?t + 8192"
    using inv by (simp_all add: sched_inv_def running_def cpu.defs)
  note m = tasks_okD(8) [OF ok tasks_okD(4) [OF ok]]
  have G: "unat ?G + 64 = unat (esp c)" using room by (simp add: unat_sub_if')
  have r: "mapped st ?G 64" by (rule mapped_sub [OF m]) (use G room run in auto)
  obtain c1 m1 where i: "interrupt_enter stub False 32 None stub_ret (c, st) = Inr (c1, st\<lparr>mem := m1\<rparr>)" "esp c1 = ?G"
      and w: "words_at m1 ?G (stub_ret # (?G + 8) # interrupt_frame c 32 None)" and o: "same_outside ?G 64 (mem st) m1"
    using interrupt_entered [OF _ r, of c None False stub 32 stub_ret] by auto
  have f: "words_at m1 (?G + 8) (interrupt_frame c 32 None)" using w by (simp add: words_at_simps add.assoc)
  then have n: "r_int_no (pt_regs_at m1 (?G + 8)) = 32"
    by (simp add: pt_regs_at_def interrupt_frame_def words_at_simps add.assoc)
  have "sched_inv bs ts (cd, std)" if d: "calls_down ?t (c1, st\<lparr>mem := m1\<rparr>) (cd, std)" for cd std
  proof (rule own_stack_step [OF inv])
    show "running cd ?t" using d by (simp add: calls_down_def has_room_def running_def)
    show "std = st\<lparr>mem := mem std\<rparr>" using d by (simp add: calls_down_def)
    fix x :: u32
    assume x: "\<not> (unat ?t + 44 \<le> unat x \<and> unat x < unat ?t + 8192)"
    then have "\<not> (unat ?t + 44 \<le> unat x \<and> unat x < unat ?G + 8)" "\<not> (unat ?G \<le> unat x \<and> unat x < unat ?G + 64)"
      using G room run by auto
    then show "mem std x = mem st x" using d o i(2) by (auto simp: calls_down_def same_outside_def)
  qed
  then show ?thesis using i G r n f o
    by (intro exI [of _ c1] exI [of _ "st\<lparr>mem := m1\<rparr>"]) (simp add: i(2))
qed

section \<open>And back\<close>

lemma tick_climbs:
  fixes st3 :: "'a task_state_scheme"
  assumes inv: "sched_inv bs ts (c3, st3)" and t: "current st3 = t" and G: "unat G + 64 = unat (esp c)"
    and room: "unat t + 124 \<le> unat (esp c)" and run: "unat (esp c) \<le> unat t + 8192"
    and w: "words_at (mem st3) (G + 8) (interrupt_frame c 32 None)" and e: "esp c4 = G" "st4 = st3\<lparr>mem := mem st4\<rparr>"
    and k: "\<And>x. \<not> (unat t + 44 \<le> unat x \<and> unat x < unat G + 8) \<Longrightarrow> mem st4 x = mem st3 x"
  shows "stub_leave (c4, st4) = Inr (went_on c, st4)" and "current st4 = t"
    and "sched_inv bs ts (cpu.truncate (went_on c), st4)"
proof -
  have m: "mapped st3 G 64"
    using sched_invD(1) [OF inv] t G room run by (intro mapped_sub [OF tasks_okD(8) [OF _ tasks_okD(4)]]) auto
  then have m4: "mapped st4 G 64" by (subst e(2)) simp
  have G8: "unat (G + 8) = unat G + 8" using m unat_plus_small [of G 8] by (simp add: mapped_def)
  have f: "words_at (mem st4) (G + 8) (interrupt_frame c 32 None)"
    using m by (intro words_at_cong [OF w] k) (simp_all add: G8 interrupt_frame_def mapped_def)
  have "esp c = G + 64" using G m word_unat_eq_iff [of "esp c" "G + 64"] unat_plus_of_nat_small [of G 64]
      unat_less_u32 [of "esp c"] by simp
  from interrupt_left [OF e(1) m4 f this] show "stub_leave (c4, st4) = Inr (went_on c, st4)" .
  show "current st4 = t" by (subst e(2)) (simp add: t)
  show "sched_inv bs ts (cpu.truncate (went_on c), st4)"
    using room run G by (intro own_stack_step [OF inv _ e(2)] k) (auto simp: t running_def cpu.defs)
qed

lemma tick_returns:
  fixes st :: "'a task_state_scheme"
  assumes inv: "sched_inv bs ts (cd, std)" and dn: "calls_down (current st) (c1, st1) (cd, std)"
    and st1: "st1 = st\<lparr>mem := mem st1\<rparr>" and G: "unat (esp c1) + 64 = unat (esp c)"
    and room: "unat (current st) + 124 \<le> unat (esp c)" and run: "unat (esp c) \<le> unat (current st) + 8192"
    and w: "words_at (mem st1) (esp c1 + 8) (interrupt_frame c 32 None)"
    and o: "same_outside (esp c1) 64 (mem st) (mem st1)"
    and go: "schedule ret (cd, std) = Inr s1" and slept: "slept (current st) es s1 (c2, st2)"
    and room2: "has_room c2 (current st2)" and nx: "next_of (mem st2) (current st2) = current st"
  shows "\<exists>c3 st3. schedule ret' (c2, st2) = Inr (c3, st3) \<and> eip c3 = ret \<and>
    (\<forall>c4 st4. returns_up (current st) (c1, st1) (cd, std) (c3, st3) (c4, st4) \<longrightarrow>
      stub_leave (c4, st4) = Inr (went_on c, st4) \<and> current st4 = current st \<and>
      (\<exists>bs' us. sched_inv bs' (ts @ us) (cpu.truncate (went_on c), st4)) \<and>
      (\<forall>x. in_area (current st) x \<longrightarrow> unat (esp c) \<le> unat x \<longrightarrow> mem st4 x = mem st x))"
proof -
  let ?t = "current st" and ?G = "esp c1"
  have "std = st1\<lparr>mem := mem std\<rparr>" using dn by (simp add: calls_down_def)
  from current_mem [OF this] current_mem [OF st1] have cur: "current std = ?t" by simp
  have d: "has_room cd ?t" "unat (esp cd) \<le> unat ?G"
    "\<And>x. \<not> (unat ?t + 44 \<le> unat x \<and> unat x < unat ?G + 8) \<Longrightarrow> mem std x = mem st1 x"
    using dn by (simp_all add: calls_down_def)
  obtain c3 st3 bs' us where s: "schedule ret' (c2, st2) = Inr (c3, st3)" "current st3 = ?t" "eip c3 = ret"
      "esp c3 = esp cd - 8" "ebp c3 = ebp cd" "ebx c3 = ebx cd" "esi c3 = esi cd" "edi c3 = edi cd"
      "sched_inv bs' (ts @ us) (c3, st3)"
    and keep: "\<And>x. in_area ?t x \<Longrightarrow> unat (esp cd) \<le> unat x \<Longrightarrow> mem st3 x = mem std x"
    using thread_resumes [OF inv, unfolded cur, OF d(1) go slept room2 nx, of ret'] by blast
  have a: "in_area ?t x" if "unat (esp cd) \<le> unat x" "unat x < unat ?G + 64" for x
    using that d(1) G run by (simp add: in_area_def has_room_def)
  have up: "mem st3 x = mem st1 x" if "in_area ?t x" "unat ?G + 8 \<le> unat x" for x
    using keep [OF that(1)] d(2,3) that(2) by simp
  have tb: "unat ?t + 8192 < 4294967296" using task_bound [OF sched_invD(1) [OF s(9)]] s(2) tasks_okD(4) [OF sched_invD(1) [OF s(9)]] by simp
  have G8: "unat (?G + 8) = unat ?G + 8" using G run tb unat_plus_small [of ?G 8] by simp
  have w3: "words_at (mem st3) (?G + 8) (interrupt_frame c 32 None)"
    using G G8 d(2) run tb by (intro words_at_cong [OF w] up a) (simp_all add: interrupt_frame_def)
  have "stub_leave (c4, st4) = Inr (went_on c, st4) \<and> current st4 = ?t \<and>
      (\<exists>bs' us. sched_inv bs' (ts @ us) (cpu.truncate (went_on c), st4)) \<and>
      (\<forall>x. in_area ?t x \<longrightarrow> unat (esp c) \<le> unat x \<longrightarrow> mem st4 x = mem st x)"
    if r: "returns_up ?t (c1, st1) (cd, std) (c3, st3) (c4, st4)" for c4 st4
  proof -
    have e: "esp c4 = ?G" "st4 = st3\<lparr>mem := mem st4\<rparr>"
      and k: "\<And>x. \<not> (unat ?t + 44 \<le> unat x \<and> unat x < unat ?G + 8) \<Longrightarrow> mem st4 x = mem st3 x"
      using r s keep a by (simp_all add: returns_up_def)
    have "mem st4 x = mem st x" if "in_area ?t x" "unat (esp c) \<le> unat x" for x
      using k [of x] up [of x] that G o by (simp add: same_outside_def)
    then show ?thesis using tick_climbs [OF s(9,2) G room run w3 e k] by blast
  qed
  then show ?thesis using s(1,3) by blast
qed

section \<open>Properties\<close>

text \<open>C10: A timer interrupt is invisible to the code it interrupts, threads and all. The processor and
  the stub save the registers, \<^verbatim>\<open>irq_handler\<close> acknowledges the interrupt and its scheduler leaves the
  thread; other threads run, create threads and allocate, in any order and as long as they like;
  then a tick in one of them switches back behind the call of \<^verbatim>\<open>switch_to\<close>, and the rest of the stub
  returns to the interrupted instruction: with all its registers, its stack and the invariant of the
  scheduler. Of the compiled code between the stub and the switch only the calling convention is
  assumed, and of the thread 124 bytes of room on its stack: 64 for the frame and 60 for the scheduler.
  Nothing here can fault.\<close>

theorem timer_interrupt_invisible:
  fixes st :: "'a task_state_scheme" and c :: stub_cpu
  assumes "sched_inv bs ts (cpu.truncate c, st)" and "unat (current st) + 124 \<le> unat (esp c)"
    and "32 < length (interrupt_handlers idt)" and "interrupt_handlers idt ! 32 = cb" and "cb \<noteq> 0"
    and "call cb = timer_callback ret"
  shows "\<exists>c1 st1. interrupt_enter stub False 32 None stub_ret (c, st) = Inr (c1, st1) \<and>
    (\<forall>cd std. calls_down (current st) (c1, st1) (cd, std) \<longrightarrow>
      (\<exists>s1. irq_handler call idt (pt_regs_at (mem st1) (esp c1 + 8)) ((cd, std), io) =
          Inr (s1, io\<lparr>port_log := port_log io @ [(0x20, 0x20)]\<rparr>) \<and>
        (\<forall>es c2 st2. slept (current st) es s1 (c2, st2) \<longrightarrow> has_room c2 (current st2) \<longrightarrow>
          next_of (mem st2) (current st2) = current st \<longrightarrow>
          (\<exists>c3 st3. schedule ret' (c2, st2) = Inr (c3, st3) \<and> eip c3 = ret \<and>
            (\<forall>c4 st4. returns_up (current st) (c1, st1) (cd, std) (c3, st3) (c4, st4) \<longrightarrow>
              stub_leave (c4, st4) = Inr (went_on c, st4) \<and> current st4 = current st \<and>
              (\<exists>bs' us. sched_inv bs' (ts @ us) (cpu.truncate (went_on c), st4)) \<and>
              (\<forall>x. in_area (current st) x \<longrightarrow> unat (esp c) \<le> unat x \<longrightarrow> mem st4 x = mem st x))))))"
proof -
  have run: "unat (esp c) \<le> unat (current st) + 8192" using assms(1) by (simp add: sched_inv_def running_def cpu.defs)
  obtain c1 st1 where i: "interrupt_enter stub False 32 None stub_ret (c, st) = Inr (c1, st1)"
      "unat (esp c1) + 64 = unat (esp c)" "st1 = st\<lparr>mem := mem st1\<rparr>"
      "r_int_no (pt_regs_at (mem st1) (esp c1 + 8)) = 32"
      "words_at (mem st1) (esp c1 + 8) (interrupt_frame c 32 None)" "same_outside (esp c1) 64 (mem st) (mem st1)"
    and d: "\<And>cd std. calls_down (current st) (c1, st1) (cd, std) \<Longrightarrow> sched_inv bs ts (cd, std)"
    using tick_enters [OF assms(1,2), of stub stub_ret] by blast
  have "\<exists>s1. irq_handler call idt (pt_regs_at (mem st1) (esp c1 + 8)) ((cd, std), io) =
      Inr (s1, io\<lparr>port_log := port_log io @ [(0x20, 0x20)]\<rparr>) \<and>
      (\<forall>es c2 st2. slept (current st) es s1 (c2, st2) \<longrightarrow> has_room c2 (current st2) \<longrightarrow>
        next_of (mem st2) (current st2) = current st \<longrightarrow>
        (\<exists>c3 st3. schedule ret' (c2, st2) = Inr (c3, st3) \<and> eip c3 = ret \<and>
          (\<forall>c4 st4. returns_up (current st) (c1, st1) (cd, std) (c3, st3) (c4, st4) \<longrightarrow>
            stub_leave (c4, st4) = Inr (went_on c, st4) \<and> current st4 = current st \<and>
            (\<exists>bs' us. sched_inv bs' (ts @ us) (cpu.truncate (went_on c), st4)) \<and>
            (\<forall>x. in_area (current st) x \<longrightarrow> unat (esp c) \<le> unat x \<longrightarrow> mem st4 x = mem st x))))"
    if dn: "calls_down (current st) (c1, st1) (cd, std)" for cd std
  proof -
    have "std = st1\<lparr>mem := mem std\<rparr>" "has_room cd (current st)" using dn by (simp_all add: calls_down_def)
    with current_mem [OF this(1)] current_mem [OF i(3)] have "has_room cd (current std)" by simp
    from schedule_step [OF d [OF dn] this, of ret] obtain s1 where s: "schedule ret (cd, std) = Inr s1" by blast
    then have "irq_handler call idt (pt_regs_at (mem st1) (esp c1 + 8)) ((cd, std), io) =
        Inr (s1, io\<lparr>port_log := port_log io @ [(0x20, 0x20)]\<rparr>)"
      using assms(3-6) i(4) by (simp add: irq_handler_def handler_at_def timer_callback_def outb_def Let_def)
    with tick_returns [OF d [OF dn] dn i(3,2) assms(2) run i(5,6) s] show ?thesis by blast
  qed
  with i(1) show ?thesis by blast
qed

text \<open>The first task of the boot, interrupted while a second thread waits.\<close>

theorem timer_interrupt_invisible_witness:
  "\<exists>st c1 st1 s1 c2 st2 c3 st3.
    interrupt_enter 0xC0102000 False 32 None 0xC0102040 (cpu1, st :: task_state) = Inr (c1, st1) \<and>
    irq_handler (\<lambda>_. timer_callback 0xC0101234) idt1 (pt_regs_at (mem st1) (esp c1 + 8))
      ((cpu.truncate c1, st1), console0) = Inr (s1, console0\<lparr>port_log := port_log console0 @ [(0x20, 0x20)]\<rparr>) \<and>
    kernel_run [Work] s1 (c2, st2) \<and> schedule 0xC0101234 (c2, st2) = Inr (c3, st3) \<and>
    stub_leave (c1, st3) = Inr (cpu1, st3)"
proof -
  obtain bs a and st :: task_state where st: "sched_inv bs [0xC0001000, a] (boot_cpu, st)"
    "current st = 0xC0001000" by (rule boot_thread) blast
  have c: "went_on cpu1 = cpu1" by (simp add: cpu1_def iret_flags_def)
  have "running (cpu.truncate cpu1) (current st)" by (simp add: running_def cpu1_def cpu.defs st(2))
  then have inv: "sched_inv bs [0xC0001000, a] (cpu.truncate cpu1, st)" using st(1) by (simp add: sched_inv_def)
  have room: "unat (current st) + 124 \<le> unat (esp cpu1)" by (simp add: st(2) cpu1_def)
  have h: "32 < length (interrupt_handlers idt1)" "interrupt_handlers idt1 ! 32 = 0xC0103000" "(0xC0103000 :: u32) \<noteq> 0"
    by (simp_all add: idt1_def)
  note T = timer_interrupt_invisible [OF inv room h, where call = "\<lambda>_. timer_callback 0xC0101234" and io = console0
      and stub = "0xC0102000" and stub_ret = "0xC0102040" and ret' = "0xC0101234", OF refl, unfolded c]
  note E = tick_enters [OF inv room, of "0xC0102000" "0xC0102040"]
  from T show ?thesis
  proof (elim exE conjE, goal_cases)
    case (1 c1 st1)
    have e: "esp c1 = esp cpu1 - 64" "st1 = st\<lparr>mem := mem st1\<rparr>"
      using E 1(1) by auto
    have cur: "current st1 = current st" by (rule current_mem [OF e(2)])
    have room1: "has_room (cpu.truncate c1) (current st)"
      by (simp add: has_room_def cpu.defs e(1) st(2) cpu1_def)
    then have dn: "calls_down (current st) (c1, st1) (cpu.truncate c1, st1)"
      by (simp add: calls_down_def cpu.defs)
    with E 1(1) have i1: "sched_inv bs [0xC0001000, a] (cpu.truncate c1, st1)" by auto
    from 1(2) dn obtain s1 where s1:
      "irq_handler (\<lambda>_. timer_callback 0xC0101234) idt1 (pt_regs_at (mem st1) (esp c1 + 8))
        ((cpu.truncate c1, st1), console0) = Inr (s1, console0\<lparr>port_log := port_log console0 @ [(0x20, 0x20)]\<rparr>)"
      and g: "\<forall>es c2 st2. slept (current st) es s1 (c2, st2) \<longrightarrow> has_room c2 (current st2) \<longrightarrow>
          next_of (mem st2) (current st2) = current st \<longrightarrow>
          (\<exists>c3 st3. schedule 0xC0101234 (c2, st2) = Inr (c3, st3) \<and> eip c3 = 0xC0101234 \<and>
            (\<forall>c4 st4. returns_up (current st) (c1, st1) (cpu.truncate c1, st1) (c3, st3) (c4, st4) \<longrightarrow>
              stub_leave (c4, st4) = Inr (cpu1, st4) \<and> current st4 = current st \<and>
              (\<exists>bs' us. sched_inv bs' ([0xC0001000, a] @ us) (cpu.truncate cpu1, st4)) \<and>
              (\<forall>x. in_area (current st) x \<longrightarrow> unat (esp cpu1) \<le> unat x \<longrightarrow> mem st4 x = mem st x)))"
      by blast
    have "r_int_no (pt_regs_at (mem st1) (esp c1 + 8)) = 32" using E 1(1) by auto
    then have "schedule 0xC0101234 (cpu.truncate c1, st1) = Inr s1"
      using s1 by (auto simp: irq_handler_def handler_at_def timer_callback_def outb_def Let_def idt1_def bindE_def split: sum.splits)
    from pair_sleeps [OF i1 trans [OF cur st(2)] room1 [unfolded st(2)] this] obtain c2 st2
      where r: "slept (current st) [Work] s1 (c2, st2)" "has_room c2 (current st2)" "next_of (mem st2) (current st2) = current st" by (auto simp: st(2))
    with g obtain c3 st3 where s3: "schedule 0xC0101234 (c2, st2) = Inr (c3, st3)"
      and u: "\<forall>c4 st4. returns_up (current st) (c1, st1) (cpu.truncate c1, st1) (c3, st3) (c4, st4) \<longrightarrow>
        stub_leave (c4, st4) = Inr (cpu1, st4)" by blast
    have "returns_up (current st) (c1, st1) (cpu.truncate c1, st1) (c3, st3) (c1, st3)"
      by (simp add: returns_up_def)
    with u have "stub_leave (c1, st3) = Inr (cpu1, st3)" by blast
    with 1(1) s1 slept_run [OF r(1)] s3 show ?thesis by blast
  qed
qed

end
