(* ===== verification/Debug.thy ===== *)
theory Debug
  imports Mstring Printk
begin

text \<open>
  The symbol tables and the stack trace of a panic: \<^verbatim>\<open>kernel/debug/melf.c\<close>,
  \<^verbatim>\<open>kernel/debug/debug.c\<close> and the memory map printed by \<^verbatim>\<open>mm/pmm.c\<close>. The structures of the boot
  loader and of the ELF file are read from memory through the page tables, by the offsets of
  their packed fields. The addresses of the literals \<^verbatim>\<open>.strtab\<close> and \<^verbatim>\<open>.symtab\<close> are chosen by
  the compiler and are parameters.
\<close>

lemma unat_Suc_below: "(i :: u32) < n \<Longrightarrow> unat (i + 1) = unat i + 1"
  using unat_plus_small [of i 1] unat_less_u32 [of n] by (simp add: word_less_nat_alt)

section \<open>Data\<close>

text \<open>The structure of the boot loader, 24 words, and the addresses of the fields the kernel reads.\<close>

record mutilboot =
  mbi_flags :: u32
  mbi_mem_lower :: u32
  mbi_mem_upper :: u32
  mbi_boot_device :: u32
  mbi_cmdline :: u32
  mbi_mods_count :: u32
  mbi_mods_addr :: u32
  mbi_num :: u32
  mbi_size :: u32
  mbi_addr :: u32
  mbi_shndx :: u32
  mbi_mmap_length :: u32
  mbi_mmap_addr :: u32
  mbi_drivers_length :: u32
  mbi_drivers_addr :: u32
  mbi_config_table :: u32
  mbi_boot_loader_name :: u32
  mbi_apm_table :: u32
  mbi_vbe_control_info :: u32
  mbi_vbe_mode_info :: u32
  mbi_vbe_mode :: u32
  mbi_vbe_interface_seg :: u32
  mbi_vbe_interface_off :: u32
  mbi_vbe_interface_len :: u32

definition mutilboot_at :: "bytes \<Rightarrow> u32 \<Rightarrow> mutilboot" where
  "mutilboot_at m p = \<lparr>mbi_flags = load32 m p, mbi_mem_lower = load32 m (p + 4), mbi_mem_upper = load32 m (p + 8),
     mbi_boot_device = load32 m (p + 12), mbi_cmdline = load32 m (p + 16), mbi_mods_count = load32 m (p + 20),
     mbi_mods_addr = load32 m (p + 24), mbi_num = load32 m (p + 28), mbi_size = load32 m (p + 32),
     mbi_addr = load32 m (p + 36), mbi_shndx = load32 m (p + 40), mbi_mmap_length = load32 m (p + 44),
     mbi_mmap_addr = load32 m (p + 48), mbi_drivers_length = load32 m (p + 52), mbi_drivers_addr = load32 m (p + 56),
     mbi_config_table = load32 m (p + 60), mbi_boot_loader_name = load32 m (p + 64), mbi_apm_table = load32 m (p + 68),
     mbi_vbe_control_info = load32 m (p + 72), mbi_vbe_mode_info = load32 m (p + 76), mbi_vbe_mode = load32 m (p + 80),
     mbi_vbe_interface_seg = load32 m (p + 84), mbi_vbe_interface_off = load32 m (p + 88), mbi_vbe_interface_len = load32 m (p + 92)\<rparr>"

definition mb_num :: "u32 \<Rightarrow> u32" where [simp]: "mb_num mb = mb + 28"
definition mb_addr :: "u32 \<Rightarrow> u32" where [simp]: "mb_addr mb = mb + 36"
definition mb_shndx :: "u32 \<Rightarrow> u32" where [simp]: "mb_shndx mb = mb + 40"
definition mb_mmap_length :: "u32 \<Rightarrow> u32" where [simp]: "mb_mmap_length mb = mb + 44"
definition mb_mmap_addr :: "u32 \<Rightarrow> u32" where [simp]: "mb_mmap_addr mb = mb + 48"

lemma mutilboot_fields:
  "mbi_num (mutilboot_at m p) = load32 m (mb_num p)" "mbi_addr (mutilboot_at m p) = load32 m (mb_addr p)"
  "mbi_shndx (mutilboot_at m p) = load32 m (mb_shndx p)"
  "mbi_mmap_length (mutilboot_at m p) = load32 m (mb_mmap_length p)"
  "mbi_mmap_addr (mutilboot_at m p) = load32 m (mb_mmap_addr p)"
  by (simp_all add: mutilboot_at_def)

text \<open>A section header (40 bytes) and a symbol (16 bytes).\<close>

record elf_section_header =
  sh_name :: u32
  sh_type :: u32
  sh_flags :: u32
  sh_addr :: u32
  sh_offset :: u32
  sh_size :: u32
  sh_link :: u32
  sh_info :: u32
  sh_addralign :: u32
  sh_entsize :: u32

definition section_at :: "bytes \<Rightarrow> u32 \<Rightarrow> elf_section_header" where
  "section_at m p = \<lparr>sh_name = load32 m p, sh_type = load32 m (p + 4), sh_flags = load32 m (p + 8),
     sh_addr = load32 m (p + 12), sh_offset = load32 m (p + 16), sh_size = load32 m (p + 20),
     sh_link = load32 m (p + 24), sh_info = load32 m (p + 28), sh_addralign = load32 m (p + 32),
     sh_entsize = load32 m (p + 36)\<rparr>"

record elf_symbol =
  st_name :: u32
  st_value :: u32
  st_size :: u32
  st_info :: u8
  st_other :: u8
  st_shndx :: u16

definition symbol_at :: "bytes \<Rightarrow> u32 \<Rightarrow> elf_symbol" where
  "symbol_at m p = \<lparr>st_name = load32 m p, st_value = load32 m (p + 4), st_size = load32 m (p + 8),
     st_info = m (p + 12), st_other = m (p + 13),
     st_shndx = ucast (m (p + 14)) OR push_bit 8 (ucast (m (p + 15)))\<rparr>"

definition ELF32_ST_TYPE :: "u8 \<Rightarrow> u8" where "ELF32_ST_TYPE i = i AND 0xf"

text \<open>The tables found. A field no section has set is indeterminate, here \<open>None\<close>.\<close>

record elf =
  symtab :: "u32 option"
  symtabsz :: "u32 option"
  strtab :: "u32 option"
  strtabsz :: "u32 option"

definition get_field :: "u32 option \<Rightarrow> u32 res" where
  "get_field f = (case f of None \<Rightarrow> Inl (Undefined ''elf'') | Some v \<Rightarrow> Inr v)"

section \<open>Operations on the tables\<close>

text \<open>
  The loop over the sections. \<open>lit_strtab\<close> and \<open>lit_symtab\<close> are the addresses of the literals.
  \<^verbatim>\<open>i\<close> is an \<^verbatim>\<open>int\<close>, compared with an unsigned number.
\<close>

function elf_sections ::
  "u32 \<Rightarrow> u32 \<Rightarrow> u32 \<Rightarrow> u32 \<Rightarrow> u32 \<Rightarrow> u32 \<Rightarrow> elf \<Rightarrow> 'a vmm_state_scheme \<Rightarrow> elf res option" where
  "elf_sections lit_strtab lit_symtab sh shstrtab num i elf st =
     (if i < num then
        bindO (Some (read32 (sh + 40 * i) st)) (\<lambda>n. let name = shstrtab + n + PAGE_OFFSET in
        bindO (strcmp name lit_strtab st) (\<lambda>c.
        bindO (if c = 0 then
                 bindO (Some (read32 (sh + 40 * i + 12) st)) (\<lambda>a.
                 bindO (Some (read32 (sh + 40 * i + 20) st)) (\<lambda>z.
                   Some (Inr (elf\<lparr>strtab := Some (a + PAGE_OFFSET), strtabsz := Some z\<rparr>))))
               else
                 bindO (strcmp name lit_symtab st) (\<lambda>c.
                 if c = 0 then
                   bindO (Some (read32 (sh + 40 * i + 12) st)) (\<lambda>a.
                   bindO (Some (read32 (sh + 40 * i + 20) st)) (\<lambda>z.
                     Some (Inr (elf\<lparr>symtab := Some (a + PAGE_OFFSET), symtabsz := Some z\<rparr>))))
                 else Some (Inr elf))) (\<lambda>elf.
        if i = 0x7fffffff then Some (Inl (Undefined ''int overflow''))
        else elf_sections lit_strtab lit_symtab sh shstrtab num (i + 1) elf st)))
      else Some (Inr elf))"
  by pat_completeness auto
termination
proof (relation "measure (\<lambda>(a, b, sh, s, num, i, elf, st). unat num - unat i)", goal_cases)
  case (2 a b sh s num i elf st)
  then show ?case by (simp add: unat_Suc_below word_less_nat_alt)
qed simp

declare elf_sections.simps [simp del]

definition elf_from_mutilboot ::
  "u32 \<Rightarrow> u32 \<Rightarrow> u32 \<Rightarrow> 'a vmm_state_scheme \<Rightarrow> elf res option" where
  "elf_from_mutilboot lit_strtab lit_symtab mb st =
     bindO (Some (read32 (mb_addr mb) st)) (\<lambda>sh.
     bindO (Some (read32 (mb_shndx mb) st)) (\<lambda>shndx.
     bindO (Some (read32 (sh + 40 * shndx + 12) st)) (\<lambda>shstrtab.
     bindO (Some (read32 (mb_num mb) st)) (\<lambda>num.
       elf_sections lit_strtab lit_symtab sh shstrtab num 0
         \<lparr>symtab = None, symtabsz = None, strtab = None, strtabsz = None\<rparr> st))))"

text \<open>The loop over the symbols; the conditions are evaluated from left to right. 0 is \<^verbatim>\<open>NULL\<close>.\<close>

function elf_lookup_from :: "u32 \<Rightarrow> elf \<Rightarrow> u32 \<Rightarrow> u32 \<Rightarrow> 'a vmm_state_scheme \<Rightarrow> u32 res" where
  "elf_lookup_from addr elf n i st =
     (if i < n then
        bindE (get_field (symtab elf)) (\<lambda>tab. let s = tab + 16 * i in
        bindE (read8 (s + 12) st) (\<lambda>info.
        if ELF32_ST_TYPE info \<noteq> 0x2 then elf_lookup_from addr elf n (i + 1) st
        else bindE (read32 (s + 4) st) (\<lambda>val.
        if val \<le> addr then
          bindE (read32 (s + 8) st) (\<lambda>sz.
          if addr < val + sz then
            bindE (get_field (strtab elf)) (\<lambda>str. bindE (read32 s st) (\<lambda>n. Inr (str + n)))
          else elf_lookup_from addr elf n (i + 1) st)
        else elf_lookup_from addr elf n (i + 1) st)))
      else Inr 0)"
  by pat_completeness auto
termination
proof -
  have d: "unat n - unat (i + 1) < unat n - unat i" if "i < n" for n i :: u32
    using that by (simp add: unat_Suc_below word_less_nat_alt)
  show ?thesis
    by (relation "measure (\<lambda>(a, elf, n, i, st). unat n - unat i)") (auto intro: d)
qed

declare elf_lookup_from.simps [simp del]

definition elf_lookup_symbol :: "u32 \<Rightarrow> elf \<Rightarrow> 'a vmm_state_scheme \<Rightarrow> u32 res" where
  "elf_lookup_symbol addr elf st =
     bindE (get_field (symtabsz elf)) (\<lambda>sz. elf_lookup_from addr elf (sz div 16) 0 st)"

section \<open>Tables that are mapped\<close>

text \<open>Entry \<open>i\<close> of a mapped array whose entries have \<open>w\<close> bytes.\<close>

lemma entry_access:
  assumes "mapped st t n"
  shows "unat w * unat i + k + 4 \<le> n \<Longrightarrow>
      read32 (t + w * i + of_nat k) st = Inr (load32 (mem st) (t + w * i + of_nat k))"
    and "unat w * unat i + k < n \<Longrightarrow> read8 (t + w * i + of_nat k) st = Inr (mem st (t + w * i + of_nat k))"
proof -
  have "t + w * i + of_nat k = t + of_nat (unat w * unat i + k)"
    by (simp add: add.assoc)
  then show "unat w * unat i + k + 4 \<le> n \<Longrightarrow>
      read32 (t + w * i + of_nat k) st = Inr (load32 (mem st) (t + w * i + of_nat k))"
    and "unat w * unat i + k < n \<Longrightarrow> read8 (t + w * i + of_nat k) st = Inr (mem st (t + w * i + of_nat k))"
    using mapped_access(1) [OF assms, of "unat w * unat i + k"]
      mapped_byte_access(1) [OF assms, of "unat w * unat i + k"] by (simp_all only:)
qed

text \<open>The symbols of a table and those whose function contains an address.\<close>

definition symbols :: "bytes \<Rightarrow> u32 \<Rightarrow> nat \<Rightarrow> nat \<Rightarrow> elf_symbol list" where
  "symbols m t i n = map (\<lambda>i. symbol_at m (t + 16 * of_nat i)) [i..<n]"

definition covers :: "u32 \<Rightarrow> elf_symbol \<Rightarrow> bool" where
  "covers addr s \<longleftrightarrow> ELF32_ST_TYPE (st_info s) = 2 \<and> st_value s \<le> addr \<and> addr < st_value s + st_size s"

lemma elf_lookup_from_find:
  assumes "symtab elf = Some t" and "strtab elf = Some s" and "mapped st t (16 * unat n)" and "unat i \<le> unat n"
  shows "elf_lookup_from addr elf n i st =
    Inr (case find (covers addr) (symbols (mem st) t (unat i) (unat n)) of None \<Rightarrow> 0 | Some y \<Rightarrow> s + st_name y)"
  using assms(4)
proof (induction "unat n - unat i" arbitrary: i)
  case 0
  then have "\<not> i < n" by (simp add: word_less_nat_alt)
  then show ?case using 0 by (subst elf_lookup_from.simps) (simp add: symbols_def)
next
  case (Suc d)
  then have i: "i < n" by (simp add: word_less_nat_alt)
  note Si = unat_Suc_below [OF i]
  have IH: "elf_lookup_from addr elf n (i + 1) st = Inr (case find (covers addr)
      (symbols (mem st) t (Suc (unat i)) (unat n)) of None \<Rightarrow> 0 | Some y \<Rightarrow> s + st_name y)"
    using Suc.hyps(1) [of "i + 1"] Suc.hyps(2) Suc.prems i Si by (simp add: word_less_nat_alt)
  have lt: "unat i < unat n" using i by (simp add: word_less_nat_alt)
  note acc = entry_access [OF assms(3), of 16 i]
  have r: "read8 (t + 16 * i + 12) st = Inr (mem st (t + 16 * i + 12))"
      "read32 (t + 16 * i + 4) st = Inr (load32 (mem st) (t + 16 * i + 4))"
      "read32 (t + 16 * i + 8) st = Inr (load32 (mem st) (t + 16 * i + 8))"
      "read32 (t + 16 * i) st = Inr (load32 (mem st) (t + 16 * i))"
    using acc(2) [of 12] acc(1) [of 4] acc(1) [of 8] acc(1) [of 0] lt by simp_all
  have "symbols (mem st) t (unat i) (unat n) = symbol_at (mem st) (t + 16 * i) # symbols (mem st) t (Suc (unat i)) (unat n)"
    using lt by (simp add: symbols_def upt_conv_Cons)
  then show ?case
    by (subst elf_lookup_from.simps)
      (simp add: i assms(1,2) get_field_def r IH Let_def covers_def symbol_at_def)
qed

lemma elf_lookup_find:
  assumes "symtab elf = Some t" and "symtabsz elf = Some z" and "strtab elf = Some s" and "mapped st t (unat z)"
  shows "elf_lookup_symbol addr elf st =
    Inr (case find (covers addr) (symbols (mem st) t 0 (unat z div 16)) of None \<Rightarrow> 0 | Some y \<Rightarrow> s + st_name y)"
proof -
  have "mapped st t (16 * unat (z div 16))"
    using assms(4) by (rule mapped_sub) (simp_all add: unat_div)
  from elf_lookup_from_find [OF assms(1,3) this, of 0 addr] show ?thesis
    by (simp add: elf_lookup_symbol_def assms(2) get_field_def unat_div)
qed

section \<open>The sections\<close>

abbreviation chars :: "string \<Rightarrow> u8 list" where "chars s \<equiv> map of_char s"

text \<open>What one round of the loop does when the names of the sections are \<open>names\<close>.\<close>

definition section_step :: "bytes \<Rightarrow> u32 \<Rightarrow> u8 list list \<Rightarrow> nat \<Rightarrow> elf \<Rightarrow> elf" where
  "section_step m sh names i elf =
     (let s = section_at m (sh + 40 * of_nat i) in
      if names ! i = chars ''.strtab'' then elf\<lparr>strtab := Some (sh_addr s + PAGE_OFFSET), strtabsz := Some (sh_size s)\<rparr>
      else if names ! i = chars ''.symtab'' then elf\<lparr>symtab := Some (sh_addr s + PAGE_OFFSET), symtabsz := Some (sh_size s)\<rparr>
      else elf)"

text \<open>The names of the sections lie in memory as strings.\<close>

definition section_names :: "'a vmm_state_scheme \<Rightarrow> u32 \<Rightarrow> u32 \<Rightarrow> u8 list list \<Rightarrow> bool" where
  "section_names st sh shstrtab names \<longleftrightarrow> mapped st sh (40 * length names) \<and>
     (\<forall>i < length names. cstr st (shstrtab + sh_name (section_at (mem st) (sh + 40 * of_nat i)) + PAGE_OFFSET) (names ! i))"

lemma strcmp_eq_0:
  "cstr st l s \<Longrightarrow> cstr st r t \<Longrightarrow> \<exists>c. strcmp l r st = Some (Inr c) \<and> (c = 0) = (s = t)"
  using strcmp_from_cstr [of st l 0 s r t] by (simp add: strcmp_def)

lemma elf_sections_fold:
  assumes "section_names st sh shstrtab names" and "unat num = length names"
    and "cstr st l1 (chars ''.strtab'')" and "cstr st l2 (chars ''.symtab'')" and "unat i \<le> unat num"
  shows "elf_sections l1 l2 sh shstrtab num i elf st =
    Some (Inr (fold (section_step (mem st) sh names) [unat i..<length names] elf))"
  using assms(5)
proof (induction "unat num - unat i" arbitrary: i elf)
  case 0
  then have "\<not> i < num" by (simp add: word_less_nat_alt)
  then show ?case using 0 assms(2) by (subst elf_sections.simps) simp
next
  case (Suc d)
  then have i: "i < num" by (simp add: word_less_nat_alt)
  then have lt: "unat i < length names" using assms(2) by (simp add: word_less_nat_alt)
  note Si = unat_Suc_below [OF i]
  have IH: "elf_sections l1 l2 sh shstrtab num (i + 1) e st =
      Some (Inr (fold (section_step (mem st) sh names) [Suc (unat i)..<length names] e))" for e
    using Suc.hyps(1) [of "i + 1" e] Suc.hyps(2) Suc.prems i Si by (simp add: word_less_nat_alt)
  have m: "mapped st sh (40 * length names)" using assms(1) by (simp add: section_names_def)
  note acc = entry_access(1) [OF m, of 40 i]
  have r: "read32 (sh + 40 * i + 12) st = Inr (load32 (mem st) (sh + 40 * i + 12))"
      "read32 (sh + 40 * i + 20) st = Inr (load32 (mem st) (sh + 40 * i + 20))"
      "read32 (sh + 40 * i) st = Inr (load32 (mem st) (sh + 40 * i))"
    using acc [of 12] acc [of 20] acc [of 0] lt by simp_all
  let ?a = "shstrtab + load32 (mem st) (sh + 40 * i) + PAGE_OFFSET"
  have n: "cstr st ?a (names ! unat i)"
    using assms(1) lt unfolding section_names_def by (auto dest!: spec [of _ "unat i"] simp: section_at_def)
  obtain c d where c: "strcmp ?a l1 st = Some (Inr c)" "(c = 0) = (names ! unat i = chars ''.strtab'')"
      and d: "strcmp ?a l2 st = Some (Inr d)" "(d = 0) = (names ! unat i = chars ''.symtab'')"
    using strcmp_eq_0 [OF n assms(3)] strcmp_eq_0 [OF n assms(4)] by blast
  have "40 * unat i < 4294967296" using m lt by (simp add: mapped_def)
  then have "i \<noteq> 0x7fffffff" by auto
  moreover have "[unat i..<length names] = unat i # [Suc (unat i)..<length names]"
    using lt by (simp add: upt_conv_Cons)
  ultimately show ?case
    by (subst elf_sections.simps)
      (simp add: i r c d IH Let_def section_step_def section_at_def del: list.map upt_Suc PAGE_OFFSET_def)
qed

text \<open>The last section of a name counts.\<close>

definition last_section :: "u8 list list \<Rightarrow> string \<Rightarrow> nat option" where
  "last_section names s = find (\<lambda>i. names ! i = chars s) (rev [0..<length names])"

lemma fold_section_step:
  fixes names :: "u8 list list" and m :: bytes and sh :: u32
  defines "e0 \<equiv> \<lparr>symtab = None, symtabsz = None, strtab = None, strtabsz = None\<rparr>"
    and "at \<equiv> \<lambda>i. section_at m (sh + 40 * of_nat i)"
    and "pick \<equiv> \<lambda>n s. find (\<lambda>i. names ! i = chars s) (rev [0..<n])"
  shows "fold (section_step m sh names) [0..<n] e0 =
    \<lparr>symtab = map_option (\<lambda>i. sh_addr (at i) + PAGE_OFFSET) (pick n ''.symtab''),
     symtabsz = map_option (\<lambda>i. sh_size (at i)) (pick n ''.symtab''),
     strtab = map_option (\<lambda>i. sh_addr (at i) + PAGE_OFFSET) (pick n ''.strtab''),
     strtabsz = map_option (\<lambda>i. sh_size (at i)) (pick n ''.strtab'')\<rparr>"
proof (induction n)
  case 0
  then show ?case by (simp add: e0_def pick_def)
next
  case (Suc n)
  have "chars ''.strtab'' \<noteq> chars ''.symtab''" by simp
  then show ?case
    using Suc by (simp add: section_step_def pick_def at_def Let_def del: list.map PAGE_OFFSET_def)
qed

lemma elf_tables_found:
  assumes "mapped st mb 52" and "load32 (mem st) (mb_addr mb) = sh"
    and "unat (load32 (mem st) (mb_num mb)) = length names" and "load32 (mem st) (mb_shndx mb) = k"
    and "unat k < length names" and "section_names st sh (sh_addr (section_at (mem st) (sh + 40 * k))) names"
    and "cstr st l1 (chars ''.strtab'')" and "cstr st l2 (chars ''.symtab'')"
  shows "elf_from_mutilboot l1 l2 mb st = Some (Inr
    \<lparr>symtab = map_option (\<lambda>i. sh_addr (section_at (mem st) (sh + 40 * of_nat i)) + PAGE_OFFSET) (last_section names ''.symtab''),
     symtabsz = map_option (\<lambda>i. sh_size (section_at (mem st) (sh + 40 * of_nat i))) (last_section names ''.symtab''),
     strtab = map_option (\<lambda>i. sh_addr (section_at (mem st) (sh + 40 * of_nat i)) + PAGE_OFFSET) (last_section names ''.strtab''),
     strtabsz = map_option (\<lambda>i. sh_size (section_at (mem st) (sh + 40 * of_nat i))) (last_section names ''.strtab'')\<rparr>)"
proof -
  have r: "read32 (mb_addr mb) st = Inr sh" "read32 (mb_shndx mb) st = Inr k"
      "read32 (mb_num mb) st = Inr (load32 (mem st) (mb_num mb))"
    using mapped_access(1) [OF assms(1), of 36] mapped_access(1) [OF assms(1), of 40]
      mapped_access(1) [OF assms(1), of 28] assms(2,4) by simp_all
  have m: "mapped st sh (40 * length names)" using assms(6) by (simp add: section_names_def)
  have s: "read32 (sh + 40 * k + 12) st = Inr (sh_addr (section_at (mem st) (sh + 40 * k)))"
    using entry_access(1) [OF m, of 40 k 12] assms(5) by (simp add: section_at_def)
  show ?thesis
    using elf_sections_fold [OF assms(6,3,7,8), of 0]
    by (simp only: elf_from_mutilboot_def bindO_simps r s unat_0 le0 simp_thms fold_section_step last_section_def)
qed

section \<open>The stack trace\<close>

text \<open>Recursion below \<open>bindO\<close>, for the loops that may not end.\<close>

lemma bindO_mono [partial_function_mono]:
  assumes "mono_option B" and "\<And>y. mono_option (\<lambda>f. C y f)"
  shows "mono_option (\<lambda>f. bindO (B f) (\<lambda>y. C y f))"
proof -
  have "bindO r g = Option.bind r (\<lambda>x. case x of Inl e \<Rightarrow> Some (Inl e) | Inr y \<Rightarrow> g y)"
    for r :: "'c res option" and g :: "'c \<Rightarrow> 'd res option"
    by (simp add: bindO_def split: option.split sum.split)
  moreover have "mono_option (\<lambda>f. case x of Inl e \<Rightarrow> Some (Inl e) | Inr y \<Rightarrow> C y f)" for x
    by (cases x) (simp_all add: assms(2) option.const_mono)
  with assms(1) have "mono_option (\<lambda>f. Option.bind (B f) (\<lambda>x. case x of Inl e \<Rightarrow> Some (Inl e) | Inr y \<Rightarrow> C y f))"
    by (rule bind_mono)
  ultimately show ?thesis by (simp only:)
qed

text \<open>The characters \<^verbatim>\<open>%s\<close> reads behind a pointer; \<open>s\<close> are those read before.\<close>

partial_function (option) c_string :: "u32 \<Rightarrow> string \<Rightarrow> 'a vmm_state_scheme \<Rightarrow> string res option" where
  "c_string a s st = bindO (Some (read8 a st)) (\<lambda>b.
     if b = 0 then Some (Inr s) else c_string (a + 1) (s @ [char_of (unat b)]) st)"

text \<open>\<open>ebp\<close> is the frame pointer of \<^verbatim>\<open>print_stack_trace\<close> itself.\<close>

partial_function (option) print_stack_trace ::
  "elf \<Rightarrow> u32 \<Rightarrow> 'b vmm_state_scheme \<Rightarrow> 'a console_state_scheme \<Rightarrow> 'a console_state_scheme res option" where
  "print_stack_trace elf ebp st io =
     (if ebp \<noteq> 0 then
        bindO (Some (read32 (ebp + 4) st)) (\<lambda>eip.
        bindO (Some (elf_lookup_symbol eip elf st)) (\<lambda>name.
        bindO (c_string name [] st) (\<lambda>s.
        bindO (Some (printk (''  [0x%x] %s'' @ [CHR 0x0A]) [Num eip, Str s] io)) (\<lambda>io.
        bindO (Some (read32 ebp st)) (\<lambda>ebp. print_stack_trace elf ebp st io)))))
      else Some (Inr io))"

text \<open>The state in which \<^verbatim>\<open>panic\<close> loops for ever.\<close>

definition panic ::
  "elf \<Rightarrow> u32 \<Rightarrow> string \<Rightarrow> 'b vmm_state_scheme \<Rightarrow> 'a console_state_scheme \<Rightarrow> 'a console_state_scheme res option" where
  "panic elf ebp msg st io =
     bindO (Some (printk (''--------- System panic: %s ---------'' @ [CHR 0x0A]) [Str msg] io)) (\<lambda>io.
     bindO (print_stack_trace elf ebp st io) (\<lambda>io.
     Some (printk (''---------'' @ [CHR 0x0A]) [] io)))"

text \<open>The segment registers; \<open>round\<close> is the static counter, an \<^verbatim>\<open>int\<close>.\<close>

definition print_cur_status ::
  "u16 \<Rightarrow> u16 \<Rightarrow> u16 \<Rightarrow> u16 \<Rightarrow> i32 \<Rightarrow> 'a console_state_scheme \<Rightarrow> (i32 \<times> 'a console_state_scheme) res" where
  "print_cur_status cs ds es ss round io =
     bindE (printk (''%d: @ring %d'' @ [CHR 0x0A]) [Num round, Num (ucast cs AND 0x3)] io) (\<lambda>io.
     bindE (printk (''%d:  cs = %x'' @ [CHR 0x0A]) [Num round, Num (ucast cs)] io) (\<lambda>io.
     bindE (printk (''%d:  ds = %x'' @ [CHR 0x0A]) [Num round, Num (ucast ds)] io) (\<lambda>io.
     bindE (printk (''%d:  es = %x'' @ [CHR 0x0A]) [Num round, Num (ucast es)] io) (\<lambda>io.
     bindE (printk (''%d:  ss = %x'' @ [CHR 0x0A]) [Num round, Num (ucast ss)] io) (\<lambda>io.
       if round = 0x7fffffff then Inl (Undefined ''int overflow'') else Inr (round + 1, io))))))"

section \<open>The memory map\<close>

partial_function (option) show_entries ::
  "u32 \<Rightarrow> u32 \<Rightarrow> 'b vmm_state_scheme \<Rightarrow> 'a console_state_scheme \<Rightarrow> 'a console_state_scheme res option" where
  "show_entries mmap e st io =
     (if mmap < e then
        bindO (Some (read32 (mmap + 8) st)) (\<lambda>base_high.
        bindO (Some (read32 (mmap + 4) st)) (\<lambda>base_low.
        bindO (Some (read32 (mmap + 16) st)) (\<lambda>len_high.
        bindO (Some (read32 (mmap + 12) st)) (\<lambda>len_low.
        bindO (Some (read32 (mmap + 20) st)) (\<lambda>type.
        bindO (Some (printk (''base_addr = 0x%X%08X, length = 0x%X%08X, type = 0x%X'' @ [CHR 0x0A])
          [Num base_high, Num base_low, Num len_high, Num len_low, Num type] io)) (\<lambda>io.
          show_entries (mmap + 24) e st io))))))
      else Some (Inr io))"

definition show_memory_map ::
  "u32 \<Rightarrow> 'b vmm_state_scheme \<Rightarrow> 'a console_state_scheme \<Rightarrow> 'a console_state_scheme res option" where
  "show_memory_map mb st io =
     bindO (Some (read32 (mb_mmap_addr mb) st)) (\<lambda>mmap_addr.
     bindO (Some (read32 (mb_mmap_length mb) st)) (\<lambda>mmap_length.
     bindO (Some (printk (''Memory map: '' @ [CHR 0x0A]) [] io)) (\<lambda>io.
       show_entries mmap_addr (mmap_addr + mmap_length) st io)))"

section \<open>What the trace prints\<close>

text \<open>Hexadecimal digits as \<^verbatim>\<open>%x\<close> prints them, and a line of the trace.\<close>

definition hex :: "u32 \<Rightarrow> string" where
  "hex w = (case number w 16 (-1) (-1) SMALL of Inr (Some s) \<Rightarrow> s | _ \<Rightarrow> [])"

definition trace_line :: "u32 \<Rightarrow> string \<Rightarrow> string" where
  "trace_line r s = ''  [0x'' @ hex r @ ''] '' @ s @ [CHR 0x0A]"

lemma number_hex: "number w 16 (-1) (-1) SMALL = Inr (Some (hex w)) \<and> length (hex w) \<le> 8 \<and> number_val 16 (hex w) = unat w"
proof -
  have f: "sign_text SMALL w = []" "magnitude SMALL w = w"
    by (simp_all add: flag_def sign_text_def magnitude_def)
  obtain ds where ds: "number w 16 (-1) (-1) SMALL = Inr (Some ds)" "shows_value 16 w ds"
    using number_simple [of 16 SMALL w] f by auto
  have "unat w < unat (16 :: u32) ^ 8" using unat_le_u32 [of w] by simp
  then have "length ds \<le> 8"
    using ds(2) unfolding shows_value_def by (elim conjE) (rule mp [OF mp [OF spec [of _ 8]]], simp_all)
  then show ?thesis using ds by (simp add: hex_def shows_value_def)
qed

lemma vsprintf_trace:
  "vsprintf (''  [0x%x] %s'' @ [CHR 0x0A]) [Num r, Str s] = Inr (trace_line r s, [])"
  by (simp add: vsprintf_def parse_width_def parse_precision_def skip_qualifier_def convert_def convert_number_def
      convert_string_def arg_num_def arg_str_def is_digit_def flag_def number_hex [THEN conjunct1, simplified]
      pad_def trace_line_def)

lemma printk_trace:
  assumes "length s \<le> 1000"
  shows "printk (''  [0x%x] %s'' @ [CHR 0x0A]) [Num r, Str s] io = Inr (console_write (chars (trace_line r s)) io)"
proof -
  have "length (trace_line r s) < 1024" using assms number_hex [of r] by (simp add: trace_line_def)
  then show ?thesis by (rule printk_eq(1) [OF printk_text_eq [OF vsprintf_trace]])
qed

lemma c_string_cstr: "cstr st a s \<Longrightarrow> c_string a t st = Some (Inr (t @ map (\<lambda>b. char_of (unat b)) s))"
proof (induction s arbitrary: a t)
  case Nil
  then show ?case by (subst c_string.simps) (auto simp: byte_access)
next
  case (Cons b s)
  then show ?case by (subst c_string.simps) (auto simp: byte_access)
qed

lemma char_of_chars: "map (\<lambda>b. char_of (unat b)) (chars s) = s"
proof -
  have "char_of (unat (of_char c :: u8)) = c" for c
  proof -
    have "unat (of_char c :: u8) = unat (of_nat (of_char c) :: u8)" by (cases c) simp
    also have "\<dots> = of_char c mod 256" by (subst unat_of_nat) simp
    finally show ?thesis by simp
  qed
  then show ?thesis by (simp add: comp_def)
qed

text \<open>
  A chain of frames: the saved frame pointer and, four bytes above, the return address. \<open>z\<close>
  is the frame pointer saved in the outermost frame.
\<close>

fun frame_chain :: "'a vmm_state_scheme \<Rightarrow> u32 \<Rightarrow> u32 list \<Rightarrow> u32 \<Rightarrow> bool" where
  "frame_chain st bp [] z \<longleftrightarrow> bp = z"
| "frame_chain st bp (r # rs) z \<longleftrightarrow> bp \<noteq> 0 \<and> mapped st bp 8 \<and> load32 (mem st) (bp + 4) = r \<and>
     frame_chain st (load32 (mem st) bp) rs z"

text \<open>\<open>nm\<close> gives the name the tables have for a return address, if any.\<close>

definition knows :: "'a vmm_state_scheme \<Rightarrow> elf \<Rightarrow> u32 \<Rightarrow> string option \<Rightarrow> bool" where
  "knows st elf r n = (case n of None \<Rightarrow> elf_lookup_symbol r elf st = Inr 0
     | Some s \<Rightarrow> length s \<le> 1000 \<and> (\<exists>a. elf_lookup_symbol r elf st = Inr a \<and> cstr st a (chars s)))"

lemma stack_trace_step:
  assumes "bp \<noteq> 0" and "mapped st bp 8" and "knows st elf (load32 (mem st) (bp + 4)) n" and "translate st 0 = None"
  shows "print_stack_trace elf bp st io = (case n of None \<Rightarrow> Some (Inl (PageFault 0))
    | Some s \<Rightarrow> print_stack_trace elf (load32 (mem st) bp) st
        (console_write (chars (trace_line (load32 (mem st) (bp + 4)) s)) io))"
proof -
  have r: "read32 (bp + 4) st = Inr (load32 (mem st) (bp + 4))" "read32 bp st = Inr (load32 (mem st) bp)"
    using mapped_access(1) [OF assms(2), of 4] mapped_access(1) [OF assms(2), of 0] by simp_all
  show ?thesis
  proof (cases n)
    case None
    then have "elf_lookup_symbol (load32 (mem st) (bp + 4)) elf st = Inr 0" using assms(3) by (simp add: knows_def)
    moreover have "c_string 0 [] st = Some (Inl (PageFault 0))"
      using assms(4) by (subst c_string.simps) (simp add: read8_def)
    ultimately show ?thesis using assms(1) r None by (subst print_stack_trace.simps) simp
  next
    case (Some s)
    then obtain a where a: "elf_lookup_symbol (load32 (mem st) (bp + 4)) elf st = Inr a" "cstr st a (chars s)"
      and l: "length s \<le> 1000" using assms(3) by (auto simp: knows_def)
    have "c_string a [] st = Some (Inr s)" using c_string_cstr [OF a(2), of "[]"] char_of_chars [of s] by simp
    then show ?thesis
      using assms(1) r a(1) Some printk_trace [OF l, of "load32 (mem st) (bp + 4)" io] by (subst print_stack_trace.simps) (simp only: bindO_simps if_True option.case snd_conv not_False_eq_True)
  qed
qed

lemma stack_trace_lines:
  assumes "translate st 0 = None"
  shows "frame_chain st bp rs z \<Longrightarrow> list_all (\<lambda>r. knows st elf r (nm r)) rs \<Longrightarrow>
    print_stack_trace elf bp st io =
      (if None \<in> nm ` set rs then Some (Inl (PageFault 0))
       else print_stack_trace elf z st (fold (\<lambda>r. console_write (chars (trace_line r (the (nm r))))) rs io))"
proof (induction rs arbitrary: bp io)
  case Nil
  then show ?case by simp
next
  case (Cons r rs)
  then have f: "bp \<noteq> 0" "mapped st bp 8" "load32 (mem st) (bp + 4) = r" "frame_chain st (load32 (mem st) bp) rs z"
      and k: "knows st elf r (nm r)" "list_all (\<lambda>r. knows st elf r (nm r)) rs" by simp_all
  have "print_stack_trace elf bp st io = (case nm r of None \<Rightarrow> Some (Inl (PageFault 0))
    | Some s \<Rightarrow> print_stack_trace elf (load32 (mem st) bp) st (console_write (chars (trace_line r s)) io))"
    using stack_trace_step [OF f(1,2) _ assms, of elf "nm r" io] k(1) unfolding f(3) by simp
  then show ?case using Cons.IH [OF f(4) k(2)] by (cases "nm r") (auto simp: image_iff)
qed

lemma stack_trace_end:
  "print_stack_trace elf 0 st io = Some (Inr io)"
  "z \<noteq> 0 \<Longrightarrow> translate st (z + 4) = None \<Longrightarrow> print_stack_trace elf z st io = Some (Inl (PageFault (z + 4)))"
  by (subst print_stack_trace.simps, simp add: read32_def)+

text \<open>The frames a trace visits: each holds the pointer to the next one, up to 0.\<close>

definition saved_bp :: "'a vmm_state_scheme \<Rightarrow> u32 \<Rightarrow> u32" where
  "saved_bp st bp = (if bp = 0 then 0 else load32 (mem st) bp)"

definition frame_ok :: "'a vmm_state_scheme \<Rightarrow> elf \<Rightarrow> u32 \<Rightarrow> bool" where
  "frame_ok st elf bp \<longleftrightarrow> mapped st bp 8 \<and> (\<exists>s. knows st elf (load32 (mem st) (bp + 4)) (Some s))"

lemma stack_trace_next:
  assumes "bp \<noteq> 0" and "frame_ok st elf bp" and "translate st 0 = None"
  shows "\<exists>s. print_stack_trace elf bp st io = print_stack_trace elf (saved_bp st bp) st
    (console_write (chars (trace_line (load32 (mem st) (bp + 4)) s)) io)"
proof -
  obtain s where "knows st elf (load32 (mem st) (bp + 4)) (Some s)" using assms(2) by (auto simp: frame_ok_def)
  from stack_trace_step [OF assms(1) _ this assms(3), of io] assms(1,2) show ?thesis
    by (intro exI [of _ s]) (simp add: frame_ok_def saved_bp_def)
qed

lemma funpow_shift: "(f ^^ k) (f x) = (f ^^ Suc k) x"
  by (simp add: funpow_swap1)

lemma stack_trace_finds_end:
  assumes "translate st 0 = None"
  shows "\<forall>k. (saved_bp st ^^ k) bp \<noteq> 0 \<longrightarrow> frame_ok st elf ((saved_bp st ^^ k) bp) \<Longrightarrow>
    (saved_bp st ^^ n) bp = 0 \<Longrightarrow> \<exists>io'. print_stack_trace elf bp st io = Some (Inr io')"
proof (induction n arbitrary: bp io)
  case 0
  then show ?case using stack_trace_end(1) [of elf st io] by simp
next
  case (Suc n)
  show ?case
  proof (cases "bp = 0")
    case True
    then show ?thesis using stack_trace_end(1) [of elf st io] by simp
  next
    case False
    have k: "\<forall>k. (saved_bp st ^^ k) (saved_bp st bp) \<noteq> 0 \<longrightarrow> frame_ok st elf ((saved_bp st ^^ k) (saved_bp st bp))"
      unfolding funpow_shift using Suc.prems(1) by blast
    have "frame_ok st elf bp" using Suc.prems(1) False by (metis funpow_0)
    from stack_trace_next [OF False this assms] Suc.IH [OF k] Suc.prems(2) show ?thesis
      unfolding funpow_shift [symmetric] by metis
  qed
qed

text \<open>The other direction: a run that returns has come to the end of the chain.\<close>

lemma stack_trace_returned:
  assumes "print_stack_trace elf bp st io = Some r" and null: "translate st 0 = None"
    and "\<forall>k. (saved_bp st ^^ k) bp \<noteq> 0 \<longrightarrow> frame_ok st elf ((saved_bp st ^^ k) bp)"
  shows "\<exists>n. (saved_bp st ^^ n) bp = 0"
proof -
  let ?ok = "\<lambda>elf bp st. \<forall>k. (saved_bp st ^^ k) bp \<noteq> 0 \<longrightarrow> frame_ok st elf ((saved_bp st ^^ k) bp)"
  have "?ok elf bp st \<longrightarrow> (\<exists>n. (saved_bp st ^^ n) bp = 0)"
  proof (rule print_stack_trace.raw_induct [where P = "\<lambda>elf bp st io r. ?ok elf bp st \<longrightarrow> (\<exists>n. (saved_bp st ^^ n) bp = 0)",
      OF _ assms(1)], intro impI, goal_cases)
    case (1 trace elf bp st io r)
    show ?case
    proof (cases "bp = 0")
      case True
      then show ?thesis by (intro exI [of _ 0]) simp
    next
      case False
      have "frame_ok st elf bp" using 1(3) False by (metis funpow_0)
      then obtain s where m: "mapped st bp 8" and s: "knows st elf (load32 (mem st) (bp + 4)) (Some s)"
        by (auto simp: frame_ok_def)
      then obtain a where a: "elf_lookup_symbol (load32 (mem st) (bp + 4)) elf st = Inr a" "cstr st a (chars s)" "length s \<le> 1000"
        by (auto simp: knows_def)
      have "c_string a [] st = Some (Inr s)" using c_string_cstr [OF a(2), of "[]"] char_of_chars [of s] by simp
      moreover have "read32 (bp + 4) st = Inr (load32 (mem st) (bp + 4))" "read32 bp st = Inr (load32 (mem st) bp)"
        using mapped_access(1) [OF m, of 4] mapped_access(1) [OF m, of 0] by simp_all
      ultimately have "\<exists>io'. trace elf (saved_bp st bp) st io' = Some r"
        using 1(2) False a(1) printk_trace [OF a(3), of "load32 (mem st) (bp + 4)" io]
        by (auto simp: saved_bp_def simp del: append.simps append_Cons)
      then obtain io' where r: "trace elf (saved_bp st bp) st io' = Some r" ..
      have "?ok elf (saved_bp st bp) st"
        unfolding funpow_shift using 1(3) by blast
      with 1(1) [OF r] obtain n where "(saved_bp st ^^ n) (saved_bp st bp) = 0" by blast
      then have "(saved_bp st ^^ Suc n) bp = 0" by (simp add: funpow_swap1)
      then show ?thesis ..
    qed
  qed
  then show ?thesis using assms(3) by blast
qed

section \<open>A memory image\<close>

text \<open>
  For the witnesses: a stack frame at \<open>0xC0001000\<close> and one that points to itself at
  \<open>0xC0001010\<close>, a symbol at \<open>0xC0002000\<close> with its name at
  \<open>0xC0003001\<close>, the boot loader's structure at \<open>0xC0004000\<close>, two section headers at \<open>0xC0005000\<close>
  and their names at \<open>0xC0006000\<close>.
\<close>

definition image_data :: bytes where
  "image_data a = (case map_of
     [(0xC0001004, 0x10), (0xC0001006, 0x10), (0xC0001007, 0xC0), (0xC0001010, 0x10),
      (0xC0001011, 0x10), (0xC0001013, 0xC0), (0xC0001014, 0x10), (0xC0001016, 0x10),
      (0xC0001017, 0xC0), (0xC0002000, 0x1), (0xC0002006, 0x10), (0xC0002007, 0xC0),
      (0xC0002009, 0x1), (0xC000200C, 0x12), (0xC0003001, 0x6D), (0xC000401C, 0x2),
      (0xC0004025, 0x50), (0xC0004027, 0xC0), (0xC000500D, 0x60), (0xC0005014, 0x10),
      (0xC0005028, 0x8), (0xC0005035, 0x20), (0xC000503C, 0x10), (0xC0006000, 0x2E),
      (0xC0006001, 0x73), (0xC0006002, 0x74), (0xC0006003, 0x72), (0xC0006004, 0x74),
      (0xC0006005, 0x61), (0xC0006006, 0x62), (0xC0006008, 0x2E), (0xC0006009, 0x73),
      (0xC000600A, 0x79), (0xC000600B, 0x6D), (0xC000600C, 0x74), (0xC000600D, 0x61),
      (0xC000600E, 0x62)] (unat a) of None \<Rightarrow> 0 | Some b \<Rightarrow> b)"

definition kimage :: vmm_state where
  "kimage = flat_space image_data"

lemma image_translate [simp]: "0xC0000000 \<le> a \<Longrightarrow> a < 0xC0400000 \<Longrightarrow> translate kimage a \<noteq> None"
  unfolding kimage_def by (rule flat_space_translate) (simp_all add: word_le_nat_alt word_less_nat_alt)

lemma image_mapped: "0xC0000000 \<le> unat a \<Longrightarrow> unat a + n \<le> 0xC0400000 \<Longrightarrow> mapped kimage a n"
  by (simp add: kimage_def flat_space_mapped)

lemma image_null: "translate kimage 0 = None"
  by (simp add: kimage_def flat_space_def translate_def walk_def PGD_INDEX_def)

lemma image_mem: "mem kimage = image_data"
  by (simp add: kimage_def)

text \<open>The words and bytes of the image, evaluated once.\<close>

lemma image_words:
  "load32 image_data 0xC0001000 = 0"
  "load32 image_data 0xC0001004 = 0xC0100010"
  "load32 image_data 0xC0001010 = 0xC0001010"
  "load32 image_data 0xC0001014 = 0xC0100010"
  "load32 image_data 0xC0002000 = 1"
  "load32 image_data 0xC0002004 = 0xC0100000"
  "load32 image_data 0xC0002008 = 0x100"
  "load32 image_data 0xC000401C = 2"
  "load32 image_data 0xC0004024 = 0xC0005000"
  "load32 image_data 0xC0004028 = 0"
  "load32 image_data 0xC0005000 = 0"
  "load32 image_data 0xC000500C = 0x6000"
  "load32 image_data 0xC0005014 = 16"
  "load32 image_data 0xC0005028 = 8"
  "load32 image_data 0xC0005034 = 0x2000"
  "load32 image_data 0xC000503C = 16"
  by (simp_all add: image_data_def load32_def)

lemma image_chars:
  "image_data 0xC0003001 = 109"
  "image_data 0xC0003002 = 0"
  "image_data 0xC000200C = 18"
  "image_data 0xC000200D = 0"
  "image_data 0xC000200E = 0"
  "image_data 0xC000200F = 0"
  "image_data 0xC0006000 = 46"
  "image_data 0xC0006001 = 115"
  "image_data 0xC0006002 = 116"
  "image_data 0xC0006003 = 114"
  "image_data 0xC0006004 = 116"
  "image_data 0xC0006005 = 97"
  "image_data 0xC0006006 = 98"
  "image_data 0xC0006007 = 0"
  "image_data 0xC0006008 = 46"
  "image_data 0xC0006009 = 115"
  "image_data 0xC000600A = 121"
  "image_data 0xC000600B = 109"
  "image_data 0xC000600C = 116"
  "image_data 0xC000600D = 97"
  "image_data 0xC000600E = 98"
  "image_data 0xC000600F = 0"
  by (simp_all add: image_data_def)

lemma image_names:
  "cstr kimage 0xC0006000 (chars ''.strtab'')" "cstr kimage 0xC0006008 (chars ''.symtab'')" "cstr kimage 0xC0003001 (chars ''m'')"
  by (simp_all add: image_mem image_chars del: not_None_eq)

definition image_elf :: elf where
  "image_elf = \<lparr>symtab = Some 0xC0002000, symtabsz = Some 16, strtab = Some 0xC0003000, strtabsz = Some 3\<rparr>"

lemma image_symbols:
  "symbols (mem kimage) 0xC0002000 0 (Suc 0) =
    [\<lparr>st_name = 1, st_value = 0xC0100000, st_size = 0x100, st_info = 0x12, st_other = 0, st_shndx = 0\<rparr>]"
  by (simp add: symbols_def symbol_at_def image_mem image_words image_chars)

section \<open>Properties\<close>

text \<open>C31: \<open>elf_from_mutilboot\<close> returns for every table of sections whose headers and names are
  mapped: it finds the last section called \<^verbatim>\<open>.symtab\<close> and the last one called \<^verbatim>\<open>.strtab\<close>, whatever
  the order, and takes their address, moved up by \<open>PAGE_OFFSET\<close>, and size. When there is no such
  section the fields stay indeterminate.\<close>

theorem elf_from_mutilboot_tables:
  assumes "mapped st mb 52" and "mbi_addr (mutilboot_at (mem st) mb) = sh"
    and "unat (mbi_num (mutilboot_at (mem st) mb)) = length names" and "mbi_shndx (mutilboot_at (mem st) mb) = k"
    and "unat k < length names" and "section_names st sh (sh_addr (section_at (mem st) (sh + 40 * k))) names"
    and "cstr st l1 (chars ''.strtab'')" and "cstr st l2 (chars ''.symtab'')"
  shows "elf_from_mutilboot l1 l2 mb st = Some (Inr
    \<lparr>symtab = map_option (\<lambda>i. sh_addr (section_at (mem st) (sh + 40 * of_nat i)) + PAGE_OFFSET) (last_section names ''.symtab''),
     symtabsz = map_option (\<lambda>i. sh_size (section_at (mem st) (sh + 40 * of_nat i))) (last_section names ''.symtab''),
     strtab = map_option (\<lambda>i. sh_addr (section_at (mem st) (sh + 40 * of_nat i)) + PAGE_OFFSET) (last_section names ''.strtab''),
     strtabsz = map_option (\<lambda>i. sh_size (section_at (mem st) (sh + 40 * of_nat i))) (last_section names ''.strtab'')\<rparr>)"
  by (rule elf_tables_found [OF assms [unfolded mutilboot_fields]])

theorem elf_from_mutilboot_tables_witness:
  "elf_from_mutilboot 0xC0006000 0xC0006008 0xC0004000 kimage =
    Some (Inr \<lparr>symtab = Some 0xC0002000, symtabsz = Some 16, strtab = Some 0xC0006000, strtabsz = Some 16\<rparr>)"
proof -
  let ?names = "[chars ''.strtab'', chars ''.symtab'']"
  have l: "mbi_addr (mutilboot_at (mem kimage) 0xC0004000) = 0xC0005000" "mbi_num (mutilboot_at (mem kimage) 0xC0004000) = 2"
      "mbi_shndx (mutilboot_at (mem kimage) 0xC0004000) = 0"
    by (simp_all add: mutilboot_fields image_mem image_words)
  have s: "sh_name (section_at (mem kimage) 0xC0005000) = 0" "sh_addr (section_at (mem kimage) 0xC0005000) = 0x6000"
    "sh_size (section_at (mem kimage) 0xC0005000) = 16" "sh_name (section_at (mem kimage) 0xC0005028) = 8"
    "sh_addr (section_at (mem kimage) 0xC0005028) = 0x2000" "sh_size (section_at (mem kimage) 0xC0005028) = 16"
    by (simp_all add: section_at_def image_mem image_words)
  have n: "section_names kimage 0xC0005000 0x6000 ?names"
    using image_names(1,2) by (auto simp: section_names_def image_mapped s less_Suc_eq nth_Cons' simp del: list.map cstr.simps)
  have "last_section ?names ''.symtab'' = Some 1" "last_section ?names ''.strtab'' = Some 0"
    by (simp_all add: last_section_def upt_rec)
  then show ?thesis
    using elf_from_mutilboot_tables [OF image_mapped l(1), of ?names 0 "0xC0006000" "0xC0006008"] l n image_names(1,2) s
    by (simp del: list.map cstr.simps)
qed

text \<open>C30: \<open>elf_lookup_symbol\<close> always returns, and on a mapped table it is a search for the first
  symbol of function type whose range, from its value to its value plus its size, contains the
  address: the result is the address of that symbol's name, or \<^verbatim>\<open>NULL\<close>.\<close>

theorem elf_lookup_first_match:
  assumes "symtab elf = Some t" and "symtabsz elf = Some z" and "strtab elf = Some s" and "mapped st t (unat z)"
  shows "elf_lookup_symbol addr elf st =
    Inr (case find (covers addr) (symbols (mem st) t 0 (unat z div 16)) of None \<Rightarrow> 0 | Some y \<Rightarrow> s + st_name y)"
  by (rule elf_lookup_find [OF assms])

theorem elf_lookup_first_match_witness:
  "elf_lookup_symbol 0xC01000FF image_elf kimage = Inr 0xC0003001 \<and> elf_lookup_symbol 0xC0100100 image_elf kimage = Inr 0"
proof -
  have "mapped kimage 0xC0002000 (unat (16 :: u32))" by (simp add: image_mapped)
  then show ?thesis
    using elf_lookup_first_match [of image_elf "0xC0002000" 16 "0xC0003000" kimage "0xC01000FF"]
      elf_lookup_first_match [of image_elf "0xC0002000" 16 "0xC0003000" kimage "0xC0100100"]
    by (simp add: image_elf_def image_symbols covers_def ELF32_ST_TYPE_def)
qed

text \<open>C28: \<open>panic\<close> prints its message, one line for every frame of the stack, innermost first, with
  the return address and the name of its function, and a closing line, and only then loops. But
  when one of the return addresses lies in no function of the tables, \<open>print_stack_trace\<close> reads a
  string at \<^verbatim>\<open>NULL\<close> and the panic itself ends in a page fault at address 0. It faults too when the
  outermost saved frame pointer is not 0 but points to memory that is no longer mapped, as the
  one of \<^verbatim>\<open>kern_entry\<close> does from \<^verbatim>\<open>init_vmm\<close> on: that frame is on the boot stack below 4 MB.\<close>

theorem panic_traces_calls:
  assumes "translate st 0 = None" and "frame_chain st bp rs z" and "list_all (\<lambda>r. knows st elf r (nm r)) rs"
    and "length msg \<le> 900" and "z \<noteq> 0 \<Longrightarrow> translate st (z + 4) = None"
  shows "panic elf bp msg st io =
    (if None \<in> nm ` set rs then Some (Inl (PageFault 0))
     else if z \<noteq> 0 then Some (Inl (PageFault (z + 4)))
     else Some (Inr (console_write (chars (''---------'' @ [CHR 0x0A]))
       (fold (\<lambda>r. console_write (chars (trace_line r (the (nm r))))) rs
         (console_write (chars (''--------- System panic: '' @ msg @ '' ---------'' @ [CHR 0x0A])) io)))))"
proof -
  let ?f = "''--------- System panic: %s ---------'' @ [CHR 0x0A]"
  let ?t = "''--------- System panic: '' @ msg @ '' ---------'' @ [CHR 0x0A]"
  have v: "vsprintf ?f [Str msg] = Inr (?t, [])"
    by (simp add: vsprintf_def parse_width_def parse_precision_def skip_qualifier_def convert_def
        convert_string_def arg_str_def is_digit_def flag_def pad_def)
  have "length ?t < 1024" using assms(4) by simp
  with v have "printk ?f [Str msg] io = Inr (console_write (chars ?t) io)"
    by (intro printk_eq(1) printk_text_eq)
  moreover have "printk (''---------'' @ [CHR 0x0A]) [] io' = Inr (console_write (chars (''---------'' @ [CHR 0x0A])) io')"
    for io' :: "'b console_state_scheme" by (intro printk_eq(1) printk_text_eq) (simp_all add: vsprintf_def)
  moreover have "print_stack_trace elf z st io' = (if z \<noteq> 0 then Some (Inl (PageFault (z + 4))) else Some (Inr io'))"
    for io' :: "'b console_state_scheme"
    using assms(5) stack_trace_end(1) [of elf st io'] stack_trace_end(2) [of z st elf io'] by simp
  ultimately show ?thesis
    using stack_trace_lines [OF assms(1-3), of "console_write (chars ?t) io"]
    by (cases "None \<in> nm ` set rs"; cases "z = 0") (simp_all only: panic_def bindO_simps prod.case if_True if_False simp_thms not_False_eq_True)
qed

theorem panic_traces_calls_witness:
  "panic image_elf 0xC0001000 ''no'' kimage console0 =
    Some (Inr (console_write (chars (''---------'' @ [CHR 0x0A]))
       (console_write (chars (trace_line 0xC0100010 ''m''))
         (console_write (chars (''--------- System panic: '' @ ''no'' @ '' ---------'' @ [CHR 0x0A])) console0))))"
proof -
  have l: "load32 (mem kimage) 0xC0001004 = 0xC0100010" "load32 (mem kimage) 0xC0001000 = 0"
    by (simp_all add: image_mem image_words)
  have f: "frame_chain kimage 0xC0001000 [0xC0100010] 0"
    by (simp add: image_mapped l)
  have "mapped kimage 0xC0002000 (unat (16 :: u32))" by (simp add: image_mapped)
  then have "elf_lookup_symbol 0xC0100010 image_elf kimage = Inr 0xC0003001"
    using elf_lookup_find [of image_elf "0xC0002000" 16 "0xC0003000" kimage "0xC0100010"]
    by (simp add: image_elf_def image_symbols covers_def ELF32_ST_TYPE_def)
  then have "list_all (\<lambda>r. knows kimage image_elf r ((\<lambda>_. Some ''m'') r)) [0xC0100010]"
    using image_names(3) by (simp add: knows_def del: cstr.simps)
  from panic_traces_calls [OF image_null f this, of "''no''" console0] show ?thesis
    by (simp del: append.simps list.map append_Cons)
qed

text \<open>C27: The stack trace ends exactly for a stack that ends: when the frames on the way are mapped
  and their return addresses are in functions of the tables, \<open>print_stack_trace\<close> returns if and only if following the saved
  frame pointers leads to 0. A frame that points back into the chain keeps the kernel
  printing for ever.\<close>

theorem stack_trace_termination:
  assumes "translate st 0 = None"
    and "\<forall>k. (saved_bp st ^^ k) bp \<noteq> 0 \<longrightarrow> frame_ok st elf ((saved_bp st ^^ k) bp)"
  shows "(print_stack_trace elf bp st io \<noteq> None) = (\<exists>n. (saved_bp st ^^ n) bp = 0)"
  using stack_trace_returned [OF _ assms] stack_trace_finds_end [OF assms] by fastforce

theorem stack_trace_termination_witness:
  "print_stack_trace image_elf 0xC0001000 kimage console0 \<noteq> None \<and>
   print_stack_trace image_elf 0xC0001010 kimage console0 = None"
proof -
  have l: "load32 (mem kimage) 0xC0001004 = 0xC0100010" "load32 (mem kimage) 0xC0001000 = 0"
      "load32 (mem kimage) 0xC0001014 = 0xC0100010" "load32 (mem kimage) 0xC0001010 = 0xC0001010"
    by (simp_all add: image_mem image_words)
  have "mapped kimage 0xC0002000 (unat (16 :: u32))" by (simp add: image_mapped)
  then have "elf_lookup_symbol 0xC0100010 image_elf kimage = Inr 0xC0003001"
    using elf_lookup_find [of image_elf "0xC0002000" 16 "0xC0003000" kimage "0xC0100010"]
    by (simp add: image_elf_def image_symbols covers_def ELF32_ST_TYPE_def)
  then have "knows kimage image_elf 0xC0100010 (Some ''m'')" using image_names(3) by (simp add: knows_def del: cstr.simps)
  then have f: "frame_ok kimage image_elf 0xC0001000" "frame_ok kimage image_elf 0xC0001010"
    using l by (auto simp: frame_ok_def image_mapped)
  have loop: "(saved_bp kimage ^^ n) 0xC0001010 = 0xC0001010" for n
    by (induction n) (simp_all add: saved_bp_def l)
  have ends: "(saved_bp kimage ^^ 1) 0xC0001000 = 0" by (simp add: saved_bp_def l)
  have "(saved_bp kimage ^^ k) 0xC0001000 \<in> {0, 0xC0001000}" for k
    by (induction k) (auto simp: saved_bp_def l)
  then have "\<forall>k. (saved_bp kimage ^^ k) 0xC0001000 \<noteq> 0 \<longrightarrow> frame_ok kimage image_elf ((saved_bp kimage ^^ k) 0xC0001000)"
    using f(1) by (metis insertE singletonD)
  from stack_trace_termination [OF image_null this, of console0] ends
  have "print_stack_trace image_elf 0xC0001000 kimage console0 \<noteq> None" by metis
  moreover have "\<forall>k. (saved_bp kimage ^^ k) 0xC0001010 \<noteq> 0 \<longrightarrow> frame_ok kimage image_elf ((saved_bp kimage ^^ k) 0xC0001010)"
    using f(2) by (simp only: loop simp_thms)
  from stack_trace_termination [OF image_null this, of console0]
  have "print_stack_trace image_elf 0xC0001010 kimage console0 = None" by (simp add: loop)
  ultimately show ?thesis by (rule conjI)
qed

end
