(* ===== verification/Fault.thy ===== *)
theory Fault
  imports Stubs Timer Debug
begin

text \<open>
  Processor faults from the faulting instruction to the screen, through the stub and
  \<^verbatim>\<open>isr_handler\<close>: the page fault, which is reported and ends the kernel, and the other faults,
  for which the kernel registers no handler. The theory puts the parts of \<open>Stubs\<close>, \<open>Idt\<close>,
  \<open>Timer\<close> and \<open>Printk\<close> together.
\<close>

section \<open>The texts\<close>

abbreviation say :: "string \<Rightarrow> 'a console_state_scheme \<Rightarrow> 'a console_state_scheme" where
  "say s \<equiv> console_write (chars s)"

abbreviation say_in :: "real_color \<Rightarrow> string \<Rightarrow> 'a console_state_scheme \<Rightarrow> 'a console_state_scheme" where
  "say_in fore s \<equiv> console_write_color (chars s) rc_black fore"

lemma printk_says:
  assumes "vsprintf f args = Inr (s, [])" and "length s < 1024"
  shows "printk f args io = Inr (say s io)"
    and "printk_color back fore f args io = Inr (console_write_color (chars s) back fore io)"
  using assms by (auto intro: printk_eq printk_text_eq)

text \<open>What the bits of the error code of a page fault say, in the order of the report.\<close>

definition fault_reasons :: "u32 \<Rightarrow> string list" where
  "fault_reasons err =
     (if bit err 0 then [] else [''Because the page wasn't present.'']) @
     [if bit err 1 then ''Write error.'' else ''Read error.''] @
     [if bit err 2 then ''In user mode.'' else ''In kernel mode.''] @
     (if bit err 3 then [''Reserved bits being overwritten.''] else []) @
     (if bit err 4 then [''The fault occurred during an instruction fetch.''] else [])"

lemma and_bit: "(w :: 'a :: len word) AND push_bit n 1 = 0 \<longleftrightarrow> \<not> bit w n"
  by (auto simp: and_exp_eq_0_iff_not_bit push_bit_eq_mult)

lemma error_bits:
  fixes err :: u32
  shows "err AND 0x1 = 0 \<longleftrightarrow> \<not> bit err 0" "err AND 0x2 = 0 \<longleftrightarrow> \<not> bit err 1" "err AND 0x4 = 0 \<longleftrightarrow> \<not> bit err 2"
    "err AND 0x8 = 0 \<longleftrightarrow> \<not> bit err 3" "err AND 0x10 = 0 \<longleftrightarrow> \<not> bit err 4"
  using and_bit [of err 0] and_bit [of err 1] and_bit [of err 2] and_bit [of err 3] and_bit [of err 4] by simp_all

lemma note_says:
  assumes "CHR ''%'' \<notin> set s" and "length s < 1000"
  shows "note_if b s io = Inr (if b then say_in rc_red (s @ newline) io else io)"
proof -
  have v: "vsprintf (s @ newline) [] = Inr (s @ newline, [])"
    using vsprintf_loop_plain [of "s @ newline" "[]" "[]" "[]" "[]"] assms(1) by (simp add: vsprintf_def)
  have "length (s @ newline) < 1024" using assms(2) by simp
  from printk_says(2) [OF v this, of rc_black rc_red io] show ?thesis by (simp add: note_if_def)
qed

lemma page_fault_text:
  "page_fault cr2 regs io =
     Inr (fold (\<lambda>s. say_in rc_red (s @ newline)) (fault_reasons (r_err_code regs))
       (say (''Error code: '' @ hex (r_err_code regs) @ newline)
         (say (''Page fault at 0x'' @ hex (r_eip regs) @ '', virtual faulting address 0x'' @ hex cr2 @ newline) io)))"
proof -
  note h = number_hex [THEN conjunct1, simplified] and l = number_hex [THEN conjunct2, THEN conjunct1]
  have v: "vsprintf (''Page fault at 0x%x, virtual faulting address 0x%x'' @ newline) [Num a, Num b] =
      Inr (''Page fault at 0x'' @ hex a @ '', virtual faulting address 0x'' @ hex b @ newline, [])" for a b
    by (simp add: vsprintf_def parse_width_def parse_precision_def skip_qualifier_def convert_def convert_number_def
        arg_num_def is_digit_def h)
  have w: "vsprintf (''Error code: %x'' @ newline) [Num a] = Inr (''Error code: '' @ hex a @ newline, [])" for a
    by (simp add: vsprintf_def parse_width_def parse_precision_def skip_qualifier_def convert_def convert_number_def
        arg_num_def is_digit_def h)
  have n: "length (''Page fault at 0x'' @ hex a @ '', virtual faulting address 0x'' @ hex b @ newline) < 1024"
      "length (''Error code: '' @ hex a @ newline) < 1024" for a b
    using l [of a] l [of b] by simp_all
  show ?thesis
    unfolding page_fault_def Let_def printk_says(1) [OF v n(1)] printk_says(1) [OF w n(2)] bindE_simps prod.case
    by (cases "bit (r_err_code regs) 0"; cases "bit (r_err_code regs) 1"; cases "bit (r_err_code regs) 2";
        cases "bit (r_err_code regs) 3"; cases "bit (r_err_code regs) 4")
      (simp_all add: error_bits note_says fault_reasons_def del: append.simps append_Cons list.map)
qed

section \<open>Through the stub\<close>

text \<open>What the handler finds of the interrupted code.\<close>

lemma frame_found:
  assumes m: "mapped st (esp c - 64) 64" and err: "(err \<noteq> None) = errcode"
  shows "\<exists>c1 m. interrupt_enter stub errcode n err ret (c, st) = Inr (c1, st\<lparr>mem := m\<rparr>) \<and> esp c1 = esp c - 64 \<and>
    words_at m (esp c1 + 8) (interrupt_frame c n err) \<and> same_outside (esp c - 64) 64 (mem st) m \<and>
    r_int_no (pt_regs_at m (esp c1 + 8)) = of_nat n \<and> r_eip (pt_regs_at m (esp c1 + 8)) = eip c \<and>
    r_err_code (pt_regs_at m (esp c1 + 8)) = (case err of None \<Rightarrow> 0 | Some e \<Rightarrow> e)"
proof -
  obtain c1 m where i: "interrupt_enter stub errcode n err ret (c, st) = Inr (c1, st\<lparr>mem := m\<rparr>)" "esp c1 = esp c - 64"
      and w: "words_at m (esp c - 64) (ret # (esp c - 64 + 8) # interrupt_frame c n err)"
      and o: "same_outside (esp c - 64) 64 (mem st) m"
    using interrupt_entered [OF _ assms, where c = c and stub = stub and n = n and ret = ret] by auto
  have f: "words_at m (esp c1 + 8) (interrupt_frame c n err)" using w by (simp add: i(2) words_at_simps add.assoc)
  then have "r_int_no (pt_regs_at m (esp c1 + 8)) = of_nat n" "r_eip (pt_regs_at m (esp c1 + 8)) = eip c"
      "r_err_code (pt_regs_at m (esp c1 + 8)) = (case err of None \<Rightarrow> 0 | Some e \<Rightarrow> e)"
    by (simp_all add: pt_regs_at_def interrupt_frame_def words_at_simps add.assoc)
  then show ?thesis using i f o by blast
qed

text \<open>A handler that leaves registers and memory alone.\<close>

lemma interrupt_passes:
  assumes m: "mapped st (esp c - 64) 64" and err: "(err \<noteq> None) = errcode"
    and h: "\<And>regs s. r_int_no regs = of_nat n \<Longrightarrow> handler regs (s, io) = Inr (s, io')"
  shows "\<exists>m. interrupt handler stub errcode n err ret ((c, st), io) = Inr ((went_on c, st\<lparr>mem := m\<rparr>), io') \<and>
    same_outside (esp c - 64) 64 (mem st) m"
proof -
  obtain c1 m1 where i: "interrupt_enter stub errcode n err ret (c, st) = Inr (c1, st\<lparr>mem := m1\<rparr>)" "esp c1 = esp c - 64"
      and f: "words_at m1 (esp c1 + 8) (interrupt_frame c n err)" and o: "same_outside (esp c - 64) 64 (mem st) m1"
      and n: "r_int_no (pt_regs_at m1 (esp c1 + 8)) = of_nat n"
    using frame_found [OF m err, where stub = stub and n = n and ret = ret] by blast
  have "stub_leave (c1, st\<lparr>mem := m1\<rparr>) = Inr (went_on c, st\<lparr>mem := m1\<rparr>)"
    by (rule interrupt_left [OF refl]) (use m f i(2) in simp_all)
  then show ?thesis using i(1) o h [OF n, of "(c1, st\<lparr>mem := m1\<rparr>)"] by (auto simp: interrupt_def)
qed

section \<open>Vectors without a handler\<close>

text \<open>Decimal digits as \<^verbatim>\<open>%d\<close> prints them, and the line of \<^verbatim>\<open>isr_handler\<close>.\<close>

definition dec :: "u32 \<Rightarrow> string" where
  "dec w = (case number w 10 (-1) (-1) SIGN of Inr (Some s) \<Rightarrow> s | _ \<Rightarrow> [])"

definition unhandled_line :: "nat \<Rightarrow> string" where
  "unhandled_line n = ''Unhandled interrupt: '' @ dec (of_nat n) @ newline"

lemma number_dec:
  assumes "n < 256"
  shows "number (of_nat n) 10 (-1) (-1) SIGN = Inr (Some (dec (of_nat n))) \<and> length (dec (of_nat n)) \<le> 8 \<and>
    number_val 10 (dec (of_nat n)) = n"
proof -
  have u: "unat (of_nat n :: u32) = n" using assms by (subst unat_of_nat) simp
  then have "\<not> (of_nat n :: u32) <s 0"
    using assms by (simp add: word_sless_alt sint_u32 word_less_nat_alt uint_nat)
  then have f: "sign_text SIGN (of_nat n) = []" "magnitude SIGN (of_nat n) = of_nat n"
    by (simp_all add: flag_def sign_text_def magnitude_def)
  have "(of_nat n :: u32) \<noteq> 0x80000000" using u assms by auto
  then obtain ds where ds: "number (of_nat n) 10 (-1) (-1) SIGN = Inr (Some ds)" "shows_value 10 (of_nat n) ds"
    using number_simple [of 10 SIGN "of_nat n"] f by auto
  have "unat (of_nat n :: u32) < unat (10 :: u32) ^ 8" using assms u by simp
  then have "length ds \<le> 8"
    using ds(2) unfolding shows_value_def by (elim conjE) (rule mp [OF mp [OF spec [of _ 8]]], simp_all)
  then show ?thesis using ds u by (simp add: dec_def shows_value_def)
qed

lemma isr_unhandled:
  assumes n: "n < 256" and h: "length (interrupt_handlers idt) = 256" "interrupt_handlers idt ! n = 0"
    and r: "r_int_no regs = of_nat n"
  shows "isr_handler call idt regs (s, io) = Inr (s, say_in rc_blue (unhandled_line n) io)"
proof -
  have u: "unat (of_nat n :: u32) = n" using n by (subst unat_of_nat) simp
  have v: "vsprintf (''Unhandled interrupt: %d'' @ [CHR 0x0A]) [Num (of_nat n)] = Inr (unhandled_line n, [])"
    by (simp add: vsprintf_def parse_width_def parse_precision_def skip_qualifier_def convert_def convert_number_def
        arg_num_def is_digit_def unhandled_line_def number_dec [OF n, THEN conjunct1, simplified])
  have l: "length (unhandled_line n) < 1024" using number_dec [OF n] by (simp add: unhandled_line_def)
  from printk_says(2) [OF v l, of rc_black rc_blue io] show ?thesis
    using h n by (simp add: isr_handler_def handler_at_def r u del: append.simps append_Cons)
qed

text \<open>
  The vectors of the processor whose saved address is that of the faulting instruction, so that returning
  from the handler executes it again. The others are traps, which save the address of the next instruction
  (3, 4 and \<^verbatim>\<open>int 255\<close>), may be either (1), do not allow a return (8, 18), are no longer used or
  reserved, or come from outside (2 and the interrupts of the devices).
\<close>

definition is_fault :: "nat \<Rightarrow> bool" where
  "is_fault n \<longleftrightarrow> n \<in> {0, 5, 6, 7, 10, 11, 12, 13, 14, 16, 17, 19}"

text \<open>
  The processor at an instruction that may fault. Which instruction is at \<open>eip\<close> and whether it faults is
  the parameter \<open>raises\<close>: the vector and the error code. If it does, the fault is delivered through the
  stub; then the processor is wherever that has left it. If it does not fault the run is over. \<open>k\<close>
  bounds the number of faults.
\<close>

fun run_faults ::
  "(stub_cpu \<Rightarrow> 'a vmm_state_scheme \<Rightarrow> (nat \<times> u32 option) option) \<Rightarrow>
    (u32 \<Rightarrow> (stub_cpu \<times> 'a vmm_state_scheme, 'b) handler) \<Rightarrow> idt_state \<Rightarrow> (nat \<Rightarrow> u32) \<Rightarrow> u32 \<Rightarrow> nat \<Rightarrow>
    (stub_cpu \<times> 'a vmm_state_scheme) \<times> 'b console_state_scheme \<Rightarrow>
    ((stub_cpu \<times> 'a vmm_state_scheme) \<times> 'b console_state_scheme) res" where
  "run_faults raises call idt stub ret 0 s = Inr s"
| "run_faults raises call idt stub ret (Suc k) ((c, st), io) =
     (case raises c st of None \<Rightarrow> Inr ((c, st), io)
      | Some (n, err) \<Rightarrow>
          bindE (isr_interrupt call idt (stub n) n err ret ((c, st), io)) (run_faults raises call idt stub ret k))"

lemma faults_repeat:
  assumes err: "(err \<noteq> None) = isr_errcode n" and n: "n \<le> 31"
    and h: "length (interrupt_handlers idt) = 256" "interrupt_handlers idt ! n = 0"
    and c: "went_on c = c" and m: "mapped st (esp c - 64) 64"
    and r: "\<And>m. same_outside (esp c - 64) 64 (mem st) m \<Longrightarrow> raises c (st\<lparr>mem := m\<rparr>) = Some (n, err)"
  shows "same_outside (esp c - 64) 64 (mem st) m \<Longrightarrow>
    \<exists>m'. run_faults raises call idt stub ret k ((c, st\<lparr>mem := m\<rparr>), io) =
      Inr ((c, st\<lparr>mem := m'\<rparr>), (say_in rc_blue (unhandled_line n) ^^ k) io) \<and>
      same_outside (esp c - 64) 64 (mem st) m'"
proof (induction k arbitrary: m io)
  case 0
  then show ?case by auto
next
  case (Suc k)
  let ?io = "say_in rc_blue (unhandled_line n) io"
  have n256: "n < 256" using n by simp
  have "mapped (st\<lparr>mem := m\<rparr>) (esp c - 64) 64" using assms(6) by simp
  from interrupt_passes [where handler = "isr_handler call idt" and stub = "stub n" and ret = ret and n = n,
      OF this err isr_unhandled [OF n256 h]] obtain m1
    where i: "isr_interrupt call idt (stub n) n err ret ((c, st\<lparr>mem := m\<rparr>), io) = Inr ((c, st\<lparr>mem := m1\<rparr>), ?io)"
      and o: "same_outside (esp c - 64) 64 m m1"
    using n c by (auto simp: isr_interrupt_def)
  have "same_outside (esp c - 64) 64 (mem st) m1" using Suc.prems o by (simp add: same_outside_def)
  from Suc.IH [OF this, of ?io] show ?case using i r [OF Suc.prems] by (simp add: funpow_swap1)
qed

section \<open>Properties\<close>

text \<open>C18: A page fault is reported in full. On a stack with room for the frame, the processor, the stub
  and \<^verbatim>\<open>isr_handler\<close> never fault themselves, whatever code is interrupted, and bring \<open>page_fault\<close> to its
  endless loop with the report on the screen: the address of the instruction, the address it
  accessed and the error code the processor pushed, in hexadecimal digits that read back to
  these numbers, then in red a line for every reason the bits of the error code give. Of memory only
  the frame has been written.\<close>

theorem page_fault_reports:
  assumes "mapped st (esp c - 64) 64" and "14 < length (interrupt_handlers idt)" and "interrupt_handlers idt ! 14 = cb"
    and "cb \<noteq> 0" and "call cb = (\<lambda>regs (s, io). bindE (page_fault cr2 regs io) (\<lambda>io. Inr (s, io)))"
  shows "\<exists>c1 st1. interrupt_enter stub (isr_errcode 14) 14 (Some err) ret (c, st) = Inr (c1, st1) \<and>
    same_outside (esp c - 64) 64 (mem st) (mem st1) \<and>
    isr_handler call idt (pt_regs_at (mem st1) (esp c1 + 8)) ((c1, st1), io) = Inr ((c1, st1),
      fold (\<lambda>s. say_in rc_red (s @ newline)) (fault_reasons err)
        (say (''Error code: '' @ hex err @ newline)
          (say (''Page fault at 0x'' @ hex (eip c) @ '', virtual faulting address 0x'' @ hex cr2 @ newline) io))) \<and>
    map (number_val 16) [hex (eip c), hex cr2, hex err] = map unat [eip c, cr2, err]"
proof -
  have "(Some err \<noteq> None) = isr_errcode 14" by (simp add: isr_errcode_def)
  from frame_found [OF assms(1) this, of stub 14 ret] obtain c1 m
    where i: "interrupt_enter stub (isr_errcode 14) 14 (Some err) ret (c, st) = Inr (c1, st\<lparr>mem := m\<rparr>)"
      and o: "same_outside (esp c - 64) 64 (mem st) m"
      and r: "r_int_no (pt_regs_at m (esp c1 + 8)) = 14" "r_eip (pt_regs_at m (esp c1 + 8)) = eip c"
        "r_err_code (pt_regs_at m (esp c1 + 8)) = err" by auto
  have "map (number_val 16) [hex (eip c), hex cr2, hex err] = map unat [eip c, cr2, err]"
    using number_hex by simp
  then show ?thesis
    using i o assms(2-5)
    by (intro exI [of _ c1] exI [of _ "st\<lparr>mem := m\<rparr>"])
      (simp add: isr_handler_def handler_at_def page_fault_text r del: append.simps append_Cons list.map)
qed

text \<open>A write to an unmapped page at address 16.\<close>

theorem page_fault_reports_witness:
  "\<exists>c1 st1. interrupt_enter 0xC0102000 (isr_errcode 14) 14 (Some 2) 0xC0102040 (cpu1, two_tasks) = Inr (c1, st1) \<and>
    isr_handler (\<lambda>_ regs (s, io). bindE (page_fault 16 regs io) (\<lambda>io. Inr (s, io)))
      (idt1\<lparr>interrupt_handlers := replicate 256 1\<rparr>) (pt_regs_at (mem st1) (esp c1 + 8)) ((c1, st1), console0) =
    Inr ((c1, st1), say_in rc_red (''In kernel mode.'' @ newline) (say_in rc_red (''Write error.'' @ newline)
      (say_in rc_red (''Because the page wasn't present.'' @ newline) (say (''Error code: '' @ hex 2 @ newline)
        (say (''Page fault at 0x'' @ hex 0xC0101234 @ '', virtual faulting address 0x'' @ hex 16 @ newline) console0)))))"
proof -
  have m: "mapped two_tasks (esp cpu1 - 64) 64" by (simp add: cpu1_def two_tasks_mapped)
  have h: "14 < length (interrupt_handlers (idt1\<lparr>interrupt_handlers := replicate 256 1\<rparr>))"
      "interrupt_handlers (idt1\<lparr>interrupt_handlers := replicate 256 1\<rparr>) ! 14 = 1" "(1 :: u32) \<noteq> 0" by simp_all
  have f: "fault_reasons 2 = [''Because the page wasn't present.'', ''Write error.'', ''In kernel mode.'']"
    by (simp add: fault_reasons_def)
  have e: "eip cpu1 = 0xC0101234" by (simp add: cpu1_def)
  have "fold (\<lambda>s. say_in rc_red (s @ newline)) (fault_reasons 2) io = say_in rc_red (''In kernel mode.'' @ newline)
      (say_in rc_red (''Write error.'' @ newline) (say_in rc_red (''Because the page wasn't present.'' @ newline) io))"
    for io :: console_state by (simp only: f fold_simps)
  note F = this
  from page_fault_reports [OF m h, where call = "\<lambda>_ regs (s, io). bindE (page_fault 16 regs io) (\<lambda>io. Inr (s, io))"
      and io = console0 and err = 2 and stub = "0xC0102000" and ret = "0xC0102040", OF refl, unfolded F e]
  show ?thesis by blast
qed

text \<open>C40: A fault the kernel has no handler for never ends. Take a fault of the processor, that is a vector
  among 0 to 31 that saves the address of the faulting instruction, with an empty entry of
  \<^verbatim>\<open>interrupt_handlers\<close>; after the start of the kernel that is each of them but the page fault. Let the
  code run with equal data segment selectors and defined flags, as all of the kernel does, and let the
  instruction not depend on the 64 bytes below the stack. Then the stub saves and restores everything
  the instruction depends on, \<^verbatim>\<open>isr_handler\<close> prints one line with the number in decimal, in blue, and does
  nothing about the cause, so the instruction is executed again and raises the fault again: as long as no
  other interrupt comes in between, \<open>k\<close> rounds print \<open>k\<close> lines, the program has not moved, and the next
  fault is due.\<close>

theorem unhandled_fault_repeats:
  assumes "raises c st = Some (n, err)" and "is_fault n" and "(err \<noteq> None) = isr_errcode n"
    and "length (interrupt_handlers idt) = 256" and "interrupt_handlers idt ! n = 0"
    and "mapped st (esp c - 64) 64" and "went_on c = c"
    and "\<forall>m. same_outside (esp c - 64) 64 (mem st) m \<longrightarrow> raises c (st\<lparr>mem := m\<rparr>) = raises c st"
  shows "\<exists>m. run_faults raises call idt stub ret k ((c, st), io) =
      Inr ((c, st\<lparr>mem := m\<rparr>), (say_in rc_blue (unhandled_line n) ^^ k) io) \<and>
    same_outside (esp c - 64) 64 (mem st) m \<and> raises c (st\<lparr>mem := m\<rparr>) = Some (n, err) \<and>
    number_val 10 (dec (of_nat n)) = n"
proof -
  have n: "n \<le> 31" "n < 256" using assms(2) by (auto simp: is_fault_def)
  have s: "same_outside (esp c - 64) 64 (mem st) (mem st)" by (simp add: same_outside_def)
  from faults_repeat [OF assms(3) n(1) assms(4,5,7,6) _ s, of raises call stub ret k io] assms(1,8)
  show ?thesis using number_dec [OF n(2)] by auto
qed

text \<open>A division by zero: \<^verbatim>\<open>div ecx\<close>, encoded as F7 F1, with 0 in \<^verbatim>\<open>ecx\<close>.\<close>

definition raises0 :: "stub_cpu \<Rightarrow> 'a vmm_state_scheme \<Rightarrow> (nat \<times> u32 option) option" where
  "raises0 c st = (if mem st (eip c) = 0xF7 \<and> mem st (eip c + 1) = 0xF1 \<and> ecx c = 0 then Some (0, None) else None)"

definition cpu_div :: stub_cpu where
  "cpu_div = cpu1\<lparr>ecx := 0\<rparr>"

definition div_image :: task_state where
  "div_image = two_tasks\<lparr>mem := (mem two_tasks)(0xC0101234 := 0xF7, 0xC0101235 := 0xF1)\<rparr>"

theorem unhandled_fault_repeats_witness:
  "\<exists>m. run_faults raises0 tick_call idt1 (\<lambda>n. 0xC0102000) 0xC0102040 2 ((cpu_div, div_image), console0) =
      Inr ((cpu_div, div_image\<lparr>mem := m\<rparr>), say_in rc_blue (unhandled_line 0) (say_in rc_blue (unhandled_line 0) console0)) \<and>
    raises0 cpu_div (div_image\<lparr>mem := m\<rparr>) = Some (0, None)"
proof -
  have r: "raises0 cpu_div div_image = Some (0, None)"
    by (simp add: raises0_def cpu_div_def cpu1_def div_image_def)
  have m: "mapped div_image (esp cpu_div - 64) 64" by (simp add: cpu_div_def cpu1_def div_image_def two_tasks_mapped)
  have "went_on cpu_div = cpu_div" by (simp add: cpu_div_def cpu1_def iret_flags_def)
  moreover have "m (eip cpu_div) = mem div_image (eip cpu_div)" "m (eip cpu_div + 1) = mem div_image (eip cpu_div + 1)"
    if "same_outside (esp cpu_div - 64) 64 (mem div_image) m" for m
    using that by (simp_all add: same_outside_def cpu_div_def cpu1_def)
  then have "\<forall>m. same_outside (esp cpu_div - 64) 64 (mem div_image) m \<longrightarrow>
      raises0 cpu_div (div_image\<lparr>mem := m\<rparr>) = raises0 cpu_div div_image"
    by (simp add: raises0_def)
  moreover have "is_fault 0" "((None :: u32 option) \<noteq> None) = isr_errcode 0"
      "length (interrupt_handlers idt1) = 256" "interrupt_handlers idt1 ! 0 = 0"
    by (simp_all add: is_fault_def isr_errcode_def idt1_def)
  ultimately have "\<exists>m. run_faults raises0 tick_call idt1 (\<lambda>n. 0xC0102000) 0xC0102040 2 ((cpu_div, div_image), console0) =
      Inr ((cpu_div, div_image\<lparr>mem := m\<rparr>), (say_in rc_blue (unhandled_line 0) ^^ 2) console0) \<and>
    same_outside (esp cpu_div - 64) 64 (mem div_image) m \<and> raises0 cpu_div (div_image\<lparr>mem := m\<rparr>) = Some (0, None) \<and>
    number_val 10 (dec (of_nat 0)) = 0"
    using m by (intro unhandled_fault_repeats [where raises = raises0 and c = cpu_div and st = div_image, OF r])
  moreover have "(f ^^ 2) x = f (f x)" for f and x :: console_state by (simp add: numeral_2_eq_2)
  ultimately show ?thesis by (auto simp del: run_faults.simps)
qed

end
