(* ===== verification/Entry.thy ===== *)
theory Entry
  imports Timer Debug
begin

text \<open>
  The entry of the kernel, \<^verbatim>\<open>start\<close> of \<^verbatim>\<open>boot/boot.s\<close> and \<^verbatim>\<open>kern_entry\<close> of \<^verbatim>\<open>init/entry.c\<close>: the first page tables, paging, the
  kernel stack and the pointer to the boot loader's structure; and the two loops at the end of
  \<^verbatim>\<open>kern_init\<close> and in \<^verbatim>\<open>thread\<close>, which print in turn.

  Before paging the machine works on physical addresses. The bytes of physical memory are the
  field \<open>frame\<close>; the first directory at the physical address \<open>0x1000\<close> is the one the model keeps
  at that address plus \<open>PAGE_OFFSET\<close>.
\<close>

section \<open>\<open>start\<close> and \<open>kern_entry\<close>\<close>

text \<open>
  The header by which the boot loader finds the image: magic number, flags for page-aligned modules
  and a memory map, and the checksum.
\<close>

definition MBOOT_HEADER_MAGIC :: u32 where "MBOOT_HEADER_MAGIC = 0x1BADB002"
definition MBOOT_HEADER_FLAGS :: u32 where "MBOOT_HEADER_FLAGS = push_bit 0 1 OR push_bit 1 1"
definition MBOOT_CHECKSUM :: u32 where "MBOOT_CHECKSUM = - (MBOOT_HEADER_MAGIC + MBOOT_HEADER_FLAGS)"

definition mboot_header :: "u32 list" where
  "mboot_header = [MBOOT_HEADER_MAGIC, MBOOT_HEADER_FLAGS, MBOOT_CHECKSUM]"

text \<open>The boot loader accepts it: the three words add up to 0, and the memory map is asked for.\<close>

lemma mboot_header_valid: "sum_list mboot_header = 0" "bit (mboot_header ! 1) 1"
  by (simp_all add: mboot_header_def MBOOT_CHECKSUM_def MBOOT_HEADER_FLAGS_def)

text \<open>
  \<^verbatim>\<open>start\<close> of \<^verbatim>\<open>boot/boot.s\<close>, up to and with the call of \<^verbatim>\<open>kern_entry\<close>, and the pointer it stores in
  \<^verbatim>\<open>mboot_ptr_tmp\<close>. \<^verbatim>\<open>STACK_TOP\<close> is the difference of two addresses, a number. The stack is
  physical memory.
\<close>

definition STACK_TOP :: u32 where "STACK_TOP = 1024 - 1"

definition phys_push :: "u32 \<Rightarrow> cpu \<times> 'a vmm_state_scheme \<Rightarrow> cpu \<times> 'a vmm_state_scheme" where
  "phys_push w = (\<lambda>(c, st). (c\<lparr>esp := esp c - 4\<rparr>, st\<lparr>frame := store32 (frame st) (esp c - 4) w\<rparr>))"

definition start :: "u32 \<Rightarrow> cpu \<times> 'a vmm_state_scheme \<Rightarrow> (cpu \<times> 'a vmm_state_scheme) \<times> u32" where
  "start ret = (\<lambda>(c, st).
     let c = c\<lparr>eflags := eflags c AND NOT 0x200\<rparr>;
         mboot_ptr_tmp = ebx c;
         c = c\<lparr>esp := STACK_TOP\<rparr>;
         c = c\<lparr>ebp := 0\<rparr>;
         c = c\<lparr>esp := esp c AND 0xfffffff0\<rparr>
     in (phys_push ret (c, st), mboot_ptr_tmp))"

text \<open>The frame a compiled function opens, which \<^verbatim>\<open>print_stack_trace\<close> relies on.\<close>

definition open_frame :: "cpu \<times> 'a vmm_state_scheme \<Rightarrow> cpu \<times> 'a vmm_state_scheme" where
  "open_frame = (\<lambda>(c, st). case phys_push (ebp c) (c, st) of (c, st) \<Rightarrow> (c\<lparr>ebp := esp c\<rparr>, st))"

definition pgd_tmp :: u32 where [simp]: "pgd_tmp = 0x1000"
definition pte_low :: u32 where [simp]: "pte_low = 0x2000"
definition pte_high :: u32 where [simp]: "pte_high = 0x3000"

text \<open>\<^verbatim>\<open>sizeof(mutilboot_t)\<close>: 24 words.\<close>

definition mutilboot_size :: u32 where [simp]: "mutilboot_size = 96"

text \<open>The loop that fills the two tables.\<close>

definition fill_tables :: "nat list \<Rightarrow> 'a vmm_state_scheme \<Rightarrow> 'a vmm_state_scheme" where
  "fill_tables is st = fold (\<lambda>i st.
     set_pte pte_high (of_nat i) (push_bit 12 (of_nat i) OR PAGE_PRESENT OR PAGE_WRITE)
      (set_pte pte_low (of_nat i) (push_bit 12 (of_nat i) OR PAGE_PRESENT OR PAGE_WRITE) st)) is st"

definition entry_tables :: "'a vmm_state_scheme \<Rightarrow> 'a vmm_state_scheme" where
  "entry_tables st =
     (let st = set_pgd (pgd_tmp + PAGE_OFFSET) 0 (pte_low OR PAGE_PRESENT OR PAGE_WRITE) st;
          st = set_pgd (pgd_tmp + PAGE_OFFSET) (PGD_INDEX PAGE_OFFSET) (pte_high OR PAGE_PRESENT OR PAGE_WRITE) st;
          st = fill_tables [0..<PTE_SIZE] st
      in st\<lparr>cr3 := pgd_tmp\<rparr>)"

text \<open>Setting bit 31 of \<open>cr0\<close>: from now on the bytes of an address are those of its frame.\<close>

definition enable_paging :: "'a vmm_state_scheme \<Rightarrow> 'a vmm_state_scheme" where
  "enable_paging st = st\<lparr>mem := (\<lambda>a. case translate st a of None \<Rightarrow> mem st a | Some p \<Rightarrow> frame st p)\<rparr>"

text \<open>
  \<open>kern_entry kern_stack mboot_ptr_tmp\<close> up to the call of \<^verbatim>\<open>kern_init\<close>: the state, the registers
  and the pointer \<^verbatim>\<open>glb_mboot_ptr\<close>. Adding to a \<^verbatim>\<open>mutilboot_t *\<close> counts in whole structures.
\<close>

definition kern_entry :: "u32 \<Rightarrow> u32 \<Rightarrow> cpu \<times> 'a task_state_scheme \<Rightarrow> (cpu \<times> 'a task_state_scheme) \<times> u32" where
  "kern_entry kern_stack mboot_ptr_tmp = (\<lambda>(c, st).
     let st = enable_paging (entry_tables st);
         st = st\<lparr>kern_stack_top := (kern_stack + STACK_SIZE) AND 0xfffffff0\<rparr>;
         c = c\<lparr>esp := kern_stack_top st\<rparr>;
         c = c\<lparr>esp := esp c XOR ebp c\<rparr>
     in ((c, st), mboot_ptr_tmp + PAGE_OFFSET * mutilboot_size))"

text \<open>From the boot loader to \<^verbatim>\<open>kern_init\<close>.\<close>

definition boot_kernel :: "u32 \<Rightarrow> u32 \<Rightarrow> cpu \<times> 'a task_state_scheme \<Rightarrow> (cpu \<times> 'a task_state_scheme) \<times> u32" where
  "boot_kernel kern_stack ret s =
     (case start ret s of (s, mboot_ptr_tmp) \<Rightarrow> kern_entry kern_stack mboot_ptr_tmp (open_frame s))"

section \<open>What the first tables map\<close>

lemma fill_tables_frame:
  "pgd (fill_tables is st) = pgd st \<and> cr3 (fill_tables is st) = cr3 st \<and> mem (fill_tables is st) = mem st \<and>
   frame (fill_tables is st) = frame st"
  unfolding fill_tables_def by (induction "is" arbitrary: st) (simp_all add: set_pte_def)

lemma fill_tables_entry:
  assumes "n \<le> 1024" and "i < n" and "t = 0x2000 \<or> t = 0x3000"
  shows "ptab (fill_tables [0..<n] st) t (of_nat i) = push_bit 12 (of_nat i) OR 1 OR 2"
  using assms(1,2)
proof (induction n)
  case (Suc n)
  have "fill_tables [0..<Suc n] st =
      set_pte 0x3000 (of_nat n) (push_bit 12 (of_nat n) OR 1 OR 2)
       (set_pte 0x2000 (of_nat n) (push_bit 12 (of_nat n) OR 1 OR 2) (fill_tables [0..<n] st))"
    by (simp add: fill_tables_def)
  moreover have "(of_nat i :: u32) = of_nat n \<longleftrightarrow> i = n"
    using Suc.prems by (simp add: u32_eq_unat unat_of_nat_u32)
  ultimately show ?case using Suc assms(3) by (cases "i = n") (auto simp: set_pte_def)
qed simp

text \<open>The walk through the first tables, when the other entries of the directory are not present.\<close>

definition first_directory_clear :: "'a vmm_state_scheme \<Rightarrow> bool" where
  "first_directory_clear st \<longleftrightarrow> (\<forall>i. i \<noteq> 0 \<longrightarrow> i \<noteq> 768 \<longrightarrow> pgd st 0xC0001000 i AND 1 = 0)"

lemma and_3fffff: "(x :: u32) AND 0x3fffff = take_bit 22 x"
  by (simp add: take_bit_eq_mask mask_eq_exp_minus_1)

lemma directory_slots:
  "PGD_INDEX va = 0 \<longleftrightarrow> va < 0x400000"
  "PGD_INDEX va = 768 \<longleftrightarrow> 0xC0000000 \<le> va \<and> va < 0xC0400000"
proof -
  have u: "unat (PGD_INDEX va) = unat va div 4194304"
    by (simp add: unat_PGD_INDEX vpn_def div_mult2_eq [symmetric])
  show "PGD_INDEX va = 0 \<longleftrightarrow> va < 0x400000"
    by (simp add: u32_eq_unat u word_less_nat_alt div_eq_0_iff)
  have "unat va div 4194304 = 768 \<longleftrightarrow> 768 \<le> unat va div 4194304 \<and> unat va div 4194304 < 769" by linarith
  also have "\<dots> \<longleftrightarrow> 768 * 4194304 \<le> unat va \<and> unat va < 769 * 4194304"
    by (simp only: less_eq_div_iff_mult_less_eq div_less_iff_less_mult zero_less_numeral)
  finally show "PGD_INDEX va = 768 \<longleftrightarrow> 0xC0000000 \<le> va \<and> va < 0xC0400000"
    by (simp add: u32_eq_unat u word_less_nat_alt word_le_nat_alt)
qed

lemma entry_walk:
  assumes "first_directory_clear st"
  shows "translate (entry_tables st) va =
    (if va < 0x400000 \<or> (0xC0000000 \<le> va \<and> va < 0xC0400000) then Some (va AND 0x3fffff) else None)"
proof -
  let ?st = "entry_tables st"
  have c: "cr3 ?st + 0xC0000000 = 0xC0001000" by (simp add: entry_tables_def Let_def)
  have d: "pgd ?st 0xC0001000 i = (if i = 768 then 0x3003 else if i = 0 then 0x2003 else pgd st 0xC0001000 i)" for i
    by (simp add: entry_tables_def Let_def set_pgd_def PGD_INDEX_OFFSET [simplified] fill_tables_frame)
  have t: "ptab ?st t (PTE_INDEX va) = push_bit 12 (PTE_INDEX va) OR 1 OR 2" if "t = 0x2000 \<or> t = 0x3000" for t
  proof -
    have "unat (PTE_INDEX va) < 1024" by (simp add: unat_PTE_INDEX)
    from fill_tables_entry [OF order_refl this that] show ?thesis
      by (simp add: entry_tables_def Let_def)
  qed
  define N where "N = unat (PTE_INDEX va)"
  have N: "N < 1024" by (simp add: N_def unat_PTE_INDEX)
  have N': "push_bit 12 (PTE_INDEX va) = (push_bit 12 (of_nat N) :: u32)" by (simp add: N_def)
  have fr: "(push_bit 12 (of_nat N) :: u32) AND 0xfffff000 = push_bit 12 (of_nat N)"
    using N(1) by (intro frame_number_aligned) simp
  have off: "(push_bit 12 (PTE_INDEX va) OR OFFSET_INDEX va) = va AND 0x3fffff"
  proof -
    have "unat (push_bit 12 (PTE_INDEX va) OR OFFSET_INDEX va) = 4096 * N + unat va mod 4096"
      using page_or_off [of "push_bit 12 (of_nat N)" va] fr unat_frame_number [of N] N by (simp add: N' OFFSET_INDEX_def)
    also have "\<dots> = unat va mod (4096 * 1024)"
      unfolding mod_mult2_eq by (simp add: N_def unat_PTE_INDEX vpn_def)
    also have "\<dots> = unat (take_bit 22 va)" by (simp add: take_bit_eq_mod unat_mod)
    finally show ?thesis by (simp only: u32_eq_unat and_3fffff)
  qed
  note p = directory_slots [of va]
  show ?thesis
  proof (cases "PGD_INDEX va = 0 \<or> PGD_INDEX va = 768")
    case True
    then have e: "pgd ?st 0xC0001000 (PGD_INDEX va) AND PAGE_MASK = 0x2000 \<or> pgd ?st 0xC0001000 (PGD_INDEX va) AND PAGE_MASK = 0x3000"
        "pgd ?st 0xC0001000 (PGD_INDEX va) AND PAGE_PRESENT \<noteq> 0"
      by (auto simp: d)
    have "walk ?st 0xC0001000 va = Some (push_bit 12 (PTE_INDEX va))"
      using e t [OF e(1)] entry_bits(1,2) [OF fr] by (simp add: walk_def Let_def N')
    then show ?thesis using True p off by (auto simp: translate_def c)
  next
    case False
    then have "walk ?st 0xC0001000 va = None"
      using assms by (simp add: walk_def Let_def d first_directory_clear_def)
    then show ?thesis using False p by (auto simp: translate_def c)
  qed
qed

lemma kern_entry_result:
  assumes "first_directory_clear st" and "kern_entry kern_stack mb (c, st) = ((c', st'), mb')"
  shows "translate st' va =
      (if va < 0x400000 \<or> (0xC0000000 \<le> va \<and> va < 0xC0400000) then Some (va AND 0x3fffff) else None) \<and>
    mem st' va = (case translate st' va of None \<Rightarrow> mem st va | Some p \<Rightarrow> frame st p) \<and>
    mb' = mb \<and> kern_stack_top st' = (kern_stack + STACK_SIZE) AND 0xfffffff0 \<and>
    (esp c' = kern_stack_top st') = (ebp c = 0)"
proof -
  let ?e = "entry_tables st"
  have st': "st' = (enable_paging ?e)\<lparr>kern_stack_top := (kern_stack + STACK_SIZE) AND 0xfffffff0\<rparr>"
      and c': "esp c' = ((kern_stack + STACK_SIZE) AND 0xfffffff0) XOR ebp c" and mb': "mb' = mb"
    using assms(2) by (auto simp: kern_entry_def Let_def)
  have t: "translate st' = translate ?e"
    by (simp add: fun_eq_iff st' enable_paging_def translate_def walk_def)
  have m: "mem ?e = mem st" "frame ?e = frame st"
    by (simp_all add: entry_tables_def Let_def fill_tables_frame set_pgd_def)
  have x: "(a XOR b = a) = (b = 0)" for a b :: u32
  proof
    assume "a XOR b = a"
    then have "a XOR (a XOR b) = 0" by (simp only: xor_self_eq)
    then show "b = 0" by (simp add: xor.assoc [symmetric])
  qed simp
  have "mem st' va = (case translate st' va of None \<Rightarrow> mem st va | Some p \<Rightarrow> frame st p)"
    unfolding t by (simp add: st' enable_paging_def m split: option.split)
  moreover have "translate st' va =
      (if va < 0x400000 \<or> (0xC0000000 \<le> va \<and> va < 0xC0400000) then Some (va AND 0x3fffff) else None)"
    unfolding t by (rule entry_walk [OF assms(1)])
  moreover have top: "kern_stack_top st' = (kern_stack + STACK_SIZE) AND 0xfffffff0" by (simp add: st')
  moreover have "(esp c' = kern_stack_top st') = (ebp c = 0)" unfolding c' top by (rule x)
  ultimately show ?thesis using mb' by blast
qed

section \<open>The printing loops\<close>

text \<open>
  The two threads share \<^verbatim>\<open>flag\<close>. Each is at the test of its loop, at the print or at the
  assignment; a thread can be interrupted between any two of these. A print is one step here:
  the property below shows that the threads are never both at a print.
\<close>

datatype place = Test | Write | Assign

record handshake =
  flag_var :: u32
  main_at :: place
  thread_at :: place
  screen :: console_state

definition print_A :: "console_state \<Rightarrow> console_state" where
  "print_A io = (case printk_color rc_black rc_red ''A'' [] io of Inl e \<Rightarrow> io | Inr io' \<Rightarrow> io')"

definition print_B :: "console_state \<Rightarrow> console_state" where
  "print_B io = (case printk_color rc_black rc_green ''B'' [] io of Inl e \<Rightarrow> io | Inr io' \<Rightarrow> io')"

definition main_step :: "handshake \<Rightarrow> handshake" where
  "main_step s = (case main_at s of
     Test \<Rightarrow> if flag_var s = 0 then s\<lparr>main_at := Write\<rparr> else s
   | Write \<Rightarrow> s\<lparr>screen := print_A (screen s), main_at := Assign\<rparr>
   | Assign \<Rightarrow> s\<lparr>flag_var := 1, main_at := Test\<rparr>)"

definition thread_step :: "handshake \<Rightarrow> handshake" where
  "thread_step s = (case thread_at s of
     Test \<Rightarrow> if flag_var s = 1 then s\<lparr>thread_at := Write\<rparr> else s
   | Write \<Rightarrow> s\<lparr>screen := print_B (screen s), thread_at := Assign\<rparr>
   | Assign \<Rightarrow> s\<lparr>flag_var := 0, thread_at := Test\<rparr>)"

definition handshake_start :: "console_state \<Rightarrow> handshake" where
  "handshake_start io = \<lparr>flag_var = 0, main_at = Test, thread_at = Test, screen = io\<rparr>"

text \<open>All runs from a screen \<open>io\<close>, in any interleaving.\<close>

inductive handshake_run :: "console_state \<Rightarrow> handshake \<Rightarrow> bool" for io where
  start: "handshake_run io (handshake_start io)"
| main: "handshake_run io s \<Longrightarrow> handshake_run io (main_step s)"
| thread: "handshake_run io s \<Longrightarrow> handshake_run io (thread_step s)"

text \<open>The screen after \<open>n\<close> letters in turn.\<close>

fun in_turn :: "nat \<Rightarrow> console_state \<Rightarrow> console_state" where
  "in_turn 0 io = io"
| "in_turn (Suc n) io = (if even n then print_A (in_turn n io) else print_B (in_turn n io))"

text \<open>After \<open>n\<close> letters: whose turn it is, and where the other thread waits.\<close>

definition turns :: "console_state \<Rightarrow> nat \<Rightarrow> handshake \<Rightarrow> bool" where
  "turns io n s \<longleftrightarrow> screen s = in_turn n io \<and>
     (if flag_var s = 0 then thread_at s = Test \<and> (main_at s = Assign) = odd n
      else flag_var s = 1 \<and> main_at s = Test \<and> (thread_at s = Assign) = even n)"

lemma turns_start: "turns io 0 (handshake_start io)"
  by (simp add: turns_def handshake_start_def)

lemma turns_step:
  "turns io n s \<Longrightarrow> turns io (if main_at s = Write then Suc n else n) (main_step s)"
  "turns io n s \<Longrightarrow> turns io (if thread_at s = Write then Suc n else n) (thread_step s)"
  by (auto simp: turns_def main_step_def thread_step_def split: place.splits if_splits)

lemma run_turns: "handshake_run io s \<Longrightarrow> \<exists>n. turns io n s"
  by (induction rule: handshake_run.induct) (use turns_start turns_step in blast)+

text \<open>A whole slice of one thread.\<close>

lemma main_slice:
  assumes "turns io n s" and "flag_var s = 0" and "main_at s = Test" and "3 \<le> k"
  shows "turns io (Suc n) ((main_step ^^ k) s) \<and> flag_var ((main_step ^^ k) s) = 1 \<and> thread_at ((main_step ^^ k) s) = Test"
  using assms(4)
proof (induction k rule: dec_induct)
  case base
  then show ?case using assms(1-3) by (simp add: turns_def main_step_def numeral_3_eq_3)
next
  case (step k)
  then show ?case by (auto simp: turns_def main_step_def)
qed

lemma thread_slice:
  assumes "turns io n s" and "flag_var s = 1" and "thread_at s = Test" and "3 \<le> k"
  shows "turns io (Suc n) ((thread_step ^^ k) s) \<and> flag_var ((thread_step ^^ k) s) = 0 \<and> main_at ((thread_step ^^ k) s) = Test"
  using assms(4)
proof (induction k rule: dec_induct)
  case base
  then show ?case using assms(1-3) by (simp add: turns_def thread_step_def numeral_3_eq_3)
next
  case (step k)
  then show ?case by (auto simp: turns_def thread_step_def)
qed

text \<open>Slices of the lengths \<open>ks\<close>, the main thread first.\<close>

fun slices :: "bool \<Rightarrow> nat list \<Rightarrow> handshake \<Rightarrow> handshake" where
  "slices m [] s = s"
| "slices m (k # ks) s = slices (\<not> m) ks (((if m then main_step else thread_step) ^^ k) s)"

lemma slices_turns:
  "turns io n s \<Longrightarrow> (if m then flag_var s = 0 \<and> main_at s = Test else flag_var s = 1 \<and> thread_at s = Test) \<Longrightarrow>
    \<forall>k \<in> set ks. 3 \<le> k \<Longrightarrow> turns io (n + length ks) (slices m ks s)"
proof (induction ks arbitrary: m n s)
  case (Cons k ks)
  then show ?case
    using main_slice [of io n s k] thread_slice [of io n s k] Cons.IH [of "Suc n"] by (cases m) auto
qed simp

section \<open>Properties\<close>

text \<open>C24: From the boot loader's jump to \<^verbatim>\<open>start\<close> on, with the pointer of the boot loader in \<open>ebx\<close>, \<open>kern_entry\<close> turns
  paging on with exactly the first 4 MB of physical memory visible, at 0 and at \<open>PAGE_OFFSET\<close>, provided the rest
  of the page at \<open>0x1000\<close>, which it does not clear, has no present entry. Three things are not as they
  are meant to be. The first stack is not the array \<^verbatim>\<open>stack\<close> but lies below \<open>0x3F0\<close>: \<^verbatim>\<open>STACK_TOP\<close> is a
  number, not an address, and the two words pushed before paging overwrite the memory at \<open>0x3E8\<close>. The pointer
  to the boot loader's structure stays the physical one: the offset added to it is scaled by the size of the
  structure. And the stack pointer is the top of the kernel stack with the bits of the frame
  pointer \<open>0x3E8\<close> flipped.\<close>

theorem kern_entry_starts_paging:
  assumes "first_directory_clear st" and "boot_kernel kern_stack ret (c, st) = ((c', st'), mb')"
  shows "translate st' va =
      (if va < 0x400000 \<or> (0xC0000000 \<le> va \<and> va < 0xC0400000) then Some (va AND 0x3fffff) else None) \<and>
    mem st' va = (case translate st' va of None \<Rightarrow> mem st va
      | Some p \<Rightarrow> store32 (store32 (frame st) 0x3EC ret) 0x3E8 0 p) \<and>
    mb' = ebx c \<and> kern_stack_top st' = (kern_stack + STACK_SIZE) AND 0xfffffff0 \<and>
    ebp c' = 0x3E8 \<and> esp c' = kern_stack_top st' XOR 0x3E8"
proof -
  let ?st = "st\<lparr>frame := store32 (store32 (frame st) 0x3EC ret) 0x3E8 0\<rparr>"
  let ?c = "c\<lparr>eflags := eflags c AND NOT 0x200, esp := 0x3E8, ebp := 0x3E8\<rparr>"
  have k: "kern_entry kern_stack (ebx c) (?c, ?st) = ((c', st'), mb')"
    using assms(2) by (simp add: boot_kernel_def start_def STACK_TOP_def open_frame_def phys_push_def Let_def)
  moreover have "first_directory_clear ?st" using assms(1) by (simp add: first_directory_clear_def)
  moreover have "ebp c' = 0x3E8" "esp c' = kern_stack_top st' XOR 0x3E8"
    using k by (auto simp: kern_entry_def Let_def)
  ultimately show ?thesis using kern_entry_result [of ?st kern_stack "ebx c" ?c c' st' mb' va] by simp
qed

text \<open>A machine as the boot loader leaves it: no directory entry is present.\<close>

definition boot_machine :: "bytes \<Rightarrow> task_state" where
  "boot_machine m = boot_state\<lparr>pgd := (\<lambda>_ _. 0), ptab := (\<lambda>_ _. 0), pmm_stack_top := 0, phy_page_count := 0, frame := m\<rparr>"

theorem kern_entry_starts_paging_witness:
  "\<exists>c' st' mb'. boot_kernel 0xC0108000 0x100030 (boot_cpu\<lparr>ebx := 0x9000\<rparr>, boot_machine (\<lambda>_. 0)) = ((c', st'), mb') \<and>
    translate st' 0xC0109004 = Some 0x109004 \<and> mb' = 0x9000 \<and> esp c' = 0xC010A3E8"
proof -
  obtain c' st' mb' where k:
    "boot_kernel 0xC0108000 0x100030 (boot_cpu\<lparr>ebx := 0x9000\<rparr>, boot_machine (\<lambda>_. 0)) = ((c', st'), mb')"
    by (metis surj_pair)
  have "first_directory_clear (boot_machine (\<lambda>_. 0))"
    by (simp add: first_directory_clear_def boot_machine_def)
  from kern_entry_starts_paging [OF this k, of "0xC0109004"] k show ?thesis by auto
qed

text \<open>C29: The letters come in turn: however the threads are interleaved, at every moment the screen
  is what an alternation of the letters A and B, beginning with A, makes of it, and only one of
  the threads is at its print or at the assignment behind it.\<close>

theorem letters_in_turn:
  assumes "handshake_run io s"
  shows "(\<exists>n. screen s = in_turn n io) \<and> (main_at s = Test \<or> thread_at s = Test)"
  using run_turns [OF assms] by (auto simp: turns_def split: if_splits)

theorem letters_in_turn_witness:
  "(\<exists>n. screen (thread_step (main_step (handshake_start console0))) = in_turn n console0) \<and>
    (main_at (thread_step (main_step (handshake_start console0))) = Test \<or>
     thread_at (thread_step (main_step (handshake_start console0))) = Test)"
  by (rule letters_in_turn) (intro handshake_run.intros)

text \<open>Every time slice prints: when the threads get slices in turn, each of at least the three
  steps of a round, every slice puts exactly one letter on the screen.\<close>

theorem slice_prints_letter:
  assumes "\<forall>k \<in> set ks. 3 \<le> k"
  shows "screen (slices True ks (handshake_start io)) = in_turn (length ks) io"
proof -
  have "turns io (0 + length ks) (slices True ks (handshake_start io))"
    by (rule slices_turns [OF turns_start _ assms]) (simp add: handshake_start_def)
  then show ?thesis by (simp add: turns_def)
qed

theorem slice_prints_letter_witness:
  "screen (slices True [3, 7, 4] (handshake_start console0)) = in_turn (length [3, 7, 4 :: nat]) console0"
  by (rule slice_prints_letter) simp

end
