(* ===== verification/Boot.thy ===== *)
theory Boot
  imports Entry Heap_Flaws Preempt "HOL-Library.Signed_Division"
begin

text \<open>
  The start of the kernel: \<^verbatim>\<open>kern_init\<close> of \<^verbatim>\<open>init/entry.c\<close> with everything it calls, in its order,
  on the state of the whole machine, and what holds when it reaches its last loop.
\<close>

section \<open>State\<close>

text \<open>Addresses and constants the compiler and the linker choose.\<close>

record linkage =
  lit_strtab :: u32
  lit_symtab :: u32
  kern_start :: u32
  kern_end :: u32
  gdt_entries_addr :: u32
  idt_entries_addr :: u32
  isr_stub :: "nat \<Rightarrow> u32"
  irq_stub :: "nat \<Rightarrow> u32"
  timer_callback_addr :: u32
  page_fault_addr :: u32
  thread_addr :: u32
  kthread_exit_addr :: u32

record machine =
  glb_mboot_ptr :: u32
  kernel_elf :: elf
  gdt_part :: gdt_state
  idt_part :: idt_state
  task_part :: task_state
  io_part :: console_state

section \<open>Operations\<close>

text \<open>\<^verbatim>\<open>init_vmm\<close> with the registration of the page fault handler.\<close>

definition init_vmm :: "u32 \<Rightarrow> idt_state \<times> 'a vmm_state_scheme \<Rightarrow> idt_state \<times> 'a vmm_state_scheme" where
  "init_vmm handler = (\<lambda>(idt, st). (register_interrupt_handler 14 handler idt, init_vmm_tables st))"

text \<open>\<^verbatim>\<open>init_pmm\<close> with the entries it visits.\<close>

definition init_pmm_from :: "u32 \<Rightarrow> u32 \<Rightarrow> u32 \<Rightarrow> 'a vmm_state_scheme \<Rightarrow> 'a vmm_state_scheme res option" where
  "init_pmm_from ks ke mb st =
     bindO (Some (read32 (mb_mmap_addr mb) st)) (\<lambda>a.
     bindO (Some (read32 (mb_mmap_length mb) st)) (\<lambda>n.
     case mmap_entries (mem st) a (a + n) of None \<Rightarrow> None | Some es \<Rightarrow> Some (init_pmm (ke - ks) es st)))"

text \<open>A call of \<^verbatim>\<open>printk\<close> or \<^verbatim>\<open>printk_color\<close> on the screen of the machine.\<close>

definition say :: "string \<Rightarrow> varg list \<Rightarrow> console_state \<Rightarrow> console_state res option" where
  "say f args io = Some (printk f args io)"

definition say_color :: "real_color \<Rightarrow> string \<Rightarrow> varg list \<Rightarrow> console_state \<Rightarrow> console_state res option" where
  "say_color c f args io = Some (printk_color rc_black c f args io)"

text \<open>The texts of \<^verbatim>\<open>test_heap\<close> around the pointers \<open>ps\<close> it prints.\<close>

definition test_heap_texts :: "(string \<times> nat) list" where
  "test_heap_texts = [(''kmalloc     50 bytes in 0x%X'', 0), (''kmalloc    500 bytes in 0x%X'', 1),
     (''kmalloc   5000 bytes in 0x%X'', 2), (''kmalloc  50000 bytes in 0x%X'', 3),
     (''free mem in 0x%X'', 4), (''free mem in 0x%X'', 5), (''free mem in 0x%X'', 6), (''free mem in 0x%X'', 7)]"

fun say_all :: "(string \<times> nat) list \<Rightarrow> u32 list \<Rightarrow> console_state \<Rightarrow> console_state res option" where
  "say_all [] ps io = Some (Inr io)"
| "say_all ((f, i) # fs) ps io = bindO (say (f @ newline) [Num (ps ! i)] io) (say_all fs ps)"

definition test_heap_run :: "task_state \<times> console_state \<Rightarrow> (task_state \<times> console_state) res option" where
  "test_heap_run = (\<lambda>(st, io).
     bindO (say_color rc_magenta (''Test kmalloc() && kfree() now ...'' @ newline @ newline) [] io) (\<lambda>io.
     bindO (test_heap st) (\<lambda>(ps, st).
     bindO (say_all test_heap_texts ps io) (\<lambda>io. Some (Inr (st, io))))))"

text \<open>The size of the image in KB, an \<^verbatim>\<open>int\<close>.\<close>

definition kern_kb :: "linkage \<Rightarrow> u32" where
  "kern_kb l = word_of_int ((sint (kern_end l - kern_start l) + 1023) sdiv 1024)"

text \<open>\<^verbatim>\<open>init_debug\<close>.\<close>

definition init_debug :: "linkage \<Rightarrow> machine \<Rightarrow> machine res option" where
  "init_debug l m = bindO (elf_from_mutilboot (lit_strtab l) (lit_symtab l) (glb_mboot_ptr m) (task_part m))
     (\<lambda>elf. Some (Inr (m\<lparr>kernel_elf := elf\<rparr>)))"

text \<open>The first half, up to the memory map, and the second, which brings up memory and threads.\<close>

definition init_devices :: "linkage \<Rightarrow> machine \<Rightarrow> machine res option" where
  "init_devices l m =
     bindO (init_debug l m) (\<lambda>m.
     bindO (Some (init_gdt (gdt_entries_addr l) (gdt_part m))) (\<lambda>gdt.
     case init_idt (isr_stub l) (irq_stub l) (idt_entries_addr l) (idt_part m, io_part m) of (idt, io) \<Rightarrow>
     let io = console_clear io in
     bindO (say_color rc_green (''Hello, OS kernel~~~'' @ newline) [] io) (\<lambda>io.
     bindO (Some (init_timer (timer_callback_addr l) 200 (idt, io))) (\<lambda>(idt, io).
     bindO (say (''kernel in memory start: 0x%08X'' @ newline) [Num (kern_start l)] io) (\<lambda>io.
     bindO (say (''kernel in memory end:   0x%08X'' @ newline) [Num (kern_end l)] io) (\<lambda>io.
     bindO (say (''kernel in memory used:   %d KB'' @ newline @ newline) [Num (kern_kb l)] io) (\<lambda>io.
     bindO (show_memory_map (glb_mboot_ptr m) (task_part m) io) (\<lambda>io.
       Some (Inr (m\<lparr>gdt_part := gdt, idt_part := idt, io_part := io\<rparr>))))))))))"

definition init_memory :: "linkage \<Rightarrow> machine \<Rightarrow> machine res option" where
  "init_memory l m =
     bindO (init_pmm_from (kern_start l) (kern_end l) (glb_mboot_ptr m) (task_part m)) (\<lambda>st.
     case init_vmm (page_fault_addr l) (idt_part m, st) of (idt, st) \<Rightarrow>
     let st = init_heap st in
     bindO (say_color rc_red (newline @ ''The Count of Physical Memory Page is: %u'' @ newline @ newline)
         [Num (phy_page_count st)] (io_part m)) (\<lambda>io.
     bindO (test_heap_run (st, io)) (\<lambda>(st, io).
     bindO (Some (init_sched st)) (\<lambda>st.
     bindO (kernel_thread (kthread_exit_addr l) (thread_addr l) 0 st) (\<lambda>(pid, st).
       Some (Inr (m\<lparr>idt_part := idt, task_part := st, io_part := enable_intr io\<rparr>)))))))"

definition kern_init :: "linkage \<Rightarrow> machine \<Rightarrow> machine res option" where
  "kern_init l m = bindO (init_devices l m) (init_memory l)"

section \<open>From the page pool to an empty heap\<close>

text \<open>
  What the page pool must be for the kernel's own tables: aligned pages, none of them zero or one
  of the tables in the kernel image.
\<close>

definition pool_ok :: "'a vmm_state_scheme \<Rightarrow> bool" where
  "pool_ok st \<longleftrightarrow> pmm_ok st \<and> distinct (free_pages st) \<and>
     (\<forall>p \<in> set (free_pages st). p \<noteq> 0 \<and> p AND 0xfffff000 = p \<and> (\<forall>j < 128. kernel_table st j \<noteq> p))"

lemma init_vmm_tables_frame:
  "pgd_kern (init_vmm_tables st) = pgd_kern st \<and> cr3 (init_vmm_tables st) = pgd_kern st - PAGE_OFFSET \<and>
   mem (init_vmm_tables st) = mem st \<and> free_pages (init_vmm_tables st) = free_pages st \<and>
   pmm_stack_top (init_vmm_tables st) = pmm_stack_top st \<and> vmm_state.more (init_vmm_tables st) = vmm_state.more st"
proof -
  have a: "vmm_state.more (init_pgd_loop js st) = vmm_state.more st \<and> pmm_stack (init_pgd_loop js st) = pmm_stack st \<and>
      pmm_stack_top (init_pgd_loop js st) = pmm_stack_top st" for js
    unfolding init_pgd_loop_def by (induction js arbitrary: st) (simp_all add: set_pgd_def)
  have b: "vmm_state.more (init_pte_loop js st) = vmm_state.more st \<and> pmm_stack (init_pte_loop js st) = pmm_stack st \<and>
      pmm_stack_top (init_pte_loop js st) = pmm_stack_top st" for js and st :: "'a vmm_state_scheme"
    unfolding init_pte_loop_def by (induction js arbitrary: st) (simp_all add: set_pte_def)
  show ?thesis
    by (simp add: init_vmm_tables_def Let_def switch_pgd_def free_pages_def a b init_pgd_loop_frame init_pte_loop_frame)
qed

lemma slot: "768 \<le> unat i \<and> unat i < 896 \<Longrightarrow> unat (i :: u32) - 768 < 128"
  by linarith

lemma init_vmm_table:
  assumes "kernel_arrays_ok st"
  shows "table (init_vmm_tables st) (pgd_kern st) i =
    (if 768 \<le> unat i \<and> unat i < 896 then kernel_table st (unat i - 768) else 0)"
    and "(pgd (init_vmm_tables st) (pgd_kern st) i AND 1 = 0) = (\<not> (768 \<le> unat i \<and> unat i < 896))"
proof -
  have d: "pgd (init_vmm_tables st) (pgd_kern st) i =
      (if 768 \<le> unat i \<and> unat i < 896 then kernel_table st (unat i - 768) OR 1 OR 2 else 0)"
    using init_vmm_entries(1) [OF assms, of i] by (simp add: init_vmm_tables_frame)
  show "table (init_vmm_tables st) (pgd_kern st) i =
      (if 768 \<le> unat i \<and> unat i < 896 then kernel_table st (unat i - 768) else 0)"
    and "(pgd (init_vmm_tables st) (pgd_kern st) i AND 1 = 0) = (\<not> (768 \<le> unat i \<and> unat i < 896))"
    using entry_bits [OF kernel_table_aligned(1) [OF assms slot [of i]]] by (auto simp: d)
qed

lemma kernel_table_inj:
  assumes "kernel_arrays_ok st" and "i < 128" and "j < 128" and "kernel_table st i = kernel_table st j"
  shows "i = j"
proof -
  have "0xC0000000 \<le> unat (pte_kern st)" "unat (pte_kern st) + 524288 \<le> 4294967296"
    using assms(1) by (simp_all add: kernel_arrays_ok_def)
  note u = unat_kernel_table [OF this]
  have "unat (kernel_table st i) = unat (kernel_table st j)" using assms(4) by simp
  with u [OF assms(2)] u [OF assms(3)] \<open>0xC0000000 \<le> unat (pte_kern st)\<close> show ?thesis by linarith
qed

lemma init_vmm_ok:
  assumes k: "kernel_arrays_ok st" and p: "pool_ok st"
  shows "vm_ok (pgd_kern st) (init_vmm_tables st)"
proof (rule vm_okI)
  let ?st = "init_vmm_tables st" and ?d = "pgd_kern st"
  note f = init_vmm_tables_frame [of st]
  note t = init_vmm_table [OF k]
  show "pmm_ok ?st" using p f by (simp add: pool_ok_def pmm_ok_def)
  show "table ?st ?d i = 0 \<longleftrightarrow> pgd ?st ?d i AND 1 = 0" for i
    using kernel_table_aligned(2) [OF k slot [of i]] t [of i] by auto
  show "i = j" if "table ?st ?d i = table ?st ?d j" "table ?st ?d i \<noteq> 0" for i j
  proof -
    have "768 \<le> unat i" "unat i < 896" "768 \<le> unat j" "unat j < 896"
      "kernel_table st (unat i - 768) = kernel_table st (unat j - 768)"
      using that unfolding t(1) by (auto split: if_splits)
    moreover from this have "unat i - 768 = unat j - 768" by (intro kernel_table_inj [OF k]) auto
    ultimately show "i = j" by (simp add: u32_eq_unat)
  qed
  show "ptab ?st (table ?st ?d i) j = 0 \<or> ptab ?st (table ?st ?d i) j AND 1 \<noteq> 0" if "j < 1024" "table ?st ?d i \<noteq> 0" for i j
  proof -
    define n where "n = unat i - 768"
    have n: "n < 128" "table ?st ?d i = kernel_table st n" using that(2) unfolding t(1) n_def by (auto split: if_splits)
    have j: "unat j < 1024" using that(1) by (simp add: word_less_nat_alt)
    define N where "N = 1024 * n + unat j"
    have "(push_bit 12 (of_nat N) :: u32) AND 0xfffff000 = push_bit 12 (of_nat N)"
      using n(1) j by (intro frame_number_aligned) (simp add: N_def)
    from entry_bits(2) [OF this] init_vmm_entries(2) [OF k n(1) j] show ?thesis
      unfolding n(2) N_def [symmetric] by auto
  qed
  show "p \<noteq> 0 \<and> p AND 0xfffff000 = p" if "p \<in> set (free_pages ?st)" for p
    using that p f by (simp add: pool_ok_def)
  show "table ?st ?d i \<noteq> p" if "p \<in> set (free_pages ?st)" for p i
    using that p f slot [of i] unfolding t(1) by (auto simp: pool_ok_def)
  show "distinct (free_pages ?st)" using p f by (simp add: pool_ok_def)
qed

text \<open>The heap is empty and well formed after \<open>init_vmm\<close> and \<open>init_heap\<close>.\<close>

lemma init_heap_ok:
  fixes st :: "'a heap_state_scheme"
  assumes k: "kernel_arrays_ok st" and p: "pool_ok st" and h: "heap_max st = HEAP_START"
  shows "heap_ok [] (init_heap (init_vmm_tables st))"
proof -
  let ?st = "init_vmm_tables st"
  note f = init_vmm_tables_frame [of st]
  have w: "walk ?st (pgd_kern st) x = None" if "0xE0000000 \<le> unat x" for x
  proof -
    have "896 \<le> unat (PGD_INDEX x)"
      using div_le_mono [OF that, of 4194304] by (simp add: unat_PGD_INDEX vpn_def div_mult2_eq [symmetric])
    then show ?thesis using init_vmm_table(2) [OF k, of "PGD_INDEX x"] by (simp add: walk_def Let_def)
  qed
  have m: "heap_max ?st = 0xE0000000" using f h
    by (cases ?st; cases st) (simp add: init_vmm_tables_frame)
  have l: "length (free_pages st) \<le> 131072"
    using p by (simp add: pool_ok_def pmm_ok_def length_free_pages word_le_nat_alt)
  have d: "distinct (free_pages st)" using p by (simp add: pool_ok_def)
  have "pages_ok 0 ?st"
    unfolding pages_ok_def using init_vmm_ok [OF k p] w f m l d
    by (simp add: heap_frames_def heap_page_def not_le)
  then have "pages_ok 0 (init_heap ?st)" by (simp add: init_heap_def)
  then show ?thesis by (simp add: heap_ok_def init_heap_def)
qed

section \<open>Filling the page pool\<close>

lemma pmm_add_range_more: "pmm_add_range a l st = Inr st' \<Longrightarrow> pmm_state.more st' = pmm_state.more st"
proof (induction a l st arbitrary: st' rule: pmm_add_range.induct)
  case (1 a l st)
  show ?case
    using "1.prems" "1.IH" by (subst (asm) pmm_add_range.simps) (auto simp: pmm_free_page_def Let_def split: if_splits)
qed

lemma init_pmm_more: "init_pmm ks es st = Inr st' \<Longrightarrow> pmm_state.more st' = pmm_state.more st"
proof (induction ks es st arbitrary: st' rule: init_pmm.induct)
  case (2 ks e es st)
  then obtain t where t: "init_pmm_entry ks e st = Inr t" "init_pmm ks es t = Inr st'" by auto
  then show ?case
    using "2.IH" [OF t(1,2)] pmm_add_range_more by (auto simp: init_pmm_entry_def split: if_splits)
qed simp

text \<open>A memory map with one usable region at 1 MB, behind an image of whole pages that contains the
  tables \<^verbatim>\<open>pte_kern\<close>.\<close>

lemma init_pmm_pool_ok:
  fixes st :: "'a vmm_state_scheme"
  assumes "pmm_stack_top st = 0" and "filter usable es = [e]" and "unat ks < 0xFFF00000"
    and "unat (length_low e) < 0xFFF00000" and "4096 dvd unat ks"
    and k: "kernel_arrays_ok st" and img: "unat (pte_kern st) + 524288 \<le> 0xC0100000 + unat ks"
  obtains st' where "init_pmm ks es st = Inr st'" and "pmm_state.more st' = pmm_state.more st" and "pool_ok st'"
    and "length (free_pages st') < 2048 \<longrightarrow> min (unat (length_low e)) 0x1FF00000 < unat ks + 0x800000"
proof -
  define a where "a = 0x100000 + ks"
  define n where "n = range_count (0x100000 + unat ks) (0x100000 + unat (length_low e))"
  obtain st' where st': "init_pmm ks es st = Inr st'" "free_pages st' = rev (range_pages a n)" "pmm_ok st'"
    and a: "unat a = 0x100000 + unat ks"
    using init_pmm_one_region [OF assms(1-4)] unfolding a_def n_def by blast
  have "unat a < 4294967296" by simp
  moreover have "n = 0 \<or> unat a + 4096 * (n - 1) \<le> 536870912"
    using range_count_iff [of "n - 1" "0x100000 + unat ks" "0x100000 + unat (length_low e)"]
    by (fold n_def) (auto simp: a)
  ultimately have b: "unat a + 4096 * n \<le> 4294967296 + 4095" by arith
  note more = init_pmm_more [OF st'(1)]
  have pt: "pte_kern st' = pte_kern st" using more by (cases st; cases st') simp
  have kt: "unat (kernel_table st' j) < unat a" if "j < 128" for j
    using unat_kernel_table [of st' j] that k img by (simp add: kernel_arrays_ok_def pt a)
  have "p \<noteq> 0 \<and> p AND 0xfffff000 = p \<and> (\<forall>j < 128. kernel_table st' j \<noteq> p)" if p: "p \<in> set (free_pages st')" for p
  proof -
    obtain i where i: "unat p = unat a + 4096 * i" using p st'(2) set_range_pages [OF b] by auto
    have "4096 dvd unat p" using assms(5) by (simp add: i a)
    then have "p AND 0xfffff000 = p" by (simp only: u32_eq_unat unat_page_mask) simp
    moreover have "p \<noteq> 0" using i a by auto
    moreover have "kernel_table st' j \<noteq> p" if "j < 128" for j using kt [OF that] i by auto
    ultimately show ?thesis by blast
  qed
  moreover have "distinct (free_pages st')" using st'(2) distinct_range_pages [OF b] by simp
  ultimately have "pool_ok st'" using st'(3) by (simp add: pool_ok_def)
  moreover have "min (unat (length_low e)) 0x1FF00000 < unat ks + 0x800000" if "length (free_pages st') < 2048"
  proof -
    have "length (free_pages st') = n" using st'(2) by (simp add: range_pages_def)
    then have "\<not> 2047 < n" using that by simp
    then show ?thesis unfolding n_def range_count_iff by auto
  qed
  ultimately show ?thesis using that [OF st'(1) more] by blast
qed

section \<open>Messages\<close>

lemma number_some:
  assumes "2 \<le> base" and "base \<le> 36" and "sz \<le> 8" and "precision \<le> 8"
    and "-1 \<le> sz" and "-1 \<le> precision" and "\<not> (flag type SIGN \<and> num = 0x80000000)"
  shows "\<exists>s. number num base sz precision type = Inr (Some s) \<and> length s \<le> 60"
proof -
  have l: "length (sign_text type num) \<le> 1" "length (prefix_text type base) \<le> 2" "pad_loops type \<le> 3"
    by (auto simp: sign_text_def prefix_text_def pad_loops_def)
  have i: "is_int sz" "is_int precision" using assms by (simp_all add: is_int_def)
  obtain ds z f where n: "number num base sz precision type =
      (if flag type SIGN \<and> num = 0x80000000 \<or>
          sz - int (length (sign_text type num @ prefix_text type base @ z @ ds)) - pad_loops type < -2147483648
       then Inl (Undefined ''int overflow'')
       else Inr (Some (if flag type LEFT then sign_text type num @ prefix_text type base @ z @ ds @ f
         else if flag type ZEROPAD then sign_text type num @ prefix_text type base @ f @ z @ ds
         else f @ sign_text type num @ prefix_text type base @ z @ ds)))"
    and k: "length ds \<le> 32" and z: "z = replicate (nat (precision - int (length ds))) CHR ''0''"
    and f: "f = replicate (nat (sz - int (length (sign_text type num @ prefix_text type base @ z @ ds))))
      (if flag type ZEROPAD \<and> \<not> flag type LEFT then CHR ''0'' else CHR '' '')"
    using number_layout_ex [OF assms(1,2) i, of num type] by blast
  have z8: "length z \<le> 8" using assms(4) by (simp add: z)
  have f8: "length f \<le> 8" unfolding f length_replicate using assms(3) by linarith
  have "\<not> sz - int (length (sign_text type num @ prefix_text type base @ z @ ds)) - pad_loops type < -2147483648"
    using l k z8 assms(5) by simp
  then show ?thesis using l k z8 f8 assms(7) unfolding n by auto
qed

definition specs :: "string set" where
  "specs = {''%08X'', ''%X'', ''%d'', ''%u''}"

lemma loop_spec:
  assumes "spec \<in> specs" and "spec = ''%d'' \<longrightarrow> w \<noteq> 0x80000000"
  shows "\<exists>s. length s \<le> 60 \<and> (\<forall>rest args out st.
    vsprintf_loop (spec @ rest) (Num w # args) out st = vsprintf_loop rest args (out @ s) st)"
proof -
  note defs = parse_width_def parse_precision_def skip_qualifier_def convert_def convert_number_def
    arg_num_def is_digit_def
  note n = number_some [where num = w and precision = "-1"]
  consider "spec = ''%08X''" | "spec = ''%X''" | "spec = ''%d''" | "spec = ''%u''"
    using assms by (auto simp: specs_def)
  then show ?thesis
  proof cases
    case 1
    then have "\<exists>s. number w 16 8 (-1) ZEROPAD = Inr (Some s) \<and> length s \<le> 60"
      using assms(2) n [of 16 "8" ZEROPAD] by (auto simp: flag_def)
    then show ?thesis using 1 by (auto simp: defs)
  next
    case 2
    then have "\<exists>s. number w 16 (-1) (-1) 0 = Inr (Some s) \<and> length s \<le> 60"
      using assms(2) n [of 16 "-1" 0] by (auto simp: flag_def)
    then show ?thesis using 2 by (auto simp: defs)
  next
    case 3
    then have "\<exists>s. number w 10 (-1) (-1) SIGN = Inr (Some s) \<and> length s \<le> 60"
      using assms(2) n [of 10 "-1" SIGN] by (auto simp: flag_def)
    then show ?thesis using 3 by (auto simp: defs)
  next
    case 4
    then have "\<exists>s. number w 10 (-1) (-1) 0 = Inr (Some s) \<and> length s \<le> 60"
      using assms(2) n [of 10 "-1" 0] by (auto simp: flag_def)
    then show ?thesis using 4 by (auto simp: defs)
  qed
qed

text \<open>A format of plain pieces, each followed by a conversion, and a plain end.\<close>

fun assemble :: "(string \<times> string) list \<Rightarrow> string \<Rightarrow> string" where
  "assemble [] e = e"
| "assemble ((p, c) # ps) e = p @ c @ assemble ps e"

lemma loop_assemble:
  "\<forall>(p, c) \<in> set ps. CHR ''%'' \<notin> set p \<and> c \<in> specs \<Longrightarrow> CHR ''%'' \<notin> set e \<Longrightarrow> length ws = length ps \<Longrightarrow>
    0x80000000 \<in> set ws \<longrightarrow> ''%d'' \<notin> snd ` set ps \<Longrightarrow>
    \<exists>t. vsprintf_loop (assemble ps e) (map Num ws) out [] = Inr (out @ t, []) \<and>
      length t \<le> sum_list (map (\<lambda>(p, c). length p + 60) ps) + length e"
proof (induction ps arbitrary: ws out)
  case Nil
  then show ?case using vsprintf_loop_plain [of e "[]" "[]" out "[]"] by simp
next
  case (Cons q ps)
  obtain p c w vs where q: "q = (p, c)" "ws = w # vs" using Cons.prems(3) by (cases q; cases ws) auto
  have c: "CHR ''%'' \<notin> set p" "c \<in> specs" using Cons.prems(1) q by auto
  obtain s where s: "length s \<le> 60" "\<And>rest args out st.
      vsprintf_loop (c @ rest) (Num w # args) out st = vsprintf_loop rest args (out @ s) st"
    using loop_spec [OF c(2), of w] Cons.prems(4) q by auto
  obtain t where t: "vsprintf_loop (assemble ps e) (map Num vs) (out @ p @ s) [] = Inr ((out @ p @ s) @ t, [])"
      "length t \<le> sum_list (map (\<lambda>(p, c). length p + 60) ps) + length e"
    using Cons.IH [of vs "out @ p @ s"] Cons.prems q by auto
  have "vsprintf_loop (assemble (q # ps) e) (map Num ws) out [] = Inr (out @ (p @ s @ t), [])"
    using t(1) by (simp add: q s(2) vsprintf_loop_plain [OF c(1)])
  moreover have "length (p @ s @ t) \<le> sum_list (map (\<lambda>(p, c). length p + 60) (q # ps)) + length e"
    using s(1) t(2) q by simp
  ultimately show ?case by blast
qed

definition fine :: "(string \<times> string) list \<Rightarrow> string \<Rightarrow> bool" where
  "fine ps e \<longleftrightarrow> list_all (\<lambda>(p, c). CHR ''%'' \<notin> set p \<and> c \<in> specs) ps \<and> CHR ''%'' \<notin> set e \<and>
     sum_list (map (\<lambda>(p, c). length p + 60) ps) + length e < 1024"

lemma printk_fine:
  assumes "fine ps e" and "length ws = length ps" and "0x80000000 \<in> set ws \<longrightarrow> ''%d'' \<notin> snd ` set ps"
  shows "\<exists>io'. printk (assemble ps e) (map Num ws) io = Inr io'"
    and "\<exists>io'. printk_color b c (assemble ps e) (map Num ws) io = Inr io'"
proof -
  obtain t where t: "vsprintf (assemble ps e) (map Num ws) = Inr (t, [])" "length t < 1024"
    using loop_assemble [of ps e ws "[]"] assms by (auto simp: vsprintf_def fine_def list_all_iff)
  then show "\<exists>io'. printk (assemble ps e) (map Num ws) io = Inr io'"
    and "\<exists>io'. printk_color b c (assemble ps e) (map Num ws) io = Inr io'"
    using printk_eq [OF printk_text_eq [OF t]] by blast+
qed

lemma say_fine:
  assumes "fine ps e" and "length ws = length ps" and "0x80000000 \<in> set ws \<longrightarrow> ''%d'' \<notin> snd ` set ps"
  shows "\<exists>io'. say (assemble ps e) (map Num ws) io = Some (Inr io')"
    and "\<exists>io'. say_color c (assemble ps e) (map Num ws) io = Some (Inr io')"
proof -
  obtain io1 io2 where "printk (assemble ps e) (map Num ws) io = Inr io1"
    "printk_color rc_black c (assemble ps e) (map Num ws) io = Inr io2"
    using printk_fine(1) [OF assms, of io] printk_fine(2) [OF assms, of rc_black c io] by blast
  then show "\<exists>io'. say (assemble ps e) (map Num ws) io = Some (Inr io')"
    and "\<exists>io'. say_color c (assemble ps e) (map Num ws) io = Some (Inr io')"
    by (simp_all add: say_def say_color_def)
qed

text \<open>The messages of the kernel.\<close>

lemma messages:
  "\<exists>io'. say (''kernel in memory start: 0x%08X'' @ newline) [Num w] io = Some (Inr io')"
  "\<exists>io'. say (''kernel in memory end:   0x%08X'' @ newline) [Num w] io = Some (Inr io')"
  "w \<noteq> 0x80000000 \<Longrightarrow> \<exists>io'. say (''kernel in memory used:   %d KB'' @ newline @ newline) [Num w] io = Some (Inr io')"
  "\<exists>io'. say_color rc_red (newline @ ''The Count of Physical Memory Page is: %u'' @ newline @ newline) [Num w] io = Some (Inr io')"
  "\<exists>io'. say_color rc_green (''Hello, OS kernel~~~'' @ newline) [] io = Some (Inr io')"
  "\<exists>io'. say_color rc_magenta (''Test kmalloc() && kfree() now ...'' @ newline @ newline) [] io = Some (Inr io')"
proof -
  have say: "\<exists>io'. say (assemble [(p, c)] e) [Num w] io = Some (Inr io')"
      "\<exists>io'. say_color b (assemble [(p, c)] e) [Num w] io = Some (Inr io')"
      "\<exists>io'. say_color b (assemble [] e) [] io = Some (Inr io')"
    if "fine [(p, c)] e" "c = ''%d'' \<longrightarrow> w \<noteq> 0x80000000" for p c e b
  proof -
    have "0x80000000 \<in> set [w] \<longrightarrow> ''%d'' \<notin> snd ` set [(p, c)]" using that(2) by auto
    from say_fine [OF that(1) _ this, simplified]
    show "\<exists>io'. say (assemble [(p, c)] e) [Num w] io = Some (Inr io')"
      "\<exists>io'. say_color b (assemble [(p, c)] e) [Num w] io = Some (Inr io')" by simp_all
    show "\<exists>io'. say_color b (assemble [] e) [] io = Some (Inr io')"
      using say_fine(2) [of "[]" e "[]"] that(1) by (simp add: fine_def)
  qed
  show "\<exists>io'. say (''kernel in memory start: 0x%08X'' @ newline) [Num w] io = Some (Inr io')"
    using say(1) [of "''kernel in memory start: 0x''" "''%08X''" newline] by (simp add: fine_def specs_def)
  show "\<exists>io'. say (''kernel in memory end:   0x%08X'' @ newline) [Num w] io = Some (Inr io')"
    using say(1) [of "''kernel in memory end:   0x''" "''%08X''" newline] by (simp add: fine_def specs_def)
  show "w \<noteq> 0x80000000 \<Longrightarrow> \<exists>io'. say (''kernel in memory used:   %d KB'' @ newline @ newline) [Num w] io = Some (Inr io')"
    using say(1) [of "''kernel in memory used:   ''" "''%d''" "'' KB'' @ newline @ newline"] by (simp add: fine_def specs_def)
  show "\<exists>io'. say_color rc_red (newline @ ''The Count of Physical Memory Page is: %u'' @ newline @ newline) [Num w] io = Some (Inr io')"
    using say(2) [of "newline @ ''The Count of Physical Memory Page is: ''" "''%u''" "newline @ newline" rc_red]
    by (simp add: fine_def specs_def)
  show "\<exists>io'. say_color rc_green (''Hello, OS kernel~~~'' @ newline) [] io = Some (Inr io')"
    using say(3) [of "[]" "''%u''" "''Hello, OS kernel~~~'' @ newline" rc_green] by (simp add: fine_def specs_def)
  show "\<exists>io'. say_color rc_magenta (''Test kmalloc() && kfree() now ...'' @ newline @ newline) [] io = Some (Inr io')"
    using say(3) [of "[]" "''%u''" "''Test kmalloc() && kfree() now ...'' @ newline @ newline" rc_magenta]
    by (simp add: fine_def specs_def)
qed

lemma kern_kb_small: "kern_kb l \<noteq> 0x80000000"
proof -
  let ?k = "(sint (kern_end l - kern_start l) + 1023) sdiv 1024"
  have "- 2147483648 \<le> sint (kern_end l - kern_start l)" "sint (kern_end l - kern_start l) < 2147483648"
    using sint_greater_eq [of "kern_end l - kern_start l"] sint_less [of "kern_end l - kern_start l"] by simp_all
  then have "- 2147483648 < ?k" "?k < 2147483648"
    by (auto simp: signed_divide_int_def sgn_if)
  then have "sint (kern_kb l) = ?k"
    unfolding kern_kb_def by (intro signed_take_bit_int_eq_self [THEN trans [OF sint_sbintrunc']]) simp_all
  then show ?thesis using \<open>- 2147483648 < ?k\<close> by auto
qed

lemma test_heap_text:
  assumes "(f, i) \<in> set test_heap_texts"
  obtains p where "f = p @ ''%X''" and "CHR ''%'' \<notin> set p" and "length p < 100"
proof -
  have "list_all (\<lambda>(f, i). f = take (length f - 2) f @ ''%X'' \<and> CHR ''%'' \<notin> set (take (length f - 2) f) \<and>
      length (take (length f - 2) f) < 100) test_heap_texts" by code_simp
  from bspec [OF this [unfolded list_all_iff] assms, unfolded prod.case] that show ?thesis by blast
qed

lemma say_test_heap:
  assumes "(f, i) \<in> set test_heap_texts"
  shows "\<exists>io'. say (f @ newline) [Num w] io = Some (Inr io')"
proof -
  obtain p where p: "f = p @ ''%X''" "CHR ''%'' \<notin> set p" "length p < 100" by (rule test_heap_text [OF assms])
  have "fine [(p, ''%X'')] newline" using p(2,3) by (simp add: fine_def specs_def)
  from say_fine(1) [OF this, of "[w]" io] show ?thesis by (simp add: p(1))
qed

lemma test_heap_messages: "\<exists>io'. say_all test_heap_texts ps io = Some (Inr io')"
proof -
  have "set fs \<subseteq> set test_heap_texts \<Longrightarrow> \<exists>io'. say_all fs ps io = Some (Inr io')" for fs io
  proof (induction fs arbitrary: io)
    case (Cons q fs)
    obtain f i where q: "q = (f, i)" by (cases q)
    then have "(f, i) \<in> set test_heap_texts" using Cons.prems by simp
    from say_test_heap [OF this] obtain io' where "say (f @ newline) [Num (ps ! i)] io = Some (Inr io')" by blast
    then show ?case using Cons.IH [of io'] Cons.prems q by simp
  qed simp
  then show ?thesis by blast
qed

text \<open>The lines of the memory map.\<close>

lemma show_entries_ok:
  assumes "mapped st p (24 * k)" and "unat e = unat p + 24 * k"
  shows "\<exists>io'. show_entries p e st (io :: 'b console_state_scheme) = Some (Inr io')"
  using assms
proof (induction k arbitrary: p io)
  case 0
  then show ?case by (subst show_entries.simps) (simp add: word_less_nat_alt)
next
  case (Suc k)
  have u: "unat (p + 24) = unat p + 24"
    using Suc.prems(2) unat_less_u32 [of e] by (subst unat_plus_small) simp_all
  have "mapped st (p + 24) (24 * k)" by (rule mapped_sub [OF Suc.prems(1)]) (simp_all add: u)
  note IH = Suc.IH [OF this]
  let ?f = "[(''base_addr = 0x'', ''%X''), ([], ''%08X''), ('', length = 0x'', ''%X''), ([], ''%08X''), ('', type = 0x'', ''%X'')]"
  let ?ws = "[load32 (mem st) (p + 8), load32 (mem st) (p + 4), load32 (mem st) (p + 16), load32 (mem st) (p + 12), load32 (mem st) (p + 20)]"
  have "fine ?f newline" by (simp add: fine_def specs_def)
  then obtain io' where io': "printk (assemble ?f newline) (map Num ?ws) io = Inr io'"
    using printk_fine(1) [of ?f newline ?ws io] by auto
  have r: "read32 (p + 8) st = Inr (load32 (mem st) (p + 8))" "read32 (p + 4) st = Inr (load32 (mem st) (p + 4))"
      "read32 (p + 16) st = Inr (load32 (mem st) (p + 16))" "read32 (p + 12) st = Inr (load32 (mem st) (p + 12))"
      "read32 (p + 20) st = Inr (load32 (mem st) (p + 20))"
    using mapped_access(1) [OF Suc.prems(1), of 8] mapped_access(1) [OF Suc.prems(1), of 4]
      mapped_access(1) [OF Suc.prems(1), of 16] mapped_access(1) [OF Suc.prems(1), of 12]
      mapped_access(1) [OF Suc.prems(1), of 20] by simp_all
  have "p < e" using Suc.prems(2) by (simp add: word_less_nat_alt)
  then have "show_entries p e st io = show_entries (p + 24) e st io'"
    using io' by (subst show_entries.simps) (simp add: r)
  then show ?case using IH [of io'] Suc.prems(2) u by simp
qed

section \<open>The two halves\<close>

text \<open>The boot loader's structure and its memory map of \<open>k\<close> entries are mapped.\<close>

definition map_readable :: "'a vmm_state_scheme \<Rightarrow> u32 \<Rightarrow> nat \<Rightarrow> bool" where
  "map_readable st mb k \<longleftrightarrow> mapped st mb 52 \<and>
     mapped st (load32 (mem st) (mb + 48)) (24 * k) \<and>
     unat (load32 (mem st) (mb + 48) + load32 (mem st) (mb + 44)) = unat (load32 (mem st) (mb + 48)) + 24 * k"

definition map_entries :: "'a vmm_state_scheme \<Rightarrow> u32 \<Rightarrow> nat \<Rightarrow> mmap_entry list" where
  "map_entries st mb k = map (\<lambda>i. mmap_entry_at (mem st) (load32 (mem st) (mb + 48) + of_nat (24 * i))) [0..<k]"

lemma map_readable_access:
  assumes "map_readable st mb k"
  shows "read32 (mb + 48) st = Inr (load32 (mem st) (mb + 48))" and "read32 (mb + 44) st = Inr (load32 (mem st) (mb + 44))"
    and "mmap_entries (mem st) (load32 (mem st) (mb + 48)) (load32 (mem st) (mb + 48) + load32 (mem st) (mb + 44)) =
      Some (map_entries st mb k)"
    and "\<exists>io'. show_entries (load32 (mem st) (mb + 48)) (load32 (mem st) (mb + 48) + load32 (mem st) (mb + 44)) st
      (io :: 'b console_state_scheme) = Some (Inr io')"
  using assms mapped_access(1) [of st mb 52 48] mapped_access(1) [of st mb 52 44]
  by (auto simp: map_readable_def map_entries_def mmap_entries_whole intro: show_entries_ok)

lemma show_memory_map_ok:
  assumes "map_readable st mb k"
  shows "\<exists>io'. show_memory_map mb st (io :: 'b console_state_scheme) = Some (Inr io')"
proof -
  obtain io1 where "printk (''Memory map: '' @ newline) [] io = Inr io1"
    using printk_fine(1) [of "[]" "''Memory map: '' @ newline" "[]" io] by (auto simp: fine_def)
  then show ?thesis using map_readable_access [OF assms] by (simp add: show_memory_map_def)
qed

lemma init_gdt_some: "5 \<le> length (gdt_entries st) \<Longrightarrow> \<exists>st'. init_gdt a st = Inr st'"
  by (auto simp: init_gdt_def gdt_set_gate_def Let_def)

lemma init_idt_empty_handlers: "interrupt_handlers (fst (init_idt isr irq a (st, io))) = replicate 256 0"
proof -
  have "interrupt_handlers (fold (\<lambda>(n, a). idt_set_gate n a s f) gs st) = interrupt_handlers st" for gs s f st
    by (induction gs arbitrary: st) (auto simp: idt_set_gate_def)
  then show ?thesis by (simp add: init_idt_def Let_def idt_flush_def)
qed

lemma init_timer_200: "\<exists>io'. init_timer cb 200 (st, io) = Inr (register_interrupt_handler IRQ0 cb st, io')"
  by (simp add: init_timer_def Let_def)

lemma init_devices_ok:
  assumes elf: "elf_from_mutilboot (lit_strtab l) (lit_symtab l) (glb_mboot_ptr m) (task_part m) = Some (Inr elf)"
    and gdt: "5 \<le> length (gdt_entries (gdt_part m))" and map: "map_readable (task_part m) (glb_mboot_ptr m) k"
  obtains g i io where "init_devices l m = Some (Inr (m\<lparr>kernel_elf := elf, gdt_part := g, idt_part := i, io_part := io\<rparr>))"
    and "interrupt_handlers i = (replicate 256 0)[32 := timer_callback_addr l]"
proof -
  obtain g where g: "init_gdt (gdt_entries_addr l) (gdt_part m) = Inr g" using init_gdt_some [OF gdt] by blast
  obtain i io where i: "init_idt (isr_stub l) (irq_stub l) (idt_entries_addr l) (idt_part m, io_part m) = (i, io)"
    by (cases "init_idt (isr_stub l) (irq_stub l) (idt_entries_addr l) (idt_part m, io_part m)")
  then have h: "interrupt_handlers i = replicate 256 0" by (metis init_idt_empty_handlers fst_conv)
  obtain io1 where io1: "say_color rc_green (''Hello, OS kernel~~~'' @ newline) [] (console_clear io) = Some (Inr io1)"
    using messages(5) by blast
  obtain io2 where io2: "init_timer (timer_callback_addr l) 200 (i, io1) =
      Inr (register_interrupt_handler IRQ0 (timer_callback_addr l) i, io2)" using init_timer_200 by blast
  obtain io3 where io3: "say (''kernel in memory start: 0x%08X'' @ newline) [Num (kern_start l)] io2 = Some (Inr io3)"
    using messages(1) by blast
  obtain io4 where io4: "say (''kernel in memory end:   0x%08X'' @ newline) [Num (kern_end l)] io3 = Some (Inr io4)"
    using messages(2) by blast
  obtain io5 where io5: "say (''kernel in memory used:   %d KB'' @ newline @ newline) [Num (kern_kb l)] io4 = Some (Inr io5)"
    using messages(3) kern_kb_small by blast
  obtain io6 where io6: "show_memory_map (glb_mboot_ptr m) (task_part m) io5 = Some (Inr io6)"
    using show_memory_map_ok [OF map] by blast
  let ?m = "m\<lparr>kernel_elf := elf\<rparr>"
  have d: "init_debug l m = Some (Inr ?m)" by (simp add: init_debug_def elf)
  have f: "gdt_part ?m = gdt_part m" "idt_part ?m = idt_part m" "io_part ?m = io_part m" "task_part ?m = task_part m"
    "glb_mboot_ptr ?m = glb_mboot_ptr m" by simp_all
  have "init_devices l m = Some (Inr (m\<lparr>kernel_elf := elf, gdt_part := g,
      idt_part := register_interrupt_handler IRQ0 (timer_callback_addr l) i, io_part := io6\<rparr>))"
    by (simp only: init_devices_def d f g i io1 io2 io3 io4 io5 io6 bindO_simps prod.case Let_def)
  then show ?thesis by (rule that) (simp add: register_interrupt_handler_def h)
qed

text \<open>
  What \<open>init_memory\<close> needs of memory, linkage and the memory map, whose one usable region has
  \<open>n\<close> bytes; and when there may be less than 2048 pages of it behind the image.
\<close>

definition small :: "linkage \<Rightarrow> nat \<Rightarrow> bool" where
  "small l n \<longleftrightarrow> min n 0x1FF00000 < unat (kern_end l - kern_start l) + 0x800000"


definition memory_ready :: "linkage \<Rightarrow> task_state \<Rightarrow> u32 \<Rightarrow> nat \<Rightarrow> nat \<Rightarrow> bool" where
  "memory_ready l st mb k n \<longleftrightarrow> map_readable st mb k \<and>
     (\<exists>e. filter usable (map_entries st mb k) = [e] \<and> unat (length_low e) = n) \<and> n < 0xFFF00000 \<and>
     unat (kern_end l - kern_start l) < 0xFFF00000 \<and> 4096 dvd unat (kern_end l - kern_start l) \<and>
     kernel_arrays_ok st \<and> unat (pte_kern st) + 524288 \<le> 0xC0100000 + unat (kern_end l - kern_start l) \<and>
     pmm_stack_top st = 0 \<and> heap_max st = HEAP_START \<and>
     0xC0003000 \<le> unat (kern_stack_top st) \<and> unat (kern_stack_top st) \<le> 0xE0000000"

text \<open>After \<open>init_vmm\<close> the kernel stack is mapped.\<close>

lemma direct_mapped:
  assumes "kernel_arrays_ok st" and "0xC0001000 \<le> unat a" and "unat a + n \<le> 0xE0000000"
  shows "mapped (init_vmm_tables st) a n"
proof -
  have "translate (init_vmm_tables st) x \<noteq> None" if "0xC0001000 \<le> unat x" "unat x < 0xE0000000" for x
  proof -
    have "786433 \<le> vpn x" "vpn x < 917504"
      using div_le_mono [OF that(1), of 4096] that(2) by (simp_all add: vpn_def div_less_iff_less_mult)
    then show ?thesis using init_vmm_walk [OF assms(1), of x] by (simp add: translate_def)
  qed
  then show ?thesis using assms(2,3) unfolding mapped_def by simp
qed

text \<open>Page pool, tables and heap: the part before the threads.\<close>

lemma pool_to_heap:
  assumes "memory_ready l st mb k n"
  obtains st1 st2 where "init_pmm_from (kern_start l) (kern_end l) mb st = Some (Inr st1)"
    and "st2 = init_heap (init_vmm_tables st1)" and "heap_ok [] st2"
    and "kern_stack_top st2 = kern_stack_top st" and "mapped st2 (kern_stack_top st - 8192) 8192"
    and "length (free_pages st2) < 2048 \<longrightarrow> small l n"
proof -
  let ?ks = "kern_end l - kern_start l"
  from assms obtain e where r: "map_readable st mb k" and e: "filter usable (map_entries st mb k) = [e]"
      "unat (length_low e) < 0xFFF00000" "unat (length_low e) = n" and ks: "unat ?ks < 0xFFF00000" "4096 dvd unat ?ks"
      and k: "kernel_arrays_ok st" and img: "unat (pte_kern st) + 524288 \<le> 0xC0100000 + unat ?ks"
      and p: "pmm_stack_top st = 0" and h: "heap_max st = HEAP_START"
      and t: "0xC0003000 \<le> unat (kern_stack_top st)" "unat (kern_stack_top st) \<le> 0xE0000000"
    unfolding memory_ready_def by blast
  obtain st1 where st1: "init_pmm ?ks (map_entries st mb k) st = Inr st1" "pmm_state.more st1 = pmm_state.more st" "pool_ok st1"
      "length (free_pages st1) < 2048 \<longrightarrow> min (unat (length_low e)) 0x1FF00000 < unat ?ks + 0x800000"
    by (rule init_pmm_pool_ok [OF p e(1) ks(1) e(2) ks(2) k img])
  have run: "init_pmm_from (kern_start l) (kern_end l) mb st = Some (Inr st1)"
    using map_readable_access [OF r] st1(1) by (simp add: init_pmm_from_def)
  have same: "pgd st1 = pgd st" "ptab st1 = ptab st" "pgd_kern st1 = pgd_kern st" "pte_kern st1 = pte_kern st"
      "heap_max st1 = heap_max st" "kern_stack_top st1 = kern_stack_top st"
    using st1(2) by (cases st; cases st1; simp)+
  have k1: "kernel_arrays_ok st1" using k by (simp add: kernel_arrays_ok_def kernel_table_def same)
  let ?st2 = "init_heap (init_vmm_tables st1)"
  have "heap_ok [] ?st2" by (rule init_heap_ok [OF k1 st1(3)]) (simp add: same h)
  moreover have top: "kern_stack_top ?st2 = kern_stack_top st"
    using init_vmm_tables_frame [of st1] same(6) by (cases st1; cases "init_vmm_tables st1") (simp add: init_heap_def)
  moreover have "mapped ?st2 (kern_stack_top st - 8192) 8192"
  proof -
    have u: "unat (kern_stack_top st - 8192) = unat (kern_stack_top st) - 8192"
      using t(1) by (simp add: unat_minus_small word_le_nat_alt)
    have "mapped (init_vmm_tables st1) (kern_stack_top st - 8192) 8192"
      by (rule direct_mapped [OF k1]) (use u t in simp_all)
    then show ?thesis by (simp add: init_heap_def mapped_def translate_def walk_def)
  qed
  moreover have "free_pages ?st2 = free_pages st1"
    using init_vmm_tables_frame [of st1] free_pages_cong [of ?st2 "init_vmm_tables st1"] by (simp add: init_heap_def)
  then have "length (free_pages ?st2) < 2048 \<longrightarrow> small l n" using st1(4) e(3) by (simp add: small_def)
  ultimately show ?thesis by (rule that [OF run refl])
qed

text \<open>The threads: from an empty heap and a mapped kernel stack to the invariant of the scheduler.\<close>

lemma heap_to_threads:
  fixes st :: task_state
  assumes h: "heap_ok [] st" and m: "mapped st (kern_stack_top st - 8192) 8192"
    and t: "0xC0003000 \<le> unat (kern_stack_top st)" "unat (kern_stack_top st) \<le> 0xE0000000"
    and c: "running c (kern_stack_top st - 8192)"
  obtains st1 where "init_sched st = Inr st1"
    and "kernel_thread ke fn arg st1 = Some (Inl (Panic ''out of memory'')) \<and> length (free_pages st) < 6 \<or>
      (\<exists>pid st2 bs a. kernel_thread ke fn arg st1 = Some (Inr (pid, st2)) \<and>
        sched_inv bs [kern_stack_top st - 8192, a] (c, st2) \<and> current st2 = kern_stack_top st - 8192 \<and>
        prepared ke fn arg a (mem st2))"
proof -
  obtain st1 where s1: "init_sched st = Inr st1" "tasks_ok [] [kern_stack_top st - 8192] st1"
      "current st1 = kern_stack_top st - 8192" "free_pages st1 = free_pages st"
    using init_sched_ok [OF h _ t(2) m] t(1) by auto
  have inv: "sched_inv [] [kern_stack_top st - 8192] (c, st1)" using s1 c by (simp add: sched_inv_def)
  have "pages_ok 0 st1" using tasks_okD(1) [OF s1(2)] by (simp add: heap_ok_def page_count_def)
  then have hm: "unat (heap_max st1) = 0xE0000000" using pages_okD(4) [of 0 st1] by (simp add: heap_page_def)
  have "kernel_thread ke fn arg st1 = Some (Inl (Panic ''out of memory'')) \<and> length (free_pages st) < 6 \<or>
      (\<exists>pid st2. kernel_thread ke fn arg st1 = Some (Inr (pid, st2)))"
    using kernel_thread_ok [OF s1(2), where ke = ke and fn = fn and arg = arg]
    by (auto simp: page_count_def s1(4) split: option.splits sum.splits)
  moreover have "\<exists>bs a. sched_inv bs [kern_stack_top st - 8192, a] (c, st2) \<and> current st2 = kern_stack_top st - 8192 \<and>
      prepared ke fn arg a (mem st2)"
    if k: "kernel_thread ke fn arg st1 = Some (Inr (pid, st2))" for pid st2
  proof -
    let ?t = "kern_stack_top st - 8192"
    have "kernel_step Spawn (c, st1) (c, st2)"
      using k c hm by (intro kernel_step.spawn) (simp_all add: s1(3))
    from spawn_step [OF inv this] obtain bs a where a: "sched_inv bs [?t, a] (c, st2)" "current st2 = ?t"
      by (auto simp: s1(3))
    obtain b bs' where b: "tasks_ok bs' [?t, b] st2" "prepared ke fn arg b (mem st2)"
      using kernel_thread_ok [OF s1(2), where ke = ke and fn = fn and arg = arg] by (auto simp: k prepared_def)
    have "next_of (mem st2) ?t = x" if "ring (mem st2) [?t, x]" for x using ring_nth [OF that, of 0] by simp
    then have "b = a" using tasks_okD(7) [OF b(1)] tasks_okD(7) [OF sched_invD(1) [OF a(1)]] by metis
    then show ?thesis using a b(2) by blast
  qed
  ultimately show ?thesis using that [OF s1(1)] by blast
qed

section \<open>The whole start\<close>

lemma test_heap_run_cases:
  fixes st :: task_state
  assumes "heap_ok [] st"
  shows "test_heap_run (st, io) = Some (Inl (Panic ''out of memory'')) \<and> length (free_pages st) < 2048 \<or>
    (\<exists>st' io'. test_heap_run (st, io) = Some (Inr (st', io')) \<and> heap_ok [] st' \<and> heap_frame st st' \<and>
      length (free_pages st) \<le> length (free_pages st') + 1024)"
proof -
  obtain io1 where io1: "say_color rc_magenta (''Test kmalloc() && kfree() now ...'' @ newline @ newline) [] io = Some (Inr io1)"
    using messages(6) by blast
  from test_heap_result [OF assms]
  consider "test_heap st = Some (Inl (Panic ''out of memory''))" "length (free_pages st) < 2048"
    | ps st' where "test_heap st = Some (Inr (ps, st'))" "heap_ok [] st'" "heap_frame st st'" "owned st' 0 = owned st 0" by blast
  then show ?thesis
  proof cases
    case 1
    then show ?thesis by (simp add: test_heap_run_def io1 del: append.simps append_Cons)
  next
    case 2
    obtain io2 where "say_all test_heap_texts ps io1 = Some (Inr io2)" using test_heap_messages by blast
    then have "test_heap_run (st, io) = Some (Inr (st', io2))"
      by (simp only: test_heap_run_def prod.case io1 2(1) bindO_simps)
    then show ?thesis using 2 free_lower [OF assms, of st' 0] by auto
  qed
qed

lemma init_memory_cases:
  assumes r: "memory_ready l (task_part m) (glb_mboot_ptr m) k n"
    and c: "running c (kern_stack_top (task_part m) - 8192)"
  shows "init_memory l m = Some (Inl (Panic ''out of memory'')) \<and> small l n \<or>
    (\<exists>st io bs a. init_memory l m = Some (Inr (m\<lparr>task_part := st, io_part := enable_intr io,
        idt_part := register_interrupt_handler 14 (page_fault_addr l) (idt_part m)\<rparr>)) \<and>
      sched_inv bs [kern_stack_top (task_part m) - 8192, a] (c, st) \<and> current st = kern_stack_top (task_part m) - 8192 \<and>
      prepared (kthread_exit_addr l) (thread_addr l) 0 a (mem st))"
proof -
  let ?oom = "Some (Inl (Panic ''out of memory''))" and ?top = "kern_stack_top (task_part m)"
  obtain st1 st2 where run: "init_pmm_from (kern_start l) (kern_end l) (glb_mboot_ptr m) (task_part m) = Some (Inr st1)"
    and st2: "st2 = init_heap (init_vmm_tables st1)" "heap_ok [] st2" "kern_stack_top st2 = ?top" "mapped st2 (?top - 8192) 8192"
      "length (free_pages st2) < 2048 \<longrightarrow> small l n"
    by (rule pool_to_heap [OF r]) blast
  obtain io1 where io1: "say_color rc_red (newline @ ''The Count of Physical Memory Page is: %u'' @ newline @ newline)
      [Num (phy_page_count st2)] (io_part m) = Some (Inr io1)" using messages(4) by blast
  have start: "init_memory l m = bindO (test_heap_run (st2, io1)) (\<lambda>(st, io).
     bindO (Some (init_sched st)) (\<lambda>st.
     bindO (kernel_thread (kthread_exit_addr l) (thread_addr l) 0 st) (\<lambda>(pid, st).
       Some (Inr (m\<lparr>idt_part := register_interrupt_handler 14 (page_fault_addr l) (idt_part m), task_part := st,
         io_part := enable_intr io\<rparr>)))))"
    using io1 by (simp only: init_memory_def run init_vmm_def prod.case Let_def bindO_simps st2(1))
  have t: "0xC0003000 \<le> unat ?top" "unat ?top \<le> 0xE0000000" using r by (simp_all add: memory_ready_def)
  from test_heap_run_cases [OF st2(2), of io1]
  consider "test_heap_run (st2, io1) = ?oom" "small l n" | st3 io2 where "test_heap_run (st2, io1) = Some (Inr (st3, io2))"
    "heap_ok [] st3" "heap_frame st2 st3" "length (free_pages st3) < 6 \<longrightarrow> small l n"
  proof (elim disjE exE conjE)
    assume "test_heap_run (st2, io1) = ?oom" "length (free_pages st2) < 2048"
    then show ?thesis using that(1) st2(5) by blast
  next
    fix st3 io2
    assume 3: "test_heap_run (st2, io1) = Some (Inr (st3, io2))" "heap_ok [] st3" "heap_frame st2 st3"
      "length (free_pages st2) \<le> length (free_pages st3) + 1024"
    then have "length (free_pages st3) < 6 \<longrightarrow> small l n" using st2(5) by auto
    then show ?thesis by (rule that(2) [OF 3(1-3)])
  qed
  then show ?thesis
  proof cases
    case 1
    then show ?thesis using start by (simp only: bindO_simps simp_thms)
  next
    case 2
    have top: "kern_stack_top st3 = ?top"
      using 2(3) st2(3) unfolding heap_frame_def by (cases st2; cases st3) simp
    have "mapped st3 (?top - 8192) 8192"
      unfolding mapped_def
    proof (intro conjI allI impI)
      show "unat (?top - 8192) + 8192 \<le> 4294967296" using st2(4) by (simp add: mapped_def)
      show "translate st3 x \<noteq> None" if x: "unat (?top - 8192) \<le> unat x \<and> unat x < unat (?top - 8192) + 8192" for x
      proof -
        have "unat (?top - 8192) = unat ?top - 8192" using t(1) by (simp add: unat_minus_small word_le_nat_alt)
        then have "unat x < 0xE0000000" using x t by linarith
        then show ?thesis using frame_translate [OF st2(2) 2(3)] st2(4) x by (simp add: mapped_def)
      qed
    qed
    note m3 = this [folded top]
    have c3: "running c (kern_stack_top st3 - 8192)" using c by (simp only: top)
    have t3: "0xC0003000 \<le> unat (kern_stack_top st3)" "unat (kern_stack_top st3) \<le> 0xE0000000"
      using t by (simp_all only: top)
    obtain st4 where s4: "init_sched st3 = Inr st4"
      and k0: "kernel_thread (kthread_exit_addr l) (thread_addr l) 0 st4 = ?oom \<and> length (free_pages st3) < 6 \<or>
      (\<exists>pid st5 bs a. kernel_thread (kthread_exit_addr l) (thread_addr l) 0 st4 = Some (Inr (pid, st5)) \<and>
        sched_inv bs [kern_stack_top st3 - 8192, a] (c, st5) \<and> current st5 = kern_stack_top st3 - 8192 \<and>
        prepared (kthread_exit_addr l) (thread_addr l) 0 a (mem st5))"
      by (rule heap_to_threads [OF 2(2) m3 t3 c3])
    from k0 2(4) have k: "kernel_thread (kthread_exit_addr l) (thread_addr l) 0 st4 = ?oom \<and> small l n \<or>
      (\<exists>pid st5 bs a. kernel_thread (kthread_exit_addr l) (thread_addr l) 0 st4 = Some (Inr (pid, st5)) \<and>
        sched_inv bs [?top - 8192, a] (c, st5) \<and> current st5 = ?top - 8192 \<and>
        prepared (kthread_exit_addr l) (thread_addr l) 0 a (mem st5))"
      unfolding top by blast
    from k show ?thesis
    proof (elim disjE exE conjE)
      assume "kernel_thread (kthread_exit_addr l) (thread_addr l) 0 st4 = ?oom" "small l n"
      then show ?thesis using start 2(1) s4 by (simp only: bindO_simps prod.case simp_thms)
    next
      fix pid st5 bs a
      assume k5: "kernel_thread (kthread_exit_addr l) (thread_addr l) 0 st4 = Some (Inr (pid, st5))"
        and inv: "sched_inv bs [?top - 8192, a] (c, st5)" "current st5 = ?top - 8192"
          "prepared (kthread_exit_addr l) (thread_addr l) 0 a (mem st5)"
      have "init_memory l m = Some (Inr (m\<lparr>task_part := st5, io_part := enable_intr io2,
          idt_part := register_interrupt_handler 14 (page_fault_addr l) (idt_part m)\<rparr>))"
        unfolding start by (simp add: 2(1) s4 k5)
      then show ?thesis using inv by blast
    qed
  qed
qed

lemma kern_init_result:
  assumes elf: "elf_from_mutilboot (lit_strtab l) (lit_symtab l) (glb_mboot_ptr m) (task_part m) = Some (Inr elf)"
    and gdt: "5 \<le> length (gdt_entries (gdt_part m))"
    and r: "memory_ready l (task_part m) (glb_mboot_ptr m) k n"
    and c: "running c (kern_stack_top (task_part m) - STACK_SIZE)"
  shows "case kern_init l m of None \<Rightarrow> False
    | Some (Inl e) \<Rightarrow> e = Panic ''out of memory'' \<and> small l n
    | Some (Inr m') \<Rightarrow> (\<exists>bs a. sched_inv bs [kern_stack_top (task_part m) - STACK_SIZE, a] (c, task_part m') \<and>
          prepared (kthread_exit_addr l) (thread_addr l) 0 a (mem (task_part m'))) \<and>
        current (task_part m') = kern_stack_top (task_part m) - STACK_SIZE \<and>
        interrupt_handlers (idt_part m') ! 32 = timer_callback_addr l \<and>
        interrupt_handlers (idt_part m') ! 14 = page_fault_addr l \<and>
        intr_enabled (io_part m') \<and> kernel_elf m' = elf"
proof -
  let ?oom = "Some (Inl (Panic ''out of memory''))" and ?top = "kern_stack_top (task_part m)"
  have rd: "map_readable (task_part m) (glb_mboot_ptr m) k" using r by (simp add: memory_ready_def)
  obtain g i io where d: "init_devices l m = Some (Inr (m\<lparr>kernel_elf := elf, gdt_part := g, idt_part := i, io_part := io\<rparr>))"
    and h: "interrupt_handlers i = (replicate 256 0)[32 := timer_callback_addr l]"
    by (rule init_devices_ok [OF elf gdt rd])
  let ?m = "m\<lparr>kernel_elf := elf, gdt_part := g, idt_part := i, io_part := io\<rparr>"
  have ki: "kern_init l m = init_memory l ?m" by (simp add: kern_init_def d)
  have c': "running c (kern_stack_top (task_part ?m) - 8192)" using c by simp
  have "memory_ready l (task_part ?m) (glb_mboot_ptr ?m) k n" using r by simp
  from init_memory_cases [OF this c']
  consider "init_memory l ?m = ?oom" "small l n"
    | st io2 bs a where "init_memory l ?m = Some (Inr (?m\<lparr>task_part := st, io_part := enable_intr io2,
        idt_part := register_interrupt_handler 14 (page_fault_addr l) i\<rparr>))"
      "sched_inv bs [?top - 8192, a] (c, st)" "current st = ?top - 8192"
      "prepared (kthread_exit_addr l) (thread_addr l) 0 a (mem st)" by auto
  then show ?thesis
  proof cases
    case 1
    then show ?thesis by (simp add: ki)
  next
    case 2
    then show ?thesis by (auto simp: ki register_interrupt_handler_def enable_intr_def h)
  qed
qed

section \<open>A machine that starts\<close>

text \<open>
  Physical memory as the boot loader leaves it, for the witness: its structure at \<open>0x9000\<close>, the
  section headers at \<open>0xA000\<close>, their names at \<open>0xB000\<close> and a memory map of one entry at \<open>0xD000\<close>.
\<close>

definition loader_image :: bytes where
  "loader_image a = (case map_of
     [(0x901C, 0x2), (0x9025, 0xA0), (0x902C, 0x18), (0x9031, 0xD0), (0xA00D, 0xB0), (0xA014, 0x10),
      (0xA028, 0x8), (0xA035, 0xC0), (0xA03C, 0x10), (0xB000, 0x2E), (0xB001, 0x73), (0xB002, 0x74),
      (0xB003, 0x72), (0xB004, 0x74), (0xB005, 0x61), (0xB006, 0x62), (0xB008, 0x2E),
      (0xB009, 0x73), (0xB00A, 0x79), (0xB00B, 0x6D), (0xB00C, 0x74), (0xB00D, 0x61),
      (0xB00E, 0x62), (0xD000, 0x14), (0xD006, 0x10), (0xD00E, 0xEE), (0xD00F, 0x7), (0xD014, 0x1)] (unat a) of None \<Rightarrow> 0 | Some b \<Rightarrow> b)"

definition paged_machine :: task_state where
  "paged_machine = snd (fst (kern_entry 0xC0108000 0x9000 (boot_cpu, boot_machine loader_image)))"

lemma paged_machine_eq:
  "paged_machine = (enable_paging (entry_tables (boot_machine loader_image)))\<lparr>kern_stack_top := 0xC010A000\<rparr>"
  by (simp add: paged_machine_def kern_entry_def Let_def)

lemma paged_translate:
  "translate paged_machine va = (if va < 0x400000 \<or> (0xC0000000 \<le> va \<and> va < 0xC0400000) then Some (va AND 0x3fffff) else None)"
proof -
  have "translate paged_machine va = translate (entry_tables (boot_machine loader_image)) va"
    by (simp add: paged_machine_eq enable_paging_def translate_def walk_def)
  also have "first_directory_clear (boot_machine loader_image)"
    by (simp add: first_directory_clear_def boot_machine_def)
  note entry_walk [OF this, of va]
  finally show ?thesis .
qed

lemma paged_mem:
  "va < 0x400000 \<or> (0xC0000000 \<le> va \<and> va < 0xC0400000) \<Longrightarrow> mem paged_machine va = loader_image (va AND 0x3fffff)"
proof -
  assume a: "va < 0x400000 \<or> (0xC0000000 \<le> va \<and> va < 0xC0400000)"
  have "translate (entry_tables (boot_machine loader_image)) va = Some (va AND 0x3fffff)"
    using a by (subst entry_walk) (auto simp: first_directory_clear_def boot_machine_def)
  moreover have "frame (entry_tables (boot_machine loader_image)) = loader_image"
    by (simp add: entry_tables_def Let_def fill_tables_frame set_pgd_def boot_machine_def)
  ultimately show ?thesis by (simp add: paged_machine_eq enable_paging_def)
qed

lemma paged_mapped: "unat a + n \<le> 0x400000 \<Longrightarrow> mapped paged_machine a n"
  unfolding mapped_def by (auto simp: paged_translate word_less_nat_alt)

definition loader_linkage :: linkage where
  "loader_linkage = \<lparr>lit_strtab = 0xC000B000, lit_symtab = 0xC000B008, kern_start = 0xC0100000, kern_end = 0xC0200000,
     gdt_entries_addr = 0xC0107000, idt_entries_addr = 0xC0107800, isr_stub = (\<lambda>n. 0xC0101000 + 16 * of_nat n),
     irq_stub = (\<lambda>n. 0xC0102000 + 16 * of_nat n), timer_callback_addr = 0xC0103000, page_fault_addr = 0xC0103100,
     thread_addr = 0xC0103200, kthread_exit_addr = 0xC0103300\<rparr>"

lemma loader_names:
  "cstr paged_machine 0xC000B000 (chars ''.strtab'')" "cstr paged_machine 0xC000B008 (chars ''.symtab'')"
  by (simp_all add: paged_translate paged_mem loader_image_def)

lemma loader_words:
  "load32 (mem paged_machine) 0x901C = 2" "load32 (mem paged_machine) 0x9024 = 0xA000"
  "load32 (mem paged_machine) 0x9028 = 0" "load32 (mem paged_machine) 0x902C = 24" "load32 (mem paged_machine) 0x9030 = 0xD000"
  "section_at (mem paged_machine) 0xA000 = \<lparr>sh_name = 0, sh_type = 0, sh_flags = 0, sh_addr = 0xB000, sh_offset = 0,
      sh_size = 16, sh_link = 0, sh_info = 0, sh_addralign = 0, sh_entsize = 0\<rparr>"
  "section_at (mem paged_machine) 0xA028 = \<lparr>sh_name = 8, sh_type = 0, sh_flags = 0, sh_addr = 0xC000, sh_offset = 0,
      sh_size = 16, sh_link = 0, sh_info = 0, sh_addralign = 0, sh_entsize = 0\<rparr>"
  "mmap_entry_at (mem paged_machine) 0xD000 = \<lparr>mm_size = 20, base_addr_low = 0x100000, base_addr_high = 0,
      length_low = 0x7EE0000, length_high = 0, mm_type = 1\<rparr>"
  by (simp_all add: section_at_def mmap_entry_at_def load32_def paged_mem loader_image_def)

lemma loader_elf:
  "\<exists>elf. elf_from_mutilboot (lit_strtab loader_linkage) (lit_symtab loader_linkage) 0x9000 paged_machine = Some (Inr elf)"
proof -
  let ?names = "[chars ''.strtab'', chars ''.symtab'']"
  have "section_names paged_machine 0xA000 0xB000 ?names"
    using loader_names by (auto simp: section_names_def paged_mapped loader_words less_Suc_eq nth_Cons' simp del: list.map cstr.simps)
  then show ?thesis
    using elf_tables_found [of paged_machine "0x9000" "0xA000" ?names 0 "0xC000B000" "0xC000B008"] loader_names
    by (simp add: paged_mapped loader_words loader_linkage_def del: list.map cstr.simps)
qed

text \<open>What the first tables leave alone.\<close>

lemma fill_tables_update: "fill_tables is st = st\<lparr>ptab := ptab (fill_tables is st)\<rparr>"
proof (induction "is" arbitrary: st)
  case (Cons i "is")
  let ?s = "set_pte pte_high (of_nat i) (push_bit 12 (of_nat i) OR PAGE_PRESENT OR PAGE_WRITE)
      (set_pte pte_low (of_nat i) (push_bit 12 (of_nat i) OR PAGE_PRESENT OR PAGE_WRITE) st)"
  have "fill_tables (i # is) st = fill_tables is ?s" by (simp add: fill_tables_def)
  also have "\<dots> = ?s\<lparr>ptab := ptab (fill_tables is ?s)\<rparr>" by (rule Cons.IH)
  also have "\<dots> = st\<lparr>ptab := ptab (fill_tables is ?s)\<rparr>" by (simp add: set_pte_def)
  finally show ?case by simp
qed (simp add: fill_tables_def)

lemma fill_tables_other:
  "t \<noteq> 0x2000 \<Longrightarrow> t \<noteq> 0x3000 \<Longrightarrow> ptab (fill_tables is st) t = ptab st t"
  unfolding fill_tables_def by (induction "is" arbitrary: st) (simp_all add: set_pte_def)

lemma loader_ready: "memory_ready loader_linkage paged_machine 0x9000 1 0x7EE0000"
proof -
  let ?b = "boot_machine loader_image"
  obtain tab where e: "entry_tables ?b = ?b\<lparr>pgd := (pgd ?b)(0xC0001000 := (pgd ?b 0xC0001000)(0 := 0x2003, 768 := 0x3003)),
      ptab := tab, cr3 := 0x1000\<rparr>" and tab: "\<And>t. t \<noteq> 0x2000 \<Longrightarrow> t \<noteq> 0x3000 \<Longrightarrow> tab t = ptab ?b t"
  proof
    let ?s = "set_pgd 0xC0001000 768 0x3003 (set_pgd 0xC0001000 0 0x2003 ?b)"
    show "entry_tables ?b = ?b\<lparr>pgd := (pgd ?b)(0xC0001000 := (pgd ?b 0xC0001000)(0 := 0x2003, 768 := 0x3003)),
      ptab := ptab (fill_tables [0..<1024] ?s), cr3 := 0x1000\<rparr>"
      using fill_tables_update [of "[0..<1024]" ?s]
      by (simp add: entry_tables_def Let_def PGD_INDEX_OFFSET [simplified] set_pgd_def del: upt_rec_numeral)
    show "ptab (fill_tables [0..<1024] ?s) t = ptab ?b t" if "t \<noteq> 0x2000" "t \<noteq> 0x3000" for t
      using fill_tables_other [OF that, of "[0..<1024]" ?s] by (simp add: set_pgd_def)
  qed
  have f: "pgd paged_machine 0xC0110000 = (\<lambda>_. 0)" "pgd_kern paged_machine = 0xC0110000" "pte_kern paged_machine = 0xC0120000"
      "pmm_stack_top paged_machine = 0" "heap_max paged_machine = HEAP_START" "kern_stack_top paged_machine = 0xC010A000"
      "ptab paged_machine = tab"
    by (simp_all add: paged_machine_eq enable_paging_def e) (simp_all add: boot_machine_def boot_state_def)
  have t: "ptab paged_machine (kernel_table paged_machine j) = (\<lambda>_. 0)" if "j < 128" for j
  proof -
    have "unat (kernel_table paged_machine j) = 0x120000 + 4096 * j"
      using unat_kernel_table [of paged_machine j] that by (simp add: f(3))
    then have "kernel_table paged_machine j \<noteq> 0x2000" "kernel_table paged_machine j \<noteq> 0x3000" by (auto simp: u32_eq_unat)
    from tab [OF this] show ?thesis by (simp add: f(7)) (simp add: boot_machine_def)
  qed
  have "map_readable paged_machine 0x9000 1"
    by (simp add: map_readable_def loader_words paged_mapped)
  moreover have "filter usable (map_entries paged_machine 0x9000 1) = [mmap_entry_at (mem paged_machine) 0xD000]"
    by (simp add: map_entries_def loader_words usable_def)
  ultimately show ?thesis
    using f t by (auto simp: memory_ready_def kernel_arrays_ok_def loader_linkage_def loader_words)
qed

definition loader_machine :: machine where
  "loader_machine = \<lparr>glb_mboot_ptr = 0x9000, kernel_elf = \<lparr>symtab = Some 0, symtabsz = Some 0, strtab = Some 0, strtabsz = Some 0\<rparr>,
     gdt_part = gdt0, idt_part = \<lparr>idt_entries = replicate 256 zero_entry, idt_ptr_var = \<lparr>idt_ptr_limit = 0, idt_ptr_base = 0\<rparr>,
       idtr = \<lparr>idt_ptr_limit = 0, idt_ptr_base = 0\<rparr>, interrupt_handlers = replicate 256 0\<rparr>,
     task_part = paged_machine, io_part = console0\<rparr>"

end
