(* ===== verification/Spec2Isabelle.thy ===== *)
theory Spec2Isabelle
  imports Pmm Vmm_Runs Access Heap_Flaws Printk Mstring Gdt Tick Fault Debug Entry Boot
begin

text \<open>
  A verification library for a small 32-bit x86 kernel. Paths are relative to \<^verbatim>\<open>src/src/\<close>.

  \<^bold>\<open>The program.\<close> \<^verbatim>\<open>start\<close> (\<^verbatim>\<open>boot/boot.s\<close>) calls \<^verbatim>\<open>kern_entry\<close> (\<^verbatim>\<open>init/entry.c\<close>), which turns paging on and calls
  \<^verbatim>\<open>kern_init\<close>. That reads the symbol tables, sets up segments, interrupts, the screen and the
  timer, prints the memory map, fills the pool of physical pages, builds the page tables and the
  heap, creates one thread and enables interrupts. From then on every tick of the timer runs
  \<^verbatim>\<open>schedule\<close> inside the interrupt, which switches to the next thread of a ring. The page pool
  serves the page tables and the heap, the heap serves thread creation, and everything prints
  through \<^verbatim>\<open>printk\<close> to the console.

  \<^bold>\<open>Theories, from the bottom.\<close>
  \<^item> \<open>Prelude\<close>: words (\<^verbatim>\<open>include/types.h\<close>), the errors (a failed \<^verbatim>\<open>assert\<close> or \<^verbatim>\<open>panic\<close>, a page fault, a
    division by zero, behaviour C leaves undefined), results as sums, bytes and 32-bit words in
    memory with the laws of loads from stored memory (locale \<open>object_store\<close>).
  \<^item> \<open>Pmm\<close> (\<^verbatim>\<open>mm/pmm.c\<close>): the stack of free pages and its setup from the memory map; interface
    \<open>page_allocator\<close>. \<open>Vmm\<close> (\<^verbatim>\<open>mm/vmm.c\<close>): page tables, the walk of the processor, \<open>vmm_map\<close>,
    \<open>vmm_unmap\<close>, \<open>get_mapping\<close>, \<open>init_vmm_tables\<close>; interface \<open>address_space\<close>. \<open>Vmm_Runs\<close>: any sequence
    of them as updates of a finite map. \<open>Access\<close>: reads and writes through the tables, which fault.
  \<^item> \<open>Heap\<close> (\<^verbatim>\<open>mm/heap.c\<close>): the operations. \<open>Heap_Pages\<close>: the pages under the heap. \<open>Heap_Rep\<close>: the
    heap as a list of blocks. \<open>Heap_Alloc\<close>: \<open>kmalloc\<close> implements first fit. \<open>Heap_Free\<close>: \<open>kfree\<close>
    merges and gives pages back. \<open>Heap_Client\<close>: what callers rely on, interface \<open>allocator\<close>.
    \<open>Heap_Flaws\<close>: the heap as a whole, \<open>test_heap\<close>, and where the operations go wrong.
  \<^item> \<open>Ports\<close> (\<^verbatim>\<open>libs/common.c\<close>), \<open>Console\<close> (\<^verbatim>\<open>drivers/console.c\<close>), \<open>Printk\<close> (\<^verbatim>\<open>kernel/debug/printk.c\<close>),
    \<open>Mstring\<close> (\<^verbatim>\<open>libs/mstring.c\<close>).
  \<^item> \<open>Task\<close> (\<^verbatim>\<open>kernel/task/task.c\<close>, \<^verbatim>\<open>kernel/sched/sched.c\<close>, \<^verbatim>\<open>kernel/sched/switch_to.s\<close>): creation of
    threads and the switch; a \<^verbatim>\<open>task_struct\<close> lies in the modelled memory. \<open>Sched\<close>: the ring and its
    invariant. \<open>Sched_Run\<close>: runs of ticks, creations, allocations and work, in any order. \<open>Preempt\<close>: what
    a thread finds when it runs again, and when it runs for the first time.
  \<^item> \<open>Gdt\<close> (\<^verbatim>\<open>gdt/\<close>), \<open>Idt\<close> (\<^verbatim>\<open>idt/idt.c\<close>), \<open>Stubs\<close> (\<^verbatim>\<open>idt/idt_s.s\<close>): descriptors as the processor
    decodes them, gates, the interrupt controllers, the handlers, and the saving and restoring of
    registers around them. \<open>Timer\<close> (\<^verbatim>\<open>drivers/timer.c\<close>, \<^verbatim>\<open>mm/page_fault.c\<close>): the divisor, the
    tick from the controller to the switch, the report of a page fault. \<open>Tick\<close>: a timer interrupt from
    the interrupted instruction through the other threads and back to it. \<open>Fault\<close>: a fault of the
    processor from the instruction to the screen, with and without a handler.
  \<^item> \<open>Debug\<close> (\<^verbatim>\<open>kernel/debug/melf.c\<close>, \<^verbatim>\<open>kernel/debug/debug.c\<close>, \<^verbatim>\<open>show_memory_map\<close>): symbol tables and
    the stack trace of \<^verbatim>\<open>panic\<close>. \<open>Entry\<close>: \<^verbatim>\<open>start\<close>, \<^verbatim>\<open>kern_entry\<close> and the
    two printing loops. \<open>Boot\<close>:
    \<^verbatim>\<open>kern_init\<close>. This theory: the properties of the whole start.

  \<^bold>\<open>State.\<close> Records extend one another as the components do: \<open>pmm_state\<close>, \<open>vmm_state\<close>, \<open>heap_state\<close>,
  \<open>task_state\<close>; \<open>port_state\<close>, \<open>console_state\<close>; operations take any extension of their record. Their
  fields are the C variables of the same name. \<open>mem\<close> holds the bytes of the kernel's address space;
  headers of blocks, tasks, stacks and ELF tables are words in it. Page tables (\<open>pgd\<close>, \<open>ptab\<close>) and
  the arrays \<^verbatim>\<open>pmm_stack\<close>, \<^verbatim>\<open>gdt_entries\<close>, \<^verbatim>\<open>idt_entries\<close> are fields of their own. The registers are the
  record \<open>cpu\<close>, with the rest of them \<open>stub_cpu\<close>. \<open>machine\<close> in \<open>Boot\<close> puts all parts together.

  \<^bold>\<open>Results.\<close> \<open>'a res\<close> is an error or a value, with \<open>bindE\<close>; every \<^verbatim>\<open>assert\<close> is a branch. A loop that
  may not end (over \<open>next\<close> pointers, frame pointers, strings) is a \<open>partial_function\<close> with result
  \<open>'a res option\<close>, with \<open>bindO\<close>; not returning is \<open>None\<close>. There is no fuel. That the loops return is
  proved: for \<open>kmalloc\<close> and \<open>kfree\<close> on well-formed heaps, for \<open>strcmp\<close> on strings, for \<open>kernel_thread\<close>
  on well-formed rings, for \<open>print_stack_trace\<close> exactly when the chain of frames ends, and for all of
  \<open>kern_init\<close>. Loops over a counter are structural or have a measure.

  \<^bold>\<open>What is shown.\<close> Pages: no page is handed out twice, and the pool refines a bounded stack. Address
  space: \<open>vmm_map\<close> and \<open>vmm_unmap\<close> change one translation, and any sequence of them is a finite map that
  costs one page for each new table. Heap: first fit, fresh and disjoint memory,
  coalescing, and the round trip of allocation and release. Screen: the console refines a grid
  of 25 rows with a cursor; every print keeps it, unless a \<^verbatim>\<open>%n\<close> stores into it. Numbers: the
  printed text reads back as the value, or an \<^verbatim>\<open>int\<close> overflows and when. Threads: the ring, the stacks and the saved contexts stay well formed over all runs, every thread gets its turn, a
  switch and an interrupt are invisible to the thread, and so is a timer interrupt with all that other
  threads do before it ends. Faults: the report of a page fault, and that a fault without
  a handler is raised again for ever. Start: \<open>kern_init\<close> reaches its last loop or
  panics for lack of memory, and the new thread then enters its function. The words are 32 bits wide throughout; the bounds that matter are the 131072
  pages of the pool, the 128 page tables of the kernel, the 512 MB of heap addresses, the 1024 bytes of the
  print buffer, and for the start the 2048 pages below which it may panic.

  \<^bold>\<open>Assumptions.\<close> Addresses the compiler and the linker choose are parameters (record \<open>linkage\<close>), as are
  what devices answer and what the function at an address does. A tick needs the stack pointer
  in the area of the running thread, with room below it, and
  \<open>kernel_thread\<close> and \<open>kmalloc\<close> are not interrupted. The page
  tables are not reachable through \<open>mem\<close>. Before \<open>init_vmm\<close> low memory is visible at two addresses;
  writes through one are not seen at the other, and the kernel makes none. C is taken as written: a variable
  that is not \<^verbatim>\<open>volatile\<close> is read where the source reads it. A print is one step of the handshake of the two threads.
  What a store through a pointer given to \<^verbatim>\<open>%n\<close> does is a parameter of \<open>printk_with\<close>, and which instructions fault
  is one of \<open>run_faults\<close>. In \<open>printk\<close> an \<^verbatim>\<open>int\<close> that overflows is an error.
  A read of uninitialised or out-of-range data is an error, not an arbitrary value.

  \<^bold>\<open>Not modelled.\<close> \<^verbatim>\<open>scripts/kernel.ld\<close> and the \<^verbatim>\<open>Makefile\<close>. The loops at the end of \<^verbatim>\<open>panic\<close>,
  \<^verbatim>\<open>page_fault\<close> and \<^verbatim>\<open>kthread_exit\<close>: the models return the state in which they loop. The code of a C
  function around its calls, its prologue and epilogue: \<open>interrupt_transparent\<close> asks of a handler that
  it returns with its stack pointer and keeps the saved registers, and \<open>timer_interrupt_invisible\<close> states the
  calling convention the functions between the stub and the switch follow as \<open>calls_down\<close> and
  \<open>returns_up\<close>.
  \<^verbatim>\<open>console_write_hex\<close> and \<^verbatim>\<open>console_write_dec\<close> are declared and never defined.
\<close>

section \<open>Properties of the whole kernel\<close>

text \<open>The machine of \<open>Boot\<close> that starts, for the witnesses.\<close>

abbreviation loader_cpu :: cpu where "loader_cpu \<equiv> boot_cpu\<lparr>esp := 0xC0109F00\<rparr>"

lemma loader_starts:
  obtains elf where "elf_from_mutilboot (lit_strtab loader_linkage) (lit_symtab loader_linkage)
      (glb_mboot_ptr loader_machine) (task_part loader_machine) = Some (Inr elf)"
    and "5 \<le> length (gdt_entries (gdt_part loader_machine))"
    and "memory_ready loader_linkage (task_part loader_machine) (glb_mboot_ptr loader_machine) 1 0x7EE0000"
    and "running loader_cpu (kern_stack_top (task_part loader_machine) - STACK_SIZE)"
    and "kern_stack_top (task_part loader_machine) - STACK_SIZE = 0xC0108000"
proof -
  have p: "task_part loader_machine = paged_machine" "glb_mboot_ptr loader_machine = 0x9000"
      "5 \<le> length (gdt_entries (gdt_part loader_machine))"
    by (simp_all add: loader_machine_def gdt0_def)
  have t: "kern_stack_top paged_machine = 0xC010A000" by (simp add: paged_machine_eq)
  then have c: "running loader_cpu (kern_stack_top (task_part loader_machine) - STACK_SIZE)"
    by (simp add: p running_def)
  obtain elf where e: "elf_from_mutilboot (lit_strtab loader_linkage) (lit_symtab loader_linkage)
      (glb_mboot_ptr loader_machine) (task_part loader_machine) = Some (Inr elf)"
    using loader_elf by (auto simp: p)
  have r: "memory_ready loader_linkage (task_part loader_machine) (glb_mboot_ptr loader_machine) 1 0x7EE0000"
    using loader_ready by (simp add: p)
  show ?thesis by (rule that [OF e p(3) r c]) (simp add: p t)
qed

lemma loader_sizes: "unat (kern_end loader_linkage - kern_start loader_linkage) = 0x100000"
    "timer_callback_addr loader_linkage = 0xC0103000"
  by (simp_all add: loader_linkage_def)

text \<open>C1: The kernel starts. From a machine in the state \<open>kern_entry\<close> leaves, with the boot loader's
  structures readable, one usable region of memory at 1 MB and the tables of the image in place,
  \<open>kern_init\<close> never faults and never hangs before its last loop: it panics when the memory is too
  small, with less than 8 MB behind the image, or it ends with interrupts on, the handlers of
  the timer and of page faults registered, and the invariant of the scheduler established for
  the boot thread on the kernel stack and the new thread behind it. The stack pointer has to be in the kernel
  stack, where \<open>kern_entry\<close> means to put it; \<open>kern_entry_starts_paging\<close> shows that it begins 1000 bytes
  above.\<close>

theorem kern_init_reaches_scheduler:
  assumes "elf_from_mutilboot (lit_strtab l) (lit_symtab l) (glb_mboot_ptr m) (task_part m) = Some (Inr elf)"
    and "5 \<le> length (gdt_entries (gdt_part m))"
    and "memory_ready l (task_part m) (glb_mboot_ptr m) k n"
    and "running c (kern_stack_top (task_part m) - STACK_SIZE)"
  shows "case kern_init l m of None \<Rightarrow> False
    | Some (Inl e) \<Rightarrow> e = Panic ''out of memory'' \<and>
        min n 0x1FF00000 < unat (kern_end l - kern_start l) + 0x800000
    | Some (Inr m') \<Rightarrow> (\<exists>bs a. sched_inv bs [kern_stack_top (task_part m) - STACK_SIZE, a] (c, task_part m')) \<and>
        current (task_part m') = kern_stack_top (task_part m) - STACK_SIZE \<and>
        interrupt_handlers (idt_part m') ! 32 = timer_callback_addr l \<and>
        interrupt_handlers (idt_part m') ! 14 = page_fault_addr l \<and>
        intr_enabled (io_part m') \<and> kernel_elf m' = elf"
  using kern_init_result [OF assms, unfolded small_def] by (simp split: option.splits sum.splits) blast

theorem kern_init_reaches_scheduler_witness:
  "\<exists>m' bs a. kern_init loader_linkage loader_machine = Some (Inr m') \<and>
    sched_inv bs [0xC0108000, a] (loader_cpu, task_part m') \<and>
    interrupt_handlers (idt_part m') ! 32 = 0xC0103000 \<and> intr_enabled (io_part m')"
proof -
  obtain elf where l: "elf_from_mutilboot (lit_strtab loader_linkage) (lit_symtab loader_linkage)
      (glb_mboot_ptr loader_machine) (task_part loader_machine) = Some (Inr elf)"
    "5 \<le> length (gdt_entries (gdt_part loader_machine))"
    "memory_ready loader_linkage (task_part loader_machine) (glb_mboot_ptr loader_machine) 1 0x7EE0000"
    "running loader_cpu (kern_stack_top (task_part loader_machine) - STACK_SIZE)"
    "kern_stack_top (task_part loader_machine) - STACK_SIZE = 0xC0108000" by (rule loader_starts)
  from kern_init_reaches_scheduler [OF l(1-4), unfolded l(5)] show ?thesis
    by (auto simp: loader_sizes split: option.splits sum.splits)
qed

text \<open>C3: The thread of \<open>kern_init\<close> starts. In every run of the started kernel with two ticks, and one more for
  every thread that is created on the way, the first tick that reaches the new task enters the function
  \<^verbatim>\<open>thread\<close> on the task's own stack, with \<^verbatim>\<open>kthread_exit\<close> as its return address, the argument \<^verbatim>\<open>NULL\<close>
  and interrupts enabled, whatever the boot thread has done before.\<close>

theorem started_thread_runs:
  assumes "elf_from_mutilboot (lit_strtab l) (lit_symtab l) (glb_mboot_ptr m) (task_part m) = Some (Inr elf)"
    and "5 \<le> length (gdt_entries (gdt_part m))"
    and "memory_ready l (task_part m) (glb_mboot_ptr m) k n"
    and "running c (kern_stack_top (task_part m) - STACK_SIZE)"
    and "kern_init l m = Some (Inr m')" and "kernel_run es (c, task_part m') s'"
    and "2 + count_list es Spawn \<le> count_list es Tick"
  shows "\<exists>a es1 es2 u c1 st1. es = es1 @ Tick # es2 \<and> slept a es1 (c, task_part m') u \<and>
    kernel_step Tick u (c1, st1) \<and> kernel_run es2 (c1, st1) s' \<and> current st1 = a \<and>
    a \<noteq> current (task_part m') \<and> eip c1 = thread_addr l \<and> esp c1 = a + 8184 \<and>
    load32 (mem st1) (esp c1) = kthread_exit_addr l \<and> load32 (mem st1) (esp c1 + 4) = 0 \<and> bit (eflags c1) 9"
proof -
  let ?t = "kern_stack_top (task_part m) - STACK_SIZE" and ?s = "(c, task_part m')"
  obtain bs a where inv: "sched_inv bs [?t, a] ?s" and t: "current (task_part m') = ?t"
    and p: "prepared (kthread_exit_addr l) (thread_addr l) 0 a (mem (snd ?s))"
    using kern_init_result [OF assms(1-4)] assms(5) by auto
  have ne: "current (snd ?s) \<noteq> a"
    using areas_distinct [OF tasks_okD(6) [OF sched_invD(1) [OF inv]]] t by auto
  have w: "wait (length [?t, a]) 0 1 + count_list es Spawn \<le> count_list es Tick"
    using assms(7) by (simp add: wait_def)
  obtain e1 e2 s1 where v: "es = e1 @ e2" "kernel_run e1 ?s s1" "kernel_run e2 s1 s'" "current (snd s1) = a"
    using run_visits [OF assms(6) inv _ _ _ w] t by auto
  from first_turn [OF v(2) inv ne v(4)] obtain es1 es2 u c1 st1
    where f: "e1 = es1 @ Tick # es2" "slept a es1 ?s u" "kernel_step Tick u (c1, st1)" "current st1 = a"
      "kernel_run es2 (c1, st1) s1" by (metis prod.collapse snd_conv)
  obtain cu stu where u: "u = (cu, stu)" by (cases u)
  obtain bs' us where iu: "sched_inv bs' ([?t, a] @ us) (cu, stu)"
    using kernel_run_inv [OF slept_run [OF f(2)] inv] u by auto
  have pu: "prepared (kthread_exit_addr l) (thread_addr l) 0 a (mem stu)"
    using slept_prepared [OF f(2) inv _ p] u by simp
  have nu: "current stu \<noteq> a" using slept_ends [OF f(2)] u by simp
  have "kernel_run (es2 @ e2) (c1, st1) s'" by (rule kernel_run_append [OF f(5) v(3)])
  moreover have "es = es1 @ Tick # (es2 @ e2)" using v(1) f(1) by simp
  moreover have "a \<noteq> current (task_part m')" using ne by simp
  ultimately show ?thesis using prepared_starts [OF iu pu nu f(3) [unfolded u] f(4)] f(2-4) by blast
qed

theorem started_thread_runs_witness:
  "\<exists>m' s' a es1 es2 u c1 st1. kern_init loader_linkage loader_machine = Some (Inr m') \<and>
    kernel_run [Tick, Work, Tick] (loader_cpu, task_part m') s' \<and> [Tick, Work, Tick] = es1 @ Tick # es2 \<and>
    kernel_step Tick u (c1, st1 :: task_state) \<and> current st1 = a \<and> eip c1 = thread_addr loader_linkage \<and> esp c1 = a + 8184 \<and>
    load32 (mem st1) (esp c1) = kthread_exit_addr loader_linkage"
proof -
  obtain elf where l: "elf_from_mutilboot (lit_strtab loader_linkage) (lit_symtab loader_linkage)
      (glb_mboot_ptr loader_machine) (task_part loader_machine) = Some (Inr elf)"
    "5 \<le> length (gdt_entries (gdt_part loader_machine))"
    "memory_ready loader_linkage (task_part loader_machine) (glb_mboot_ptr loader_machine) 1 0x7EE0000"
    "running loader_cpu (kern_stack_top (task_part loader_machine) - STACK_SIZE)"
    "kern_stack_top (task_part loader_machine) - STACK_SIZE = 0xC0108000" by (rule loader_starts)
  from kern_init_result [OF l(1-4), unfolded l(5)] obtain m' bs a where m: "kern_init loader_linkage loader_machine = Some (Inr m')"
    "sched_inv bs [0xC0108000, a] (loader_cpu, task_part m')" "current (task_part m') = 0xC0108000"
    by (auto simp: small_def loader_sizes split: option.splits sum.splits)
  have "has_room loader_cpu 0xC0108000" by (simp add: has_room_def)
  from pair_runs [OF m(2,3) this] obtain s' where r: "kernel_run [Tick, Work, Tick] (loader_cpu, task_part m') s'" by blast
  have "2 + count_list [Tick, Work, Tick] Spawn \<le> count_list [Tick, Work, Tick] Tick" by simp
  from started_thread_runs [OF l(1-4) m(1) r this] m(1) r show ?thesis by blast
qed

end
